(* ===== verification/Prelude.thy ===== *)
theory Prelude
  imports Main "HOL-Library.Word" "HOL-Library.Monad_Syntax"
begin

text \<open>
  The vocabulary shared by every component of the development: the machine integers of the
  C sources, the two ways in which a C function of this repository can fail, and the generic
  lemmas about words, options and lists the component theories rely on.

  \<^item> A failed \<open>assert\<close> (\<open>lib/assert.h\<close>), a dereference of \<open>NULL\<close> and a loop that never ends
    are the value \<^const>\<open>None\<close> of the option monad; a function that can do none of these is
    modelled by a plain HOL function.
  \<^item> A function \<open>bool f(..., T *out)\<close> returns \<open>Fail\<close> for \<open>false\<close> and \<open>Ok v\<close> when it
    returns \<open>true\<close> after storing \<open>v\<close> in \<open>*out\<close>.
\<close>

unbundle bit_operations_syntax

section \<open>Machine integers\<close>

type_synonym u8 = "8 word"
type_synonym u16 = "16 word"
type_synonym u32 = "32 word"
type_synonym u64 = "64 word"

abbreviation UINT64_MAX :: u64 where "UINT64_MAX \<equiv> - 1"
abbreviation UINT32_MAX :: u32 where "UINT32_MAX \<equiv> - 1"
abbreviation UINT8_MAX :: u8 where "UINT8_MAX \<equiv> - 1"

text \<open>The size of a page, for pages of 4 KiB.\<close>

definition PAGE_SHIFT :: nat where
  "PAGE_SHIFT = 12"

definition PAGE_SIZE :: u64 where
  "PAGE_SIZE = 4096"

section \<open>Failing computations\<close>

text \<open>The result of a C function that reports success as a \<open>bool\<close> and its value through a
  pointer.\<close>

datatype 'a res = Fail | Ok 'a

definition assert_that :: "bool \<Rightarrow> unit option" where
  "assert_that b = (if b then Some () else None)"

fun is_ok :: "'a res \<Rightarrow> bool" where
  "is_ok Fail = False"
| "is_ok (Ok v) = True"

text \<open>\<open>assert(f(..., &v))\<close>: the value, or a panic.\<close>

fun assert_ok :: "'a res \<Rightarrow> 'a option" where
  "assert_ok Fail = None"
| "assert_ok (Ok v) = Some v"

named_theorems run_simps \<open>unfolding of the monadic glue\<close>

lemma assert_that_simps [simp, run_simps]:
  "assert_that True = Some ()"
  "assert_that False = None"
  by (simp_all add: assert_that_def)

lemma assert_that_bind [simp, run_simps]:
  "Option.bind (assert_that b) f = (if b then f () else None)"
  by (simp add: assert_that_def)

lemma assert_that_eq_Some [simp]: "(assert_that b = Some u) = b"
  by (simp add: assert_that_def)

lemma bind_eq_SomeE:
  assumes "Option.bind m f = Some y"
  obtains x where "m = Some x" and "f x = Some y"
  using assms by (cases m) auto

lemma assert_ok_eq_Some [simp]: "(assert_ok r = Some v) = (r = Ok v)"
  by (cases r) auto

lemma is_ok_iff: "is_ok r \<longleftrightarrow> (\<exists>v. r = Ok v)"
  by (cases r) auto

section \<open>Lists\<close>

text \<open>Where an element of a concatenation lies when a property tells its parts apart.\<close>

lemma append_split_right:
  assumes "l @ y # r = us @ vs" and "\<And>u. u \<in> set us \<Longrightarrow> \<not> P u" and "P y"
  obtains vs' where "l = us @ vs'" and "vs = vs' @ y # r"
  using assms by (auto simp: append_eq_append_conv2 Cons_eq_append_conv)

lemma append_split_left:
  assumes "l @ y # r = us @ vs" and "\<And>v. v \<in> set vs \<Longrightarrow> \<not> P v" and "P y"
  obtains us' where "us = l @ y # us'" and "r = us' @ vs"
  using assms by (auto simp: append_eq_append_conv2 Cons_eq_append_conv)

section \<open>Naturals\<close>

lemma dvd_gap:
  fixes a b m :: nat
  assumes "m dvd a" and "m dvd b" and "a < b"
  shows "a + m \<le> b"
proof -
  obtain i j where "a = m * i" and "b = m * j"
    using assms(1,2) by (meson dvdE)
  with assms(3) have "Suc i \<le> j"
    by simp
  then have "m * Suc i \<le> m * j"
    by (rule mult_le_mono2)
  with \<open>a = m * i\<close> \<open>b = m * j\<close> show ?thesis
    by simp
qed

section \<open>Words\<close>

text \<open>Facts that move comparisons and arithmetic of words to \<open>nat\<close>.\<close>

named_theorems unat_simps \<open>word arithmetic as arithmetic of nat\<close>

lemma unat_lt_64 [simp]: "unat (x :: u64) < 18446744073709551616"
  by (rule order_less_le_trans [OF unsigned_less]) simp

lemma unat_lt_32 [simp]: "unat (x :: u32) < 4294967296"
  by (rule order_less_le_trans [OF unsigned_less]) simp

lemma unat_lt_16 [simp]: "unat (x :: u16) < 65536"
  by (rule order_less_le_trans [OF unsigned_less]) simp

lemma unat_lt_8 [simp]: "unat (x :: u8) < 256"
  by (rule order_less_le_trans [OF unsigned_less]) simp

lemma unat_add_no_wrap:
  fixes a b :: "'a::len word"
  shows "unat a + unat b < 2 ^ LENGTH('a) \<Longrightarrow> unat (a + b) = unat a + unat b"
  by (simp add: unat_word_ariths)

lemma unat_ucast_wider:
  fixes w :: "'a::len word"
  assumes "LENGTH('a) \<le> LENGTH('b::len)"
  shows "unat (ucast w :: 'b word) = unat w"
proof -
  have "unat w < 2 ^ LENGTH('b)"
    using power_increasing [OF assms, of "2 :: nat"]
    by (intro less_le_trans [OF unsigned_less]) simp
  then show ?thesis
    by (simp add: unsigned_ucast_eq take_bit_nat_eq_self)
qed

lemma unat_ucast_narrower:
  fixes w :: "'a::len word"
  assumes "unat w < 2 ^ LENGTH('b::len)"
  shows "unat (ucast w :: 'b word) = unat w"
  using assms by (simp add: unsigned_ucast_eq take_bit_nat_eq_self)

lemma unat_ucast_u8_u64 [simp]: "unat (ucast (w :: u8) :: u64) = unat w"
  by (rule unat_ucast_wider) simp

lemma unat_ucast_u64_u8: "unat (w :: u64) < 256 \<Longrightarrow> unat (ucast w :: u8) = unat w"
  by (rule unat_ucast_narrower) simp

lemma unat_sub_no_wrap:
  fixes a b :: "'a::len word"
  shows "b \<le> a \<Longrightarrow> unat (a - b) = unat a - unat b"
  by (rule unat_sub)

lemma unat_mul_no_wrap:
  fixes a b :: "'a::len word"
  shows "unat a * unat b < 2 ^ LENGTH('a) \<Longrightarrow> unat (a * b) = unat a * unat b"
  by (simp add: unat_word_ariths)

lemma unat_minus_one_64 [simp]: "unat (- 1 :: u64) = 18446744073709551615"
  by (simp add: unsigned_minus_1_eq_mask mask_eq_exp_minus_1)

lemmas [unat_simps] = word_less_nat_alt word_le_nat_alt

lemma unat_eq_iff: "a = b \<longleftrightarrow> unat a = unat b"
  by (simp add: word_unat_eq_iff)

lemma unat_eqI: "unat a = unat b \<Longrightarrow> a = b"
  by (simp add: word_unat_eq_iff)

lemma unat_of_nat_no_wrap:
  "n < 2 ^ LENGTH('a) \<Longrightarrow> unat (of_nat n :: 'a::len word) = n"
  by (simp add: unat_of_nat)

lemma unat_pos_iff: "0 < unat a \<longleftrightarrow> a \<noteq> 0"
  by (metis unat_eq_0 gr0I less_irrefl)

end
