(* ===== verification/Arith.thy ===== *)
theory Arith
  imports Prelude
begin

text \<open>
  The arithmetic the rest of the system is written with: the overflow-checked operations of
  \<open>lib/overflow.h\<close>, alignment (\<open>lib/align.h\<close>, \<open>lib/align.c\<close>), rounding and powers
  (\<open>lib/math.c\<close>), the bounds predicates of \<open>lib/util.c\<close> and the arithmetic macros of
  \<open>lib/macros.h\<close>.  All of it is on unsigned words that wrap around.
\<close>

section \<open>lib/overflow.h\<close>

definition check_add :: "'a::len word \<Rightarrow> 'a word \<Rightarrow> 'a word res" where
  "check_add lhs rhs = (if unat lhs + unat rhs < 2 ^ LENGTH('a) then Ok (lhs + rhs) else Fail)"

definition check_sub :: "'a::len word \<Rightarrow> 'a word \<Rightarrow> 'a word res" where
  "check_sub lhs rhs = (if unat rhs \<le> unat lhs then Ok (lhs - rhs) else Fail)"

definition check_mul :: "'a::len word \<Rightarrow> 'a word \<Rightarrow> 'a word res" where
  "check_mul lhs rhs = (if unat lhs * unat rhs < 2 ^ LENGTH('a) then Ok (lhs * rhs) else Fail)"

definition check_add_assert :: "'a::len word \<Rightarrow> 'a word \<Rightarrow> 'a word option" where
  "check_add_assert lhs rhs = assert_ok (check_add lhs rhs)"

definition check_sub_assert :: "'a::len word \<Rightarrow> 'a word \<Rightarrow> 'a word option" where
  "check_sub_assert lhs rhs = assert_ok (check_sub lhs rhs)"

definition check_mul_assert :: "'a::len word \<Rightarrow> 'a word \<Rightarrow> 'a word option" where
  "check_mul_assert lhs rhs = assert_ok (check_mul lhs rhs)"

section \<open>lib/macros.h\<close>

definition distance :: "u64 \<Rightarrow> u64 \<Rightarrow> u64" where
  "distance begin end' = end' - begin"

definition bits_to_bytes_noround :: "u64 \<Rightarrow> u64" where
  "bits_to_bytes_noround bits = bits div 8"

definition bytes_to_bits :: "u64 \<Rightarrow> u64" where
  "bytes_to_bits bytes = bytes * 8"

definition bits_to_bytes_roundup :: "u64 \<Rightarrow> u64" where
  "bits_to_bytes_roundup bits =
     (if bits mod 8 \<noteq> 0 then bits_to_bytes_noround bits + 1 else bits_to_bytes_noround bits)"

text \<open>\<open>mask_for_n_bits(n)\<close> for \<open>1 \<le> n \<le> 64\<close>; a shift by 64 or more, which \<open>n = 0\<close> would
  ask for, is undefined in C.\<close>

definition mask_for_n_bits :: "nat \<Rightarrow> u64 option" where
  "mask_for_n_bits n =
     (if n = 64 then Some (NOT 0)
      else if n = 0 \<or> 64 < n then None
      else Some (drop_bit (64 - n) (NOT 0)))"

definition rm_mask :: "'a::len word \<Rightarrow> 'a word \<Rightarrow> 'a word" where
  "rm_mask num msk = num AND NOT msk"

definition set_bits_for_mask :: "'a::len word \<Rightarrow> 'a word \<Rightarrow> bool \<Rightarrow> 'a word" where
  "set_bits_for_mask num msk value = (if value then num OR msk else rm_mask num msk)"

definition has_mask :: "'a::len word \<Rightarrow> 'a word \<Rightarrow> bool" where
  "has_mask num msk \<longleftrightarrow> num AND msk = msk"

definition div_round_up :: "'a::len word \<Rightarrow> 'a word \<Rightarrow> 'a word" where
  "div_round_up a b = (if a mod b \<noteq> 0 then a div b + 1 else a div b)"

section \<open>lib/align.h and lib/align.c\<close>

definition offset_from_boundary :: "u64 \<Rightarrow> u64 \<Rightarrow> u64 option" where
  "offset_from_boundary number boundary =
     do { assert_that (boundary \<noteq> 0); Some (number AND (boundary - 1)) }"

definition amount_to_boundary :: "u64 \<Rightarrow> u64 \<Rightarrow> u64 option" where
  "amount_to_boundary number boundary =
     do { assert_that (boundary \<noteq> 0);
          off \<leftarrow> offset_from_boundary number boundary;
          Some (boundary - off) }"

definition has_align :: "u64 \<Rightarrow> u64 \<Rightarrow> bool option" where
  "has_align number boundary =
     do { assert_that (boundary \<noteq> 0);
          off \<leftarrow> offset_from_boundary number boundary;
          Some (off = 0) }"

definition align_down :: "u64 \<Rightarrow> u64 \<Rightarrow> u64 option" where
  "align_down number boundary =
     do { assert_that (boundary \<noteq> 0); Some (number AND NOT (boundary - 1)) }"

definition align_up :: "u64 \<Rightarrow> u64 \<Rightarrow> u64 res option" where
  "align_up number boundary =
     (if boundary = 0 then Some Fail
      else case check_add number (boundary - 1) of
        Fail \<Rightarrow> Some Fail
      | Ok result \<Rightarrow> map_option Ok (align_down result boundary))"

definition align_up_assert :: "u64 \<Rightarrow> u64 \<Rightarrow> u64 option" where
  "align_up_assert number boundary = Option.bind (align_up number boundary) assert_ok"

section \<open>lib/math.c\<close>

definition round_up :: "u64 \<Rightarrow> u64 \<Rightarrow> u64 res option" where
  "round_up number multiple =
     do { assert_that (multiple \<noteq> 0);
          if number = 0 then Some (Ok multiple)
          else case check_add number (multiple - 1) of
            Fail \<Rightarrow> Some Fail
          | Ok result \<Rightarrow> Some (check_mul (result div multiple) multiple) }"

text \<open>The loop of \<open>math_pow\<close>, entered with the loop counter \<open>i\<close> still \<open>n\<close> steps short of
  \<open>exp\<close>.\<close>

fun math_pow_loop :: "nat \<Rightarrow> u64 \<Rightarrow> u64 \<Rightarrow> u64 res" where
  "math_pow_loop 0 base result = Ok result"
| "math_pow_loop (Suc n) base result =
     (case check_mul result base of
        Fail \<Rightarrow> Fail
      | Ok result' \<Rightarrow> math_pow_loop n base result')"

definition math_pow :: "u64 \<Rightarrow> u64 \<Rightarrow> u64 res" where
  "math_pow base exp = math_pow_loop (unat exp) base base"

section \<open>lib/util.c\<close>

definition index_in_bounds :: "u64 \<Rightarrow> u64 \<Rightarrow> bool" where
  "index_in_bounds index bounds \<longleftrightarrow> index < bounds"

definition ordinal_in_bounds :: "u64 \<Rightarrow> u64 \<Rightarrow> bool" where
  "ordinal_in_bounds ordinal bounds \<longleftrightarrow> ordinal \<noteq> 0 \<and> ordinal \<le> bounds"

section \<open>Checked arithmetic is exact or refused\<close>

lemma check_add_Ok_iff:
  fixes a b :: "'a::len word"
  shows "check_add a b = Ok r \<longleftrightarrow> unat r = unat a + unat b"
proof
  assume "check_add a b = Ok r"
  then show "unat r = unat a + unat b"
    by (auto simp: check_add_def unat_add_no_wrap split: if_splits)
next
  assume r: "unat r = unat a + unat b"
  then have "unat a + unat b < 2 ^ LENGTH('a)"
    by (metis unsigned_less)
  moreover from this r have "r = a + b"
    by (simp add: unat_eq_iff unat_add_no_wrap)
  ultimately show "check_add a b = Ok r"
    by (simp add: check_add_def)
qed

lemma check_add_Fail_iff:
  fixes a b :: "'a::len word"
  shows "check_add a b = Fail \<longleftrightarrow> 2 ^ LENGTH('a) \<le> unat a + unat b"
  by (auto simp: check_add_def)

lemma check_sub_Ok_iff:
  fixes a b :: "'a::len word"
  shows "check_sub a b = Ok r \<longleftrightarrow> unat a = unat r + unat b"
proof
  assume "check_sub a b = Ok r"
  then show "unat a = unat r + unat b"
    by (auto simp: check_sub_def unat_sub_no_wrap word_le_nat_alt split: if_splits)
next
  assume a: "unat a = unat r + unat b"
  then have "unat (a - b) = unat r"
    by (subst unat_sub_no_wrap) (simp_all add: word_le_nat_alt)
  with a show "check_sub a b = Ok r"
    by (simp add: check_sub_def unat_eq_iff)
qed

lemma check_mul_Ok_iff:
  fixes a b :: "'a::len word"
  shows "check_mul a b = Ok r \<longleftrightarrow> unat r = unat a * unat b"
proof
  assume "check_mul a b = Ok r"
  then show "unat r = unat a * unat b"
    by (auto simp: check_mul_def unat_mul_no_wrap split: if_splits)
next
  assume r: "unat r = unat a * unat b"
  then have "unat a * unat b < 2 ^ LENGTH('a)"
    by (metis unsigned_less)
  moreover from this r have "r = a * b"
    by (simp add: unat_eq_iff unat_mul_no_wrap)
  ultimately show "check_mul a b = Ok r"
    by (simp add: check_mul_def)
qed

lemma check_mul_Fail_iff:
  fixes a b :: "'a::len word"
  shows "check_mul a b = Fail \<longleftrightarrow> 2 ^ LENGTH('a) \<le> unat a * unat b"
  by (auto simp: check_mul_def)

lemmas check_iffs = check_add_Ok_iff check_add_Fail_iff check_sub_Ok_iff
  check_mul_Ok_iff check_mul_Fail_iff

section \<open>Alignment\<close>

text \<open>Masking with a power of two is truncation to a multiple of it.\<close>

lemma unat_and_mask: "unat (n AND mask k :: 'a::len word) = unat n mod 2 ^ k"
  by (simp only: take_bit_eq_mask [symmetric] unsigned_take_bit_eq) (simp add: take_bit_eq_mod)

lemma and_not_mask_plus: "(n AND NOT (mask k)) + (n AND mask k) = (n :: 'a::len word)"
proof -
  have "n AND NOT (mask k) = push_bit k (drop_bit k n)"
    by (rule bit_eqI) (auto simp: bit_simps)
  then show ?thesis
    using bits_ident [of k n] by (simp add: take_bit_eq_mask)
qed

lemma unat_and_not_mask:
  "unat (n AND NOT (mask k) :: 'a::len word) = unat n - unat n mod 2 ^ k"
proof -
  have "n AND NOT (mask k) = n - (n AND mask k)"
    using and_not_mask_plus [of n k] by (metis add_diff_cancel)
  moreover have "n AND mask k \<le> n"
    by (simp add: word_le_nat_alt unat_and_mask)
  ultimately show ?thesis
    by (simp add: unat_sub_no_wrap unat_and_mask)
qed

lemma pow2_boundary:
  fixes b :: u64
  assumes "unat b = 2 ^ k"
  shows "b - 1 = mask k" and "b \<noteq> 0" and "k < 64" and "unat (mask k :: u64) = 2 ^ k - 1"
proof -
  show "b \<noteq> 0"
    using assms by auto
  have "(2::nat) ^ k < 2 ^ 64"
    using assms unat_lt_64 [of b] by simp
  then show "k < 64"
    by (rule power_less_imp_less_exp [rotated]) simp
  have "b = 2 ^ k"
    using assms by (metis of_nat_numeral of_nat_power of_nat_unat ucast_id)
  then show mask: "b - 1 = mask k"
    by (simp add: mask_eq_exp_minus_1)
  have "unat (b - 1) = unat b - 1"
    using \<open>b \<noteq> 0\<close> by (simp add: unat_minus_one)
  with mask assms show "unat (mask k :: u64) = 2 ^ k - 1"
    by simp
qed

lemma align_down_pow2:
  assumes "unat b = 2 ^ k"
  shows "\<exists>r. align_down n b = Some r \<and> unat r = unat n - unat n mod 2 ^ k"
  using pow2_boundary [OF assms] by (simp add: align_down_def unat_and_not_mask)

lemma has_align_pow2:
  assumes "unat b = 2 ^ k"
  shows "has_align n b = Some (2 ^ k dvd unat n)"
proof -
  have "(n AND mask k = 0) = (2 ^ k dvd unat n)"
    by (metis dvd_eq_mod_eq_0 unat_and_mask unat_eq_0)
  with pow2_boundary(1,2) [OF assms] show ?thesis
    by (simp add: has_align_def offset_from_boundary_def)
qed

text \<open>The least multiple of \<open>m\<close> that is not below \<open>n\<close>.\<close>

definition next_multiple :: "nat \<Rightarrow> nat \<Rightarrow> nat" where
  "next_multiple n m = (n + (m - 1)) div m * m"

lemma next_multiple_props:
  assumes "0 < m"
  shows "n \<le> next_multiple n m" and "next_multiple n m < n + m" and "m dvd next_multiple n m"
proof -
  have "(n + (m - 1)) div m * m + (n + (m - 1)) mod m = n + (m - 1)"
    by (rule div_mult_mod_eq)
  moreover have "(n + (m - 1)) mod m < m"
    using assms by simp
  ultimately show "n \<le> next_multiple n m" and "next_multiple n m < n + m"
    unfolding next_multiple_def using assms by linarith+
  show "m dvd next_multiple n m"
    by (simp add: next_multiple_def)
qed

lemma next_multiple_least:
  assumes "0 < m" and "m dvd x" and "n \<le> x"
  shows "next_multiple n m \<le> x"
proof (rule ccontr)
  assume "\<not> next_multiple n m \<le> x"
  then have "x < next_multiple n m"
    by simp
  then have "x + m \<le> next_multiple n m"
    by (rule dvd_gap [OF assms(2) next_multiple_props(3) [OF assms(1)]])
  with next_multiple_props(2) [OF assms(1), of n] assms(3) show False
    by linarith
qed

lemma align_up_pow2:
  assumes "unat b = 2 ^ k"
  shows "align_up n b =
           Some (if next_multiple (unat n) (2 ^ k) < 2 ^ 64
                 then Ok (of_nat (next_multiple (unat n) (2 ^ k))) else Fail)"
proof -
  note b = pow2_boundary [OF assms]
  let ?s = "unat n + (2 ^ k - 1)"
  have um: "unat (mask k :: u64) = 2 ^ k - 1"
    by (rule b(4))
  have nm: "next_multiple (unat n) (2 ^ k) = ?s - ?s mod 2 ^ k"
    by (simp add: next_multiple_def minus_mod_eq_div_mult)
  show ?thesis
  proof (cases "?s < 2 ^ 64")
    case True
    then have "check_add n (mask k) = Ok (n + mask k)"
      by (simp add: check_add_def um)
    moreover have "unat ((n + mask k) AND NOT (mask k)) = next_multiple (unat n) (2 ^ k)"
      using True by (simp add: unat_and_not_mask unat_add_no_wrap um nm)
    moreover have "next_multiple (unat n) (2 ^ k) < 2 ^ 64"
      using True nm by simp
    ultimately show ?thesis
      using b(1,2) by (simp add: align_up_def align_down_def)
        (rule unat_eqI, simp add: unat_of_nat_no_wrap)
  next
    case False
    have dvd: "(2::nat) ^ k dvd 2 ^ 64"
      by (rule le_imp_power_dvd) (use b(3) in simp)
    have "2 ^ 64 \<le> next_multiple (unat n) (2 ^ k)"
    proof (rule ccontr)
      assume "\<not> 2 ^ 64 \<le> next_multiple (unat n) (2 ^ k)"
      then have "next_multiple (unat n) (2 ^ k) < 2 ^ 64"
        by simp
      then have "next_multiple (unat n) (2 ^ k) + 2 ^ k \<le> 2 ^ 64"
        by (rule dvd_gap [OF next_multiple_props(3) dvd, rotated]) simp
      moreover have "0 < (2::nat) ^ k"
        by simp
      ultimately show False
        using next_multiple_props(1) [of "2 ^ k" "unat n"] False by linarith
    qed
    moreover have "check_add n (mask k) = Fail"
      using False by (simp add: check_add_def um)
    ultimately show ?thesis
      using b by (simp add: align_up_def)
  qed
qed

section \<open>Powers\<close>

lemma math_pow_loop_Ok:
  "math_pow_loop n base result = Ok r \<Longrightarrow> unat r = unat result * unat base ^ n"
proof (induction n arbitrary: result)
  case 0
  then show ?case by simp
next
  case (Suc n)
  then show ?case
    by (fastforce simp: check_iffs split: res.splits)
qed

lemma math_pow_loop_complete:
  assumes "unat result * unat base ^ n < 2 ^ 64" and "base \<noteq> 0"
  shows "\<exists>r. math_pow_loop n base result = Ok r"
  using assms(1)
proof (induction n arbitrary: result)
  case 0
  then show ?case by simp
next
  case (Suc n)
  have "1 \<le> unat base"
    using assms(2) by (simp add: Suc_le_eq unat_pos_iff)
  then have "1 \<le> unat base ^ n"
    by (rule one_le_power)
  then have "unat result * unat base \<le> unat result * unat base * unat base ^ n"
    using mult_le_mono2 [of 1 "unat base ^ n" "unat result * unat base"] by simp
  also have "\<dots> = unat result * unat base ^ Suc n"
    by (simp add: ac_simps)
  finally have lt: "unat result * unat base < 2 ^ 64"
    using Suc.prems by (rule le_less_trans)
  then have "check_mul result base = Ok (result * base)"
    by (simp add: check_mul_def)
  moreover have "unat (result * base) = unat result * unat base"
    using lt by (simp add: unat_mul_no_wrap)
  then have "unat (result * base) * unat base ^ n < 2 ^ 64"
    using Suc.prems by (simp only: power_Suc mult.assoc)
  ultimately show ?case
    using Suc.IH [of "result * base"] by simp
qed

section \<open>Properties\<close>

text \<open>C18: for a boundary that is a power of two, \<open>align_up\<close> never panics; it succeeds with the least
  multiple of the boundary that is not below the number whenever that multiple fits into 64
  bits, and fails otherwise.\<close>

theorem align_up_least:
  assumes "unat b = 2 ^ k"
  shows "\<exists>res. align_up n b = Some res \<and>
    (case res of
       Ok r \<Rightarrow> 2 ^ k dvd unat r \<and> unat n \<le> unat r \<and> (\<forall>x. 2 ^ k dvd x \<longrightarrow> unat n \<le> x \<longrightarrow> unat r \<le> x)
     | Fail \<Rightarrow> (\<forall>x. 2 ^ k dvd x \<longrightarrow> unat n \<le> x \<longrightarrow> 2 ^ 64 \<le> x))"
proof -
  let ?m = "next_multiple (unat n) (2 ^ k)"
  have m: "unat n \<le> ?m" "2 ^ k dvd ?m" "\<And>x. 2 ^ k dvd x \<Longrightarrow> unat n \<le> x \<Longrightarrow> ?m \<le> x"
    by (simp_all add: next_multiple_props next_multiple_least)
  show ?thesis
  proof (cases "?m < 2 ^ 64")
    case True
    then have "unat (of_nat ?m :: u64) = ?m"
      by (simp add: unat_of_nat_no_wrap)
    with True m show ?thesis
      unfolding align_up_pow2 [OF assms] by simp
  next
    case False
    then have "2 ^ 64 \<le> ?m"
      by (simp only: not_less)
    then have "2 ^ 64 \<le> x" if "2 ^ k dvd x" and "unat n \<le> x" for x
      using m(3) [OF that] by (rule order_trans)
    with False show ?thesis
      unfolding align_up_pow2 [OF assms] by simp
  qed
qed

theorem align_up_least_witness:
  "\<exists>res. align_up 4097 4096 = Some res \<and>
    (case res of
       Ok r \<Rightarrow> 2 ^ 12 dvd unat r \<and> unat (4097 :: u64) \<le> unat r
         \<and> (\<forall>x. 2 ^ 12 dvd x \<longrightarrow> unat (4097 :: u64) \<le> x \<longrightarrow> unat r \<le> x)
     | Fail \<Rightarrow> (\<forall>x. 2 ^ 12 dvd x \<longrightarrow> unat (4097 :: u64) \<le> x \<longrightarrow> 2 ^ 64 \<le> x))"
  by (rule align_up_least) simp

text \<open>C19: \<open>math_pow base exp\<close> multiplies once too often: for a nonzero base it succeeds exactly when
  \<open>base ^ (exp + 1)\<close> fits into 64 bits, and the result is then \<open>base ^ (exp + 1)\<close>.\<close>

theorem math_pow_exact:
  assumes "base \<noteq> 0"
  shows "math_pow base exp =
    (if unat base ^ (unat exp + 1) < 2 ^ 64 then Ok (of_nat (unat base ^ (unat exp + 1))) else Fail)"
proof (cases "math_pow base exp")
  case Fail
  then show ?thesis
    using math_pow_loop_complete [of base base "unat exp"] assms by (auto simp: math_pow_def)
next
  case (Ok r)
  then have "unat r = unat base ^ (unat exp + 1)"
    using math_pow_loop_Ok [of "unat exp" base base r] by (simp add: math_pow_def)
  moreover from this have "unat base ^ (unat exp + 1) < 2 ^ 64"
    using unat_lt_64 [of r] by simp
  moreover have "r = of_nat (unat r)"
    by simp
  ultimately show ?thesis
    using Ok by simp
qed

theorem math_pow_exact_witness: "math_pow 10 2 = Ok 1000"
  using math_pow_exact [of 10 2] by simp

end
