(* ===== verification/Timespecs.thy ===== *)
theory Timespecs
  imports Arith
begin

text \<open>
  The first half of \<open>lib/time.h\<close>: the constants and conversion macros between units of time, for
  64-bit operands (the types \<open>fsec_t\<close> to \<open>sec_t\<close>), and \<open>struct timespec\<close> with its operations.  The
  macros \<open>hours_to_days\<close> and \<open>hours_mod_days\<close> mention a variable that is not their parameter and
  \<open>milli_period_to_hz_freq\<close> an undefined constant; they have no counterpart.
\<close>

section \<open>Units of time\<close>

definition FEMTO_IN_PICO :: u64 where "FEMTO_IN_PICO = 1000"
definition PICO_IN_NANO :: u64 where "PICO_IN_NANO = 1000"
definition NANO_IN_MICRO :: u64 where "NANO_IN_MICRO = 1000"
definition MICRO_IN_MILLI :: u64 where "MICRO_IN_MILLI = 1000"
definition MILLI_IN_SECOND :: u64 where "MILLI_IN_SECOND = 1000"

definition SECONDS_IN_MINUTE :: u64 where "SECONDS_IN_MINUTE = 60"
definition MINUTES_IN_HOUR :: u64 where "MINUTES_IN_HOUR = 60"
definition HOURS_IN_DAY :: u64 where "HOURS_IN_DAY = 24"

definition FEMTO_IN_NANO :: u64 where "FEMTO_IN_NANO = FEMTO_IN_PICO * PICO_IN_NANO"
definition PICO_IN_MICRO :: u64 where "PICO_IN_MICRO = PICO_IN_NANO * NANO_IN_MICRO"
definition NANO_IN_MILLI :: u64 where "NANO_IN_MILLI = NANO_IN_MICRO * MICRO_IN_MILLI"
definition MICRO_IN_SECONDS :: u64 where "MICRO_IN_SECONDS = MICRO_IN_MILLI * MILLI_IN_SECOND"
definition MILLI_IN_MINUTES :: u64 where "MILLI_IN_MINUTES = MILLI_IN_SECOND * SECONDS_IN_MINUTE"
definition SECONDS_IN_HOURS :: u64 where "SECONDS_IN_HOURS = SECONDS_IN_MINUTE * MINUTES_IN_HOUR"
definition MINUTES_IN_DAYS :: u64 where "MINUTES_IN_DAYS = MINUTES_IN_HOUR * HOURS_IN_DAY"

definition FEMTO_IN_MICRO :: u64 where "FEMTO_IN_MICRO = FEMTO_IN_NANO * NANO_IN_MICRO"
definition PICO_IN_MILLI :: u64 where "PICO_IN_MILLI = PICO_IN_MICRO * MICRO_IN_MILLI"
definition NANO_IN_SECONDS :: u64 where "NANO_IN_SECONDS = NANO_IN_MILLI * MILLI_IN_SECOND"
definition MICRO_IN_MINUTES :: u64 where "MICRO_IN_MINUTES = MICRO_IN_SECONDS * SECONDS_IN_MINUTE"
definition MILLI_IN_HOURS :: u64 where "MILLI_IN_HOURS = MILLI_IN_MINUTES * MINUTES_IN_HOUR"
definition SECONDS_IN_DAYS :: u64 where "SECONDS_IN_DAYS = SECONDS_IN_HOURS * HOURS_IN_DAY"

definition FEMTO_IN_MILLI :: u64 where "FEMTO_IN_MILLI = FEMTO_IN_MICRO * MICRO_IN_MILLI"
definition PICO_IN_SECONDS :: u64 where "PICO_IN_SECONDS = PICO_IN_MILLI * MILLI_IN_SECOND"
definition NANO_IN_MINUTES :: u64 where "NANO_IN_MINUTES = NANO_IN_SECONDS * SECONDS_IN_MINUTE"
definition MICRO_IN_HOURS :: u64 where "MICRO_IN_HOURS = MICRO_IN_MINUTES * MINUTES_IN_HOUR"
definition MILLI_IN_DAYS :: u64 where "MILLI_IN_DAYS = MILLI_IN_HOURS * HOURS_IN_DAY"

definition FEMTO_IN_SECONDS :: u64 where "FEMTO_IN_SECONDS = FEMTO_IN_MILLI * MILLI_IN_SECOND"
definition PICO_IN_MINUTES :: u64 where "PICO_IN_MINUTES = PICO_IN_SECONDS * SECONDS_IN_MINUTE"
definition NANO_IN_HOURS :: u64 where "NANO_IN_HOURS = NANO_IN_MINUTES * MINUTES_IN_HOUR"
definition MICRO_IN_DAYS :: u64 where "MICRO_IN_DAYS = MICRO_IN_HOURS * HOURS_IN_DAY"

definition FEMTO_IN_MINUTES :: u64 where "FEMTO_IN_MINUTES = FEMTO_IN_SECONDS * SECONDS_IN_MINUTE"
definition PICO_IN_HOURS :: u64 where "PICO_IN_HOURS = PICO_IN_MINUTES * MINUTES_IN_HOUR"
definition NANO_IN_DAYS :: u64 where "NANO_IN_DAYS = NANO_IN_HOURS * HOURS_IN_DAY"

definition FEMTO_IN_HOURS :: u64 where "FEMTO_IN_HOURS = FEMTO_IN_MINUTES * MINUTES_IN_HOUR"
definition PICO_IN_DAYS :: u64 where "PICO_IN_DAYS = PICO_IN_HOURS * HOURS_IN_DAY"

definition FEMTO_IN_DAYS :: u64 where "FEMTO_IN_DAYS = FEMTO_IN_HOURS * HOURS_IN_DAY"




definition nano_to_seconds :: "u64 \<Rightarrow> u64" where "nano_to_seconds nano = nano div NANO_IN_SECONDS"



















definition nano_mod_seconds :: "u64 \<Rightarrow> u64" where "nano_mod_seconds nano = nano mod NANO_IN_SECONDS"





section \<open>struct timespec\<close>

record timespec =
  tv_sec :: u64
  tv_nsec :: u64

definition TIMESPEC_NULL :: timespec where
  "TIMESPEC_NULL = \<lparr>tv_sec = 0, tv_nsec = 0\<rparr>"

definition timespec_add :: "timespec \<Rightarrow> timespec \<Rightarrow> timespec res" where
  "timespec_add l r =
     (let result = TIMESPEC_NULL;
          step1 =
            (if nano_to_seconds (tv_nsec l + tv_nsec r) \<noteq> 0
             then case check_add (tv_sec l) 1 of
                 Fail \<Rightarrow> Fail
               | Ok s \<Rightarrow> Ok (result \<lparr>tv_nsec := nano_mod_seconds (tv_nsec l + tv_nsec r), tv_sec := s\<rparr>)
             else case check_add (tv_nsec l) (tv_nsec r) of
                 Fail \<Rightarrow> Fail
               | Ok n \<Rightarrow> Ok (result \<lparr>tv_nsec := n\<rparr>))
      in case step1 of
           Fail \<Rightarrow> Fail
         | Ok result \<Rightarrow>
             (case check_add (tv_sec l) (tv_sec r) of
                Fail \<Rightarrow> Fail
              | Ok s \<Rightarrow> Ok (result \<lparr>tv_sec := s\<rparr>)))"

definition timespec_sub :: "timespec \<Rightarrow> timespec \<Rightarrow> timespec res" where
  "timespec_sub l r =
     (if tv_sec l < tv_sec r then Fail
      else let result = TIMESPEC_NULL \<lparr>tv_sec := tv_sec l - tv_sec r\<rparr>
           in if tv_nsec l < tv_nsec r
              then if tv_sec result = 0 then Fail
                   else Ok (result \<lparr>tv_nsec := (NANO_IN_SECONDS - 1) - (tv_nsec r - tv_nsec l),
                                    tv_sec := tv_sec result - 1\<rparr>)
              else Ok (result \<lparr>tv_nsec := tv_nsec l - tv_nsec r\<rparr>))"

definition timespec_compare :: "timespec \<Rightarrow> timespec \<Rightarrow> int" where
  "timespec_compare l r =
     (if tv_sec r < tv_sec l then 1
      else if tv_sec l < tv_sec r then - 1
      else if tv_nsec r < tv_nsec l then 1
      else if tv_nsec l < tv_nsec r then - 1
      else 0)"

section \<open>Conversions\<close>

lemmas unit_constants =
    FEMTO_IN_PICO_def PICO_IN_NANO_def NANO_IN_MICRO_def MICRO_IN_MILLI_def MILLI_IN_SECOND_def
    SECONDS_IN_MINUTE_def MINUTES_IN_HOUR_def HOURS_IN_DAY_def FEMTO_IN_NANO_def
    PICO_IN_MICRO_def NANO_IN_MILLI_def MICRO_IN_SECONDS_def MILLI_IN_MINUTES_def
    SECONDS_IN_HOURS_def MINUTES_IN_DAYS_def FEMTO_IN_MICRO_def PICO_IN_MILLI_def
    NANO_IN_SECONDS_def MICRO_IN_MINUTES_def MILLI_IN_HOURS_def SECONDS_IN_DAYS_def
    FEMTO_IN_MILLI_def PICO_IN_SECONDS_def NANO_IN_MINUTES_def MICRO_IN_HOURS_def
    MILLI_IN_DAYS_def FEMTO_IN_SECONDS_def PICO_IN_MINUTES_def NANO_IN_HOURS_def
    MICRO_IN_DAYS_def FEMTO_IN_MINUTES_def PICO_IN_HOURS_def NANO_IN_DAYS_def FEMTO_IN_HOURS_def
    PICO_IN_DAYS_def FEMTO_IN_DAYS_def






















section \<open>Timespecs\<close>

text \<open>The number of nanoseconds that a timespec stands for, and the normal form.\<close>

definition nanos :: "timespec \<Rightarrow> nat" where
  "nanos t = unat (tv_sec t) * 1000000000 + unat (tv_nsec t)"

definition normal :: "timespec \<Rightarrow> bool" where
  "normal t \<longleftrightarrow> unat (tv_nsec t) < 1000000000"

lemma NANO_IN_SECONDS_eq: "NANO_IN_SECONDS = 1000000000"
  by (simp add: unit_constants)

lemma timespec_compare_nanos:
  assumes "normal l" and "normal r"
  shows "timespec_compare l r
    = (if nanos l < nanos r then - 1 else if nanos l = nanos r then 0 else 1)"
proof -
  consider "unat (tv_sec l) < unat (tv_sec r)" | "unat (tv_sec r) < unat (tv_sec l)"
    | "unat (tv_sec l) = unat (tv_sec r)"
    by linarith
  then show ?thesis
    using assms
    by cases (auto simp: timespec_compare_def nanos_def normal_def word_less_nat_alt)
qed

lemma timespec_add_nanos:
  assumes "normal l" and "normal r"
  shows "case timespec_add l r of
      Fail \<Rightarrow> 2 ^ 64 * 1000000000 \<le> nanos l + nanos r
    | Ok t \<Rightarrow> normal t \<and> nanos t + (if 1000000000 \<le> unat (tv_nsec l) + unat (tv_nsec r)
        then 1000000000 else 0) = nanos l + nanos r"
proof -
  let ?n = "unat (tv_nsec l) + unat (tv_nsec r)"
  have n: "unat (tv_nsec l + tv_nsec r) = ?n"
    using assms by (intro unat_add_no_wrap) (simp add: normal_def)
  then have carry: "nano_to_seconds (tv_nsec l + tv_nsec r) \<noteq> 0 \<longleftrightarrow> 1000000000 \<le> ?n"
    by (simp add: nano_to_seconds_def NANO_IN_SECONDS_eq unat_eq_iff unat_div_distrib div_eq_0_iff not_less)
  have rest: "unat (nano_mod_seconds (tv_nsec l + tv_nsec r)) = ?n mod 1000000000"
    using n by (simp add: nano_mod_seconds_def NANO_IN_SECONDS_eq unat_mod_distrib)
  have "?n mod 1000000000 = ?n - 1000000000" if "1000000000 \<le> ?n"
    using that assms by (simp add: normal_def mod_if)
  moreover have "unat (tv_sec l + tv_sec r) = unat (tv_sec l) + unat (tv_sec r)"
    if "unat (tv_sec l) + unat (tv_sec r) < 18446744073709551616"
    using that by (intro unat_add_no_wrap) simp
  ultimately show ?thesis
    using assms carry rest n
    by (auto simp: timespec_add_def nanos_def normal_def TIMESPEC_NULL_def check_add_def
        split: res.splits if_splits)
qed

lemma timespec_sub_nanos:
  assumes "normal l" and "normal r"
  shows "case timespec_sub l r of
      Fail \<Rightarrow> nanos l < nanos r
    | Ok t \<Rightarrow> normal t \<and> nanos t + nanos r + (if tv_nsec l < tv_nsec r then 1 else 0) = nanos l"
proof (cases "tv_sec l < tv_sec r")
  case True
  then show ?thesis
    using assms by (simp add: timespec_sub_def nanos_def normal_def word_less_nat_alt)
next
  case False
  then have sec: "unat (tv_sec l - tv_sec r) = unat (tv_sec l) - unat (tv_sec r)"
      "unat (tv_sec r) \<le> unat (tv_sec l)"
    by (simp_all add: unat_sub word_less_nat_alt word_le_nat_alt not_less)
  show ?thesis
  proof (cases "tv_nsec l < tv_nsec r")
    case True
    let ?d = "unat (tv_nsec r) - unat (tv_nsec l)"
    have d: "unat (tv_nsec r - tv_nsec l) = ?d" "?d < 1000000000"
      using True assms by (simp_all add: unat_sub word_less_nat_alt word_le_nat_alt normal_def)
    then have n: "unat ((NANO_IN_SECONDS - 1) - (tv_nsec r - tv_nsec l)) = 999999999 - ?d"
      by (subst unat_sub) (simp_all add: NANO_IN_SECONDS_eq word_le_nat_alt)
    have s: "unat (tv_sec l - tv_sec r - 1) = unat (tv_sec l) - unat (tv_sec r) - 1"
      if "tv_sec l - tv_sec r \<noteq> 0"
      using that sec by (subst unat_sub) (simp_all add: word_le_nat_alt unat_eq_iff)
    show ?thesis
    proof (cases "tv_sec l - tv_sec r = 0")
      case zero: True
      then show ?thesis
        using True assms sec \<open>\<not> tv_sec l < tv_sec r\<close>
        by (simp add: timespec_sub_def TIMESPEC_NULL_def nanos_def word_less_nat_alt)
    next
      case nz: False
      then have "0 < unat (tv_sec l) - unat (tv_sec r)"
        using sec by (metis gr0I unat_eq_0)
      then show ?thesis
        using True assms sec s n d nz \<open>\<not> tv_sec l < tv_sec r\<close>
        by (simp add: timespec_sub_def TIMESPEC_NULL_def nanos_def normal_def word_less_nat_alt
            diff_mult_distrib)
    qed
  next
    case nsec: False
    then have "unat (tv_nsec l - tv_nsec r) = unat (tv_nsec l) - unat (tv_nsec r)"
      by (simp add: unat_sub word_le_nat_alt word_less_nat_alt not_less)
    then show ?thesis
      using nsec assms sec \<open>\<not> tv_sec l < tv_sec r\<close>
      by (simp add: timespec_sub_def TIMESPEC_NULL_def nanos_def normal_def word_less_nat_alt
          diff_mult_distrib)
  qed
qed

text \<open>C29: for timespecs in normal form, comparing decides the order of the nanoseconds they stand
  for, and sums and differences are again in normal form; a sum or a difference is refused only when
  it cannot be represented.  The sum is exact unless the nanoseconds carry, when it is a second
  short, and the difference is exact unless they borrow, when it is a nanosecond short.\<close>

theorem timespec_arithmetic:
  assumes "normal l" and "normal r"
  shows "timespec_compare l r
      = (if nanos l < nanos r then - 1 else if nanos l = nanos r then 0 else 1)
    \<and> (case timespec_add l r of
         Fail \<Rightarrow> 2 ^ 64 * 1000000000 \<le> nanos l + nanos r
       | Ok t \<Rightarrow> normal t \<and> nanos t + (if 1000000000 \<le> unat (tv_nsec l) + unat (tv_nsec r)
           then 1000000000 else 0) = nanos l + nanos r)
    \<and> (case timespec_sub l r of
         Fail \<Rightarrow> nanos l < nanos r
       | Ok t \<Rightarrow> normal t \<and> nanos t + nanos r + (if tv_nsec l < tv_nsec r then 1 else 0) = nanos l)"
  using assms by (intro conjI timespec_compare_nanos timespec_add_nanos timespec_sub_nanos)

theorem timespec_arithmetic_witness:
  "(case timespec_add \<lparr>tv_sec = 5, tv_nsec = 999999999\<rparr> \<lparr>tv_sec = 2, tv_nsec = 7\<rparr> of
      Fail \<Rightarrow> False | Ok t \<Rightarrow> nanos t = 7000000006)
   \<and> (case timespec_sub \<lparr>tv_sec = 5, tv_nsec = 3\<rparr> \<lparr>tv_sec = 2, tv_nsec = 7\<rparr> of
      Fail \<Rightarrow> False | Ok t \<Rightarrow> nanos t = 2999999995)"
proof -
  have sum: "normal \<lparr>tv_sec = 5, tv_nsec = 999999999\<rparr>" "normal \<lparr>tv_sec = 2, tv_nsec = 7\<rparr>"
      "normal \<lparr>tv_sec = 5, tv_nsec = 3\<rparr>"
    by (simp_all add: normal_def)
  show ?thesis
    using timespec_arithmetic [OF sum(1,2)] timespec_arithmetic [OF sum(3,2)]
    by (auto simp: nanos_def split: res.splits)
qed

end
