(* ===== verification/Calendar.thy ===== *)
theory Calendar
  imports Arith
begin

text \<open>
  \<open>lib/time.c\<close> and the calendar part of \<open>lib/time.h\<close>.  The code computes with enumerators
  (\<open>month++\<close>, \<open>weekday - 1\<close>), so \<open>enum weekday\<close> and \<open>enum month\<close> are integers with named values,
  as in C; the fields of \<open>struct tm\<close> are integers as well.  Years and timestamps are 64-bit words,
  and the few expressions that mix integer widths keep them.  \<open>verify_not_reached\<close> and failed
  assertions are \<open>None\<close>.  A string view of a name is its string.
\<close>

section \<open>Definitions\<close>

type_synonym weekday = int
type_synonym month = int

abbreviation WEEKDAY_INVALID :: weekday where "WEEKDAY_INVALID \<equiv> - 1"
abbreviation WEEKDAY_SUNDAY :: weekday where "WEEKDAY_SUNDAY \<equiv> 0"
abbreviation WEEKDAY_MONDAY :: weekday where "WEEKDAY_MONDAY \<equiv> 1"
abbreviation WEEKDAY_TUESDAY :: weekday where "WEEKDAY_TUESDAY \<equiv> 2"
abbreviation WEEKDAY_WEDNESDAY :: weekday where "WEEKDAY_WEDNESDAY \<equiv> 3"
abbreviation WEEKDAY_THURSDAY :: weekday where "WEEKDAY_THURSDAY \<equiv> 4"
abbreviation WEEKDAY_FRIDAY :: weekday where "WEEKDAY_FRIDAY \<equiv> 5"
abbreviation WEEKDAY_SATURDAY :: weekday where "WEEKDAY_SATURDAY \<equiv> 6"
abbreviation WEEKDAY_COUNT :: int where "WEEKDAY_COUNT \<equiv> 7"

abbreviation MONTH_INVALID :: month where "MONTH_INVALID \<equiv> 0"
abbreviation MONTH_JANUARY :: month where "MONTH_JANUARY \<equiv> 1"
abbreviation MONTH_FEBRUARY :: month where "MONTH_FEBRUARY \<equiv> 2"
abbreviation MONTH_MARCH :: month where "MONTH_MARCH \<equiv> 3"
abbreviation MONTH_APRIL :: month where "MONTH_APRIL \<equiv> 4"
abbreviation MONTH_MAY :: month where "MONTH_MAY \<equiv> 5"
abbreviation MONTH_JUNE :: month where "MONTH_JUNE \<equiv> 6"
abbreviation MONTH_JULY :: month where "MONTH_JULY \<equiv> 7"
abbreviation MONTH_AUGUST :: month where "MONTH_AUGUST \<equiv> 8"
abbreviation MONTH_SEPTEMBER :: month where "MONTH_SEPTEMBER \<equiv> 9"
abbreviation MONTH_OCTOBER :: month where "MONTH_OCTOBER \<equiv> 10"
abbreviation MONTH_NOVEMBER :: month where "MONTH_NOVEMBER \<equiv> 11"
abbreviation MONTH_DECEMBER :: month where "MONTH_DECEMBER \<equiv> 12"

record tm =
  tm_sec :: int
  tm_min :: int
  tm_hour :: int
  tm_mday :: int
  tm_mon :: int
  tm_year :: int
  tm_wday :: int
  tm_yday :: int
  tm_isdst :: int

definition weekday_valid :: "weekday \<Rightarrow> bool" where
  "weekday_valid day \<longleftrightarrow> WEEKDAY_SUNDAY \<le> day \<and> day \<le> WEEKDAY_SATURDAY"

definition month_valid :: "month \<Rightarrow> bool" where
  "month_valid m \<longleftrightarrow> MONTH_JANUARY \<le> m \<and> m \<le> MONTH_DECEMBER"

definition hour12_to_24hour :: "u8 \<Rightarrow> bool \<Rightarrow> u8" where
  "hour12_to_24hour hour is_pm = (if is_pm then (hour mod 12) + 12 else hour mod 12)"

definition hour24_to_12hour :: "u8 \<Rightarrow> u8" where
  "hour24_to_12hour hour = (let result = hour mod 12 in if result \<noteq> 0 then result else 12)"

definition hour24_is_pm :: "u8 \<Rightarrow> bool" where
  "hour24_is_pm hour \<longleftrightarrow> 12 \<le> hour"

definition weekday_to_decimal_monday_one :: "weekday \<Rightarrow> u8" where
  "weekday_to_decimal_monday_one w = (if w \<noteq> WEEKDAY_SUNDAY then of_int w else of_int WEEKDAY_COUNT)"

definition month_get_day_count :: "month \<Rightarrow> bool \<Rightarrow> int option" where
  "month_get_day_count m in_leap_year =
     (if m = 2 then Some (if in_leap_year then 29 else 28)
      else if m \<in> {1, 3, 5, 7, 8, 10, 12} then Some 31
      else if m \<in> {4, 6, 9, 11} then Some 30
      else None)"

text \<open>\<open>days_since_jan_1 - (unsigned)weekday\<close> is an \<open>unsigned int\<close>; the sum and the quotient are
  \<open>uint64_t\<close>, and the result is truncated to \<open>uint8_t\<close>.\<close>

definition get_week_count_at_day :: "weekday \<Rightarrow> u16 \<Rightarrow> bool \<Rightarrow> u8" where
  "get_week_count_at_day w days_since_jan_1 is_monday_first =
     (let delta :: u64 = (if is_monday_first then (if w \<noteq> WEEKDAY_SUNDAY then 8 else 1) else 7);
          diff :: u32 = ucast days_since_jan_1 - of_int w
      in ucast ((ucast diff + delta) div 7))"

definition month_to_tm_mon :: "month \<Rightarrow> int option" where
  "month_to_tm_mon m = do { assert_that (m \<noteq> MONTH_INVALID); Some (m - 1) }"

definition tm_mon_to_month :: "int \<Rightarrow> month" where
  "tm_mon_to_month m = m + 1"

definition year_is_leap_year :: "u64 \<Rightarrow> bool" where
  "year_is_leap_year year \<longleftrightarrow> and year 3 = 0 \<and> (year mod 100 \<noteq> 0 \<or> year mod 400 = 0)"

definition year_get_day_count :: "u64 \<Rightarrow> int" where
  "year_get_day_count year = 365 + (if year_is_leap_year year then 1 else 0)"

definition year_to_tm_year :: "u64 \<Rightarrow> int option" where
  "year_to_tm_year year = do { assert_that (year \<le> 2147483647); Some (uint year - 1900) }"

definition tm_year_to_year :: "int \<Rightarrow> u64 option" where
  "tm_year_to_year y = check_add_assert (of_int y) 1900"

text \<open>The string literal has a terminator; the code reads outside it for other months.\<close>

definition day_of_month_to_weekday :: "u64 \<Rightarrow> month \<Rightarrow> u8 \<Rightarrow> weekday option" where
  "day_of_month_to_weekday year m day =
     (let year = (if m < MONTH_MARCH then year - 1 else year);
          letters = ''bed=pen+mad.'' @ [CHR 0x00]
      in do { assert_that (1 \<le> m \<and> m \<le> 13);
              let letter = of_char (letters ! nat (m - 1));
              Some (uint ((year + year div 4 - year div 100 + year div 400 + letter + ucast day) mod 7)) })"

text \<open>The loops of \<open>tm_from_stamp\<close>.  Both end: the number of days that are left shrinks, and the
  second one panics at the latest after December.\<close>

partial_function (option) years_loop :: "int \<Rightarrow> u64 \<Rightarrow> (int \<times> u64) option" where
  "years_loop day_of_year year =
     (if 365 \<le> day_of_year then years_loop (day_of_year - year_get_day_count year) (year + 1)
      else Some (day_of_year, year))"

partial_function (option) months_loop :: "bool \<Rightarrow> int \<Rightarrow> month \<Rightarrow> (int \<times> month) option" where
  "months_loop is_leap_year day_of_month m =
     do { n \<leftarrow> month_get_day_count m is_leap_year;
          if n \<le> day_of_month then months_loop is_leap_year (day_of_month - n) (m + 1)
          else Some (day_of_month, m) }"

definition tm_from_stamp :: "u64 \<Rightarrow> tm option" where
  "tm_from_stamp timestamp =
     do { let seconds_of_day = sint (ucast (timestamp mod 86400) :: u32);
          let minutes_of_day = seconds_of_day div 60;
          let hour_of_day = minutes_of_day div 60;
          let seconds_of_minute = seconds_of_day mod 60;
          let minutes_of_hour = minutes_of_day mod 60;
          (day_of_year, year) \<leftarrow> years_loop (sint (ucast (timestamp div 86400) :: u32)) 1970;
          let is_leap_year = year_is_leap_year year;
          (day_of_month, m) \<leftarrow> months_loop is_leap_year day_of_year MONTH_JANUARY;
          mon \<leftarrow> month_to_tm_mon m;
          y \<leftarrow> year_to_tm_year year;
          wday \<leftarrow> day_of_month_to_weekday year m (of_int (day_of_month + 1));
          Some \<lparr>tm_sec = seconds_of_minute, tm_min = minutes_of_hour, tm_hour = hour_of_day,
                tm_mday = day_of_month + 1, tm_mon = mon, tm_year = y,
                tm_wday = wday, tm_yday = day_of_year, tm_isdst = 0\<rparr> }"

definition weekday_prev :: "weekday \<Rightarrow> weekday" where
  "weekday_prev w = (if w \<noteq> WEEKDAY_SUNDAY then w - 1 else WEEKDAY_SATURDAY)"

definition weekday_next :: "weekday \<Rightarrow> weekday" where
  "weekday_next w = (w + 1) mod WEEKDAY_COUNT"

definition days_preceding_table :: "int list" where
  "days_preceding_table = [0, 31, 59, 90, 120, 151, 181, 212, 243, 273, 304, 334]"

definition day_of_month_to_day_of_year :: "u8 \<Rightarrow> month \<Rightarrow> bool \<Rightarrow> int option" where
  "day_of_month_to_day_of_year day_in_month m in_leap_year =
     do { assert_that (month_valid m);
          let days_preceding_month = days_preceding_table ! nat (m - 1);
          let days_preceding_month =
            (if in_leap_year \<and> MONTH_FEBRUARY < m then days_preceding_month + 1
             else days_preceding_month);
          Some (days_preceding_month + uint day_in_month) }"

partial_function (option) iso_8601_get_week_number ::
    "weekday \<Rightarrow> month \<Rightarrow> u64 \<Rightarrow> u8 \<Rightarrow> u16 \<Rightarrow> u8 option" where
  "iso_8601_get_week_number w m year day_in_month days_since_jan_1 =
     do { assert_that (weekday_valid w);
          assert_that (month_valid m);
          let jan_1_weekday = w - uint days_since_jan_1 mod WEEKDAY_COUNT;
          let jan_1_weekday = (if jan_1_weekday < 0 then jan_1_weekday + WEEKDAY_COUNT
                               else jan_1_weekday);
          let week_number = get_week_count_at_day w days_since_jan_1 True;
          week_number \<leftarrow>
            (if jan_1_weekday = WEEKDAY_MONDAY then Some week_number
             else if jan_1_weekday \<in> {WEEKDAY_TUESDAY, WEEKDAY_WEDNESDAY, WEEKDAY_THURSDAY}
             then Some (week_number + 1)
             else if jan_1_weekday \<in> {WEEKDAY_FRIDAY, WEEKDAY_SATURDAY, WEEKDAY_SUNDAY}
             then (if week_number \<noteq> 0 then Some week_number
                   else iso_8601_get_week_number (weekday_prev w) MONTH_DECEMBER (year - 1) 31
                          (of_int (year_get_day_count (year - 1) - 1)))
             else None);
          if m = MONTH_DECEMBER
          then if w = WEEKDAY_MONDAY
               then Some (if 29 \<le> day_in_month \<and> day_in_month \<le> 31 then 1 else week_number)
               else if w = WEEKDAY_TUESDAY
               then Some (if 30 \<le> day_in_month \<and> day_in_month \<le> 31 then 1 else week_number)
               else if w = WEEKDAY_WEDNESDAY
               then Some (if day_in_month = 31 then 1 else week_number)
               else Some week_number
          else Some week_number }"

declare years_loop.simps [code] months_loop.simps [code] iso_8601_get_week_number.simps [code]

section \<open>Names\<close>

text \<open>A switch over the weekdays or months that returns the name, and a chain of comparisons that finds
  the enumerator of a name, in the order of the code.\<close>

definition switch :: "(int \<times> string) list \<Rightarrow> int \<Rightarrow> string option" where
  "switch cases day = map_of cases day"

fun return_if_equal :: "(string \<times> int) list \<Rightarrow> int \<Rightarrow> string \<Rightarrow> int" where
  "return_if_equal [] invalid sv = invalid"
| "return_if_equal ((name, n) # names) invalid sv =
     (if sv = name then n else return_if_equal names invalid sv)"

definition weekday_to_sv :: "weekday \<Rightarrow> string option" where
  "weekday_to_sv = switch
       [(WEEKDAY_SUNDAY, ''Sunday''), (WEEKDAY_MONDAY, ''Monday''), (WEEKDAY_TUESDAY, ''Tuesday''),
        (WEEKDAY_WEDNESDAY, ''Wednesday''), (WEEKDAY_THURSDAY, ''Thursday''),
        (WEEKDAY_FRIDAY, ''Friday''), (WEEKDAY_SATURDAY, ''Saturday'')]"

definition weekday_to_sv_upper :: "weekday \<Rightarrow> string option" where
  "weekday_to_sv_upper = switch
       [(WEEKDAY_SUNDAY, ''SUNDAY''), (WEEKDAY_MONDAY, ''MONDAY''), (WEEKDAY_TUESDAY, ''TUESDAY''),
        (WEEKDAY_WEDNESDAY, ''WEDNESDAY''), (WEEKDAY_THURSDAY, ''THURSDAY''),
        (WEEKDAY_FRIDAY, ''FRIDAY''), (WEEKDAY_SATURDAY, ''SATURDAY'')]"

definition month_to_sv :: "month \<Rightarrow> string option" where
  "month_to_sv = switch
       [(MONTH_JANUARY, ''January''), (MONTH_FEBRUARY, ''February''), (MONTH_MARCH, ''March''),
        (MONTH_APRIL, ''April''), (MONTH_MAY, ''May''), (MONTH_JUNE, ''June''),
        (MONTH_JULY, ''July''), (MONTH_AUGUST, ''August''), (MONTH_SEPTEMBER, ''September''),
        (MONTH_OCTOBER, ''October''), (MONTH_NOVEMBER, ''November''), (MONTH_DECEMBER, ''December'')]"

definition month_to_sv_upper :: "month \<Rightarrow> string option" where
  "month_to_sv_upper = switch
       [(MONTH_JANUARY, ''JANUARY''), (MONTH_FEBRUARY, ''FEBRUARY''), (MONTH_MARCH, ''MARCH''),
        (MONTH_APRIL, ''APRIL''), (MONTH_MAY, ''MAY''), (MONTH_JUNE, ''JUNE''),
        (MONTH_JULY, ''JULY''), (MONTH_AUGUST, ''AUGUST''), (MONTH_SEPTEMBER, ''SEPTEMBER''),
        (MONTH_OCTOBER, ''OCTOBER''), (MONTH_NOVEMBER, ''NOVEMBER''), (MONTH_DECEMBER, ''DECEMBER'')]"

definition weekday_to_sv_abbrev :: "weekday \<Rightarrow> string option" where
  "weekday_to_sv_abbrev = switch
       [(WEEKDAY_SUNDAY, ''Sun''), (WEEKDAY_MONDAY, ''Mon''), (WEEKDAY_TUESDAY, ''Tue''),
        (WEEKDAY_WEDNESDAY, ''Wed''), (WEEKDAY_THURSDAY, ''Thu''), (WEEKDAY_FRIDAY, ''Fri''),
        (WEEKDAY_SATURDAY, ''Sat'')]"

definition weekday_to_sv_abbrev_upper :: "weekday \<Rightarrow> string option" where
  "weekday_to_sv_abbrev_upper = switch
       [(WEEKDAY_SUNDAY, ''SUN''), (WEEKDAY_MONDAY, ''MON''), (WEEKDAY_TUESDAY, ''TUE''),
        (WEEKDAY_WEDNESDAY, ''WED''), (WEEKDAY_THURSDAY, ''THU''), (WEEKDAY_FRIDAY, ''FRI''),
        (WEEKDAY_SATURDAY, ''SAT'')]"

definition month_to_sv_abbrev :: "month \<Rightarrow> string option" where
  "month_to_sv_abbrev = switch
       [(MONTH_JANUARY, ''Jan''), (MONTH_FEBRUARY, ''Feb''), (MONTH_MARCH, ''Mar''),
        (MONTH_APRIL, ''Apr''), (MONTH_MAY, ''May''), (MONTH_JUNE, ''Jun''), (MONTH_JULY, ''Jul''),
        (MONTH_AUGUST, ''Aug''), (MONTH_SEPTEMBER, ''Sep''), (MONTH_OCTOBER, ''Oct''),
        (MONTH_NOVEMBER, ''Nov''), (MONTH_DECEMBER, ''Dec'')]"

definition month_to_sv_abbrev_upper :: "month \<Rightarrow> string option" where
  "month_to_sv_abbrev_upper = switch
       [(MONTH_JANUARY, ''JAN''), (MONTH_FEBRUARY, ''FEB''), (MONTH_MARCH, ''MAR''),
        (MONTH_APRIL, ''APR''), (MONTH_MAY, ''MAY''), (MONTH_JUNE, ''JUN''), (MONTH_JULY, ''JUL''),
        (MONTH_AUGUST, ''AUG''), (MONTH_SEPTEMBER, ''SEP''), (MONTH_OCTOBER, ''OCT''),
        (MONTH_NOVEMBER, ''NOV''), (MONTH_DECEMBER, ''DEC'')]"

definition sv_to_weekday :: "string \<Rightarrow> weekday" where
  "sv_to_weekday = return_if_equal
       [(''Sunday'', WEEKDAY_SUNDAY), (''Monday'', WEEKDAY_MONDAY), (''Tuesday'', WEEKDAY_TUESDAY),
        (''Wednesday'', WEEKDAY_WEDNESDAY), (''Thursday'', WEEKDAY_THURSDAY),
        (''Friday'', WEEKDAY_FRIDAY), (''Saturday'', WEEKDAY_SATURDAY)]
       WEEKDAY_INVALID"

definition sv_to_month :: "string \<Rightarrow> month" where
  "sv_to_month = return_if_equal
       [(''January'', MONTH_JANUARY), (''February'', MONTH_FEBRUARY), (''March'', MONTH_MARCH),
        (''April'', MONTH_APRIL), (''May'', MONTH_MAY), (''June'', MONTH_JUNE),
        (''July'', MONTH_JULY), (''August'', MONTH_AUGUST), (''September'', MONTH_SEPTEMBER),
        (''October'', MONTH_OCTOBER), (''November'', MONTH_NOVEMBER), (''December'', MONTH_DECEMBER)]
       MONTH_INVALID"

definition sv_abbrev_to_weekday :: "string \<Rightarrow> weekday" where
  "sv_abbrev_to_weekday = return_if_equal
       [(''Sun'', WEEKDAY_SUNDAY), (''Mon'', WEEKDAY_MONDAY), (''Tue'', WEEKDAY_TUESDAY),
        (''Wed'', WEEKDAY_WEDNESDAY), (''Thu'', WEEKDAY_THURSDAY), (''Fri'', WEEKDAY_FRIDAY),
        (''Sat'', WEEKDAY_SATURDAY)]
       WEEKDAY_INVALID"

definition sv_abbrev_to_month :: "string \<Rightarrow> month" where
  "sv_abbrev_to_month = return_if_equal
       [(''Jan'', MONTH_JANUARY), (''Feb'', MONTH_FEBRUARY), (''Mar'', MONTH_MARCH),
        (''Apr'', MONTH_APRIL), (''May'', MONTH_MAY), (''Jun'', MONTH_JUNE), (''Jul'', MONTH_JULY),
        (''Aug'', MONTH_AUGUST), (''Sep'', MONTH_SEPTEMBER), (''Oct'', MONTH_OCTOBER),
        (''Nov'', MONTH_NOVEMBER), (''Dec'', MONTH_DECEMBER)]
       MONTH_INVALID"

section \<open>The Gregorian calendar\<close>

text \<open>The reference: leap years, the number of days in the years 1 to \<open>y\<close>, and the number of days of
  a year before a month.\<close>

definition leap :: "nat \<Rightarrow> bool" where
  "leap y \<longleftrightarrow> 4 dvd y \<and> (\<not> 100 dvd y \<or> 400 dvd y)"

definition days_upto :: "nat \<Rightarrow> int" where
  "days_upto y = 365 * int y + int (y div 4) - int (y div 100) + int (y div 400)"

fun days_before :: "nat \<Rightarrow> bool \<Rightarrow> int" where
  "days_before 0 lp = 0"
| "days_before (Suc k) lp =
     (if k = 0 then 0 else days_before k lp + the (month_get_day_count (int k) lp))"

lemma days_upto_Suc: "days_upto (Suc y) = days_upto y + 365 + (if leap (Suc y) then 1 else 0)"
proof -
  have d: "Suc y div m = (if m dvd Suc y then Suc (y div m) else y div m)" for m
    by (simp add: div_Suc dvd_eq_mod_eq_0)
  have "400 dvd Suc y \<Longrightarrow> 100 dvd Suc y" and "100 dvd Suc y \<Longrightarrow> 4 dvd Suc y"
    by (rule dvd_trans [of _ 400] dvd_trans [of _ 100]; simp)+
  then show ?thesis
    by (auto simp: days_upto_def leap_def d)
qed

lemma year_is_leap_year_iff: "year_is_leap_year y \<longleftrightarrow> leap (unat y)"
proof -
  have "(3 :: u64) = mask 2"
    by (simp add: mask_eq_exp_minus_1)
  then have "and y 3 = 0 \<longleftrightarrow> 4 dvd unat y"
    using unat_and_mask [of y 2] by (metis dvd_eq_mod_eq_0 power2_eq_square unat_eq_0
        mult_2_right numeral_Bit0)
  moreover have "y mod n = 0 \<longleftrightarrow> unat n dvd unat y" for n
    by (metis dvd_eq_mod_eq_0 unat_eq_0 unat_mod_distrib)
  ultimately show ?thesis
    by (simp add: year_is_leap_year_def leap_def)
qed

lemma year_get_day_count_eq:
  "year_get_day_count y = 365 + (if leap (unat y) then 1 else 0)"
  by (simp add: year_get_day_count_def year_is_leap_year_iff)

lemma month_cases:
  assumes "month_valid m"
  obtains "m = 1" | "m = 2" | "m = 3" | "m = 4" | "m = 5" | "m = 6" | "m = 7" | "m = 8" | "m = 9"
    | "m = 10" | "m = 11" | "m = 12"
proof -
  have "m = 1 \<or> m = 2 \<or> m = 3 \<or> m = 4 \<or> m = 5 \<or> m = 6 \<or> m = 7 \<or> m = 8 \<or> m = 9
    \<or> m = 10 \<or> m = 11 \<or> m = 12"
    using assms unfolding month_valid_def by presburger
  then show ?thesis
    using that by blast
qed

lemma days_before_table:
  assumes "month_valid m"
  shows "days_before (nat m) lp = days_preceding_table ! nat (m - 1) + (if lp \<and> 2 < m then 1 else 0)"
  by (rule month_cases [OF assms])
    (simp_all add: days_preceding_table_def month_get_day_count_def eval_nat_numeral)

section \<open>The loops\<close>

lemma years_loop_days:
  assumes "0 \<le> d" and "0 < unat y" and "uint y + d < 2 ^ 63"
  shows "\<exists>d' y'. years_loop d y = Some (d', y') \<and> unat y \<le> unat y'
    \<and> days_upto (unat y' - 1) + d' = days_upto (unat y - 1) + d
    \<and> d' < 365 \<and> (0 \<le> d' \<or> d' = - 1 \<and> leap (unat y' - 1))
    \<and> 365 * (uint y' - uint y) \<le> d - d'"
  using assms
proof (induction "nat d" arbitrary: d y rule: less_induct)
  case less
  let ?n = "year_get_day_count y"
  have n: "?n = 365 + (if leap (unat y) then 1 else 0)"
    by (rule year_get_day_count_eq)
  have "uint y < 2 ^ 63"
    using less.prems by linarith
  then have "unat y < nat (2 ^ 63)"
    unfolding zless_nat_eq_int_zless uint_nat .
  then have y1: "unat (y + 1) = unat y + 1"
    by (simp add: unat_add_no_wrap)
  then have y1u: "uint (y + 1) = uint y + 1"
    by (metis of_nat_1 of_nat_add uint_nat)
  have up: "days_upto (unat y) = days_upto (unat y - 1) + ?n"
    using days_upto_Suc [of "unat y - 1"] less.prems(2) n by simp
  consider "d < 365" | "365 \<le> d" "d - ?n < 0" | "365 \<le> d" "0 \<le> d - ?n"
    by linarith
  then show ?case
  proof cases
    case 1
    then show ?thesis
      using less.prems by (subst years_loop.simps) simp
  next
    case 2
    then have d: "d = 365" "leap (unat y)"
      using n by (auto split: if_splits)
    have "years_loop d y = years_loop (- 1) (y + 1)"
      using d n by (subst years_loop.simps) simp
    also have "\<dots> = Some (- 1, y + 1)"
      by (subst years_loop.simps) simp
    finally show ?thesis
      using y1 y1u up d n by simp
  next
    case 3
    have step: "years_loop d y = years_loop (d - ?n) (y + 1)"
      using 3 by (subst years_loop.simps) simp
    have "nat (d - ?n) < nat d" and "uint (y + 1) + (d - ?n) < 2 ^ 63" and "0 < unat (y + 1)"
      using 3 n y1 y1u less.prems by auto
    from less.hyps [OF this(1) 3(2) this(3,2)] show ?thesis
      using step y1 y1u up n by (auto split: if_splits)
  qed
qed

lemma months_loop_days:
  assumes "month_valid m" and "d + days_before (nat m) lp < 365 + (if lp then 1 else 0)"
  shows "\<exists>d' m'. months_loop lp d m = Some (d', m') \<and> month_valid m'
    \<and> d' + days_before (nat m') lp = d + days_before (nat m) lp
    \<and> (\<exists>n. month_get_day_count m' lp = Some n \<and> d' < n) \<and> (0 \<le> d \<longrightarrow> 0 \<le> d') \<and> (d < 0 \<longrightarrow> m' = m)"
  using assms
proof (induction "nat (12 - m)" arbitrary: d m rule: less_induct)
  case less
  obtain n where n: "month_get_day_count m lp = Some n" "0 < n"
    by (rule month_cases [OF less.prems(1)]) (auto simp: month_get_day_count_def)
  show ?case
  proof (cases "d < n")
    case True
    then show ?thesis
      using n less.prems(1) by (subst months_loop.simps) simp
  next
    case False
    have "m \<noteq> 12"
    proof
      assume "m = 12"
      then have "days_before (nat m) lp + n = 365 + (if lp then 1 else 0)"
        using days_before_table [OF less.prems(1), of lp] n(1)
        by (simp add: days_preceding_table_def month_get_day_count_def)
      with False less.prems(2) show False
        by simp
    qed
    then have m1: "month_valid (m + 1)" "nat (12 - (m + 1)) < nat (12 - m)"
      using less.prems(1) by (auto simp: month_valid_def)
    have "nat (m + 1) = Suc (nat m)" and "0 < m"
      using less.prems(1) by (auto simp: month_valid_def)
    then have before: "days_before (nat (m + 1)) lp = days_before (nat m) lp + n"
      using n(1) by simp
    have "months_loop lp d m = months_loop lp (d - n) (m + 1)"
      using False n(1) by (subst months_loop.simps) simp
    with less.hyps [OF m1(2,1), of "d - n"] before less.prems(2) False n(2) show ?thesis
      by auto
  qed
qed

section \<open>The weekday of a date\<close>

lemma weekday_sum_exact:
  assumes "unat y < 2 ^ 60" and "c < 256"
  shows "uint ((y + y div 4 - y div 100 + y div 400 + of_nat c + ucast (d :: u8)) mod (7 :: u64))
    = (days_upto (unat y) + int c + uint d) mod 7"
proof -
  let ?n = "unat y"
  have div: "unat (y div k) = ?n div unat k" for k
    by (rule unat_div_distrib)
  have le: "?n div 100 \<le> ?n + ?n div 4"
    by simp
  have d: "unat (ucast d :: u64) = unat d" "unat d < 256"
    using unat_lt_8 [of d] by simp_all
  have c: "unat (of_nat c :: u64) = c"
    using assms(2) by (intro unat_of_nat_no_wrap) simp
  have 1: "unat (y + y div 4) = ?n + ?n div 4"
    using assms(1) by (simp add: unat_add_no_wrap div)
  have 2: "unat (y + y div 4 - y div 100) = ?n + ?n div 4 - ?n div 100"
    using le by (subst unat_sub) (simp_all add: word_le_nat_alt 1 div)
  have 3: "unat (y + y div 4 - y div 100 + y div 400) = ?n + ?n div 4 - ?n div 100 + ?n div 400"
    using assms(1) le by (subst unat_add_no_wrap; simp add: 2 div)
  have 4: "unat (y + y div 4 - y div 100 + y div 400 + of_nat c)
      = ?n + ?n div 4 - ?n div 100 + ?n div 400 + c"
    using assms le by (subst unat_add_no_wrap; simp add: 3 c)
  have 5: "unat (y + y div 4 - y div 100 + y div 400 + of_nat c + ucast d)
      = ?n + ?n div 4 - ?n div 100 + ?n div 400 + c + unat d"
  proof -
    have "?n + ?n div 4 - ?n div 100 + ?n div 400 + c < 2 ^ 63"
      using assms le by simp
    then have "?n + ?n div 4 - ?n div 100 + ?n div 400 + c + unat d < 2 ^ 64"
      by (rule less_le_trans [OF add_strict_mono [OF _ d(2)]]) simp
    then show ?thesis
      by (subst unat_add_no_wrap) (simp_all add: 4)
  qed
  have "uint ((y + y div 4 - y div 100 + y div 400 + of_nat c + ucast d) mod 7)
      = int ((?n + ?n div 4 - ?n div 100 + ?n div 400 + c + unat d) mod 7)"
    by (simp only: 5 unat_mod_distrib uint_nat) simp
  also have "\<dots> = (int ?n + int (?n div 4) - int (?n div 100) + int (?n div 400) + int c + int (unat d)) mod 7"
    using le by (simp only: zmod_int of_nat_add of_nat_diff of_nat_numeral)
  also have "\<dots> = (days_upto ?n + int c + uint d) mod 7"
  proof -
    have "days_upto ?n + int c + int (unat d)
        = (int ?n + int (?n div 4) - int (?n div 100) + int (?n div 400) + int c + int (unat d))
          + 7 * (52 * int ?n)"
      unfolding days_upto_def by linarith
    then show ?thesis
      unfolding uint_nat by (simp only: mod_mult_self2)
  qed
  finally show ?thesis .
qed

lemma letter_mod:
  assumes "month_valid m"
  shows "7 dvd int (of_char (''bed=pen+mad.'' ! nat (m - 1))) - days_preceding_table ! nat (m - 1)
    + (if m < 3 then 0 else 1)"
  by (rule month_cases [OF assms]) (simp_all add: days_preceding_table_def)

lemma day_of_month_to_weekday_rata:
  assumes "month_valid m" and "0 < unat year" and "unat year < 2 ^ 60"
  shows "day_of_month_to_weekday year m day
    = Some ((days_upto (unat year - 1) + days_before (nat m) (leap (unat year)) + uint day) mod 7)"
proof -
  have y1: "unat (year - 1) = unat year - 1"
    using assms(2) by (subst unat_sub) (simp_all add: word_le_nat_alt)
  have up: "days_upto (unat year) = days_upto (unat year - 1) + 365 + (if leap (unat year) then 1 else 0)"
    using days_upto_Suc [of "unat year - 1"] assms(2) by simp
  define y where "y = (if m < 3 then year - 1 else year)"
  define c where "c = (of_char (''bed=pen+mad.'' ! nat (m - 1)) :: nat)"
  have c256: "c < 256"
    unfolding c_def by simp
  have "(of_char (''bed=pen+mad.'' ! nat (m - 1)) :: u64) = of_nat c"
    unfolding c_def by (rule of_nat_of_char [symmetric])
  moreover have "(''bed=pen+mad.'' @ [CHR 0x00]) ! nat (m - 1) = ''bed=pen+mad.'' ! nat (m - 1)"
    by (rule month_cases [OF assms(1)]) simp_all
  moreover have "1 \<le> m \<and> m \<le> 13"
    using assms(1) by (simp add: month_valid_def)
  ultimately have "day_of_month_to_weekday year m day
      = Some (uint ((y + y div 4 - y div 100 + y div 400 + of_nat c + ucast day) mod 7))"
    by (simp add: day_of_month_to_weekday_def y_def Let_def del: append.simps)
  also have "uint ((y + y div 4 - y div 100 + y div 400 + of_nat c + ucast day) mod 7) = (days_upto (unat y) + int c + uint day) mod 7"
    using assms(3) c256 y1 by (intro weekday_sum_exact) (auto simp: y_def)
  also have "(days_upto (unat y) + int c) mod 7
      = (days_upto (unat year - 1) + days_before (nat m) (leap (unat year))) mod 7"
  proof -
    have "days_upto (unat y) + int c
        - (days_upto (unat year - 1) + days_before (nat m) (leap (unat year)))
        = int c - days_preceding_table ! nat (m - 1) + (if m < 3 then 0 else 1)
          + 7 * (if m < 3 then 0 else 52)"
      by (simp add: days_before_table [OF assms(1)] y_def y1 up)
    then show ?thesis
      using letter_mod [OF assms(1)] unfolding c_def mod_eq_dvd_iff by presburger
  qed
  then have "(days_upto (unat y) + int c + uint day) mod 7
      = (days_upto (unat year - 1) + days_before (nat m) (leap (unat year)) + uint day) mod 7"
    by (metis mod_add_left_eq)
  finally show ?thesis .
qed

section \<open>Timestamps\<close>

text \<open>What a broken-down time says about a number of seconds: the fields of the time of day are in
  range, the month and the day of the month agree with the day of the year, and the date and time
  denote the timestamp.\<close>

definition tm_year_num :: "tm \<Rightarrow> nat" where
  "tm_year_num t = nat (tm_year t + 1900)"

definition tm_denotes :: "nat \<Rightarrow> tm \<Rightarrow> bool" where
  "tm_denotes ts t \<longleftrightarrow>
     0 \<le> tm_sec t \<and> tm_sec t < 60 \<and> 0 \<le> tm_min t \<and> tm_min t < 60 \<and> 0 \<le> tm_hour t \<and> tm_hour t < 24
     \<and> 1970 \<le> tm_year_num t
     \<and> int ts = 86400 * (days_upto (tm_year_num t - 1) - days_upto 1969 + tm_yday t)
         + 3600 * tm_hour t + 60 * tm_min t + tm_sec t
     \<and> 0 \<le> tm_mon t \<and> tm_mon t < 12
     \<and> tm_yday t = days_before (nat (tm_mon t + 1)) (leap (tm_year_num t)) + tm_mday t - 1
     \<and> tm_mday t \<le> the (month_get_day_count (tm_mon t + 1) (leap (tm_year_num t)))
     \<and> tm_wday t = (4 + int (ts div 86400)) mod 7"

lemma seconds_split:
  "(n :: int) = 86400 * (n div 86400) + 3600 * ((n mod 86400) div 60 div 60)
     + 60 * ((n mod 86400) div 60 mod 60) + (n mod 86400) mod 60"
  using div_mult_mod_eq [of n 86400] div_mult_mod_eq [of "n mod 86400" 60]
    div_mult_mod_eq [of "n mod 86400 div 60" 60]
  by linarith

lemma hours_of_day: "(n :: int) mod 86400 div 60 div 60 < 24" "0 \<le> n mod 86400 div 60 div 60"
  using pos_mod_bound [of 86400 n] pos_mod_sign [of 86400 n] by linarith+

lemma sint_small_u32: "unat (w :: u64) < 2 ^ 31 \<Longrightarrow> sint (ucast w :: u32) = int (unat w)"
proof -
  assume w: "unat w < 2 ^ 31"
  then have u: "unat (ucast w :: u32) = unat w"
    by (intro unat_ucast_narrower) simp
  have "sint (ucast w :: u32) = signed_take_bit 31 (int (unat (ucast w :: u32)))"
    by (simp add: sint_uint)
  also have "\<dots> = int (unat w)"
  proof -
    have "int (unat w) < 2 ^ 31"
      using w by (metis of_nat_less_iff of_nat_numeral of_nat_power)
    then show ?thesis
      unfolding u by (intro signed_take_bit_int_eq_self) linarith+
  qed
  finally show ?thesis .
qed

lemma stamp_days:
  assumes "unat (ts :: u64) div 86400 < 2 ^ 31"
  shows "sint (ucast (ts div 86400) :: u32) = int (unat ts div 86400)"
    and "sint (ucast (ts mod 86400) :: u32) = int (unat ts mod 86400)"
proof -
  have "unat (ts div 86400) = unat ts div 86400" "unat (ts mod 86400) = unat ts mod 86400"
    by (simp_all add: unat_div_distrib unat_mod_distrib)
  moreover have "unat ts mod 86400 < 2 ^ 31"
    by (rule less_trans [of _ 86400]) simp_all
  ultimately show "sint (ucast (ts div 86400) :: u32) = int (unat ts div 86400)"
    and "sint (ucast (ts mod 86400) :: u32) = int (unat ts mod 86400)"
    using assms by (metis sint_small_u32)+
qed

lemma month_get_day_count_le: "month_get_day_count m lp = Some k \<Longrightarrow> k \<le> 31"
  unfolding month_get_day_count_def by (cases lp) (simp_all split: if_splits)

lemma tm_from_stamp_parts:
  fixes ts :: u64
  defines "n \<equiv> int (unat ts)"
  assumes "unat ts div 86400 < 2 ^ 31"
  shows "\<exists>yday (y :: u64) mday m. tm_from_stamp ts
      = Some \<lparr>tm_sec = n mod 86400 mod 60, tm_min = n mod 86400 div 60 mod 60,
          tm_hour = n mod 86400 div 60 div 60, tm_mday = mday + 1, tm_mon = m - 1,
          tm_year = uint y - 1900, tm_wday = (4 + n div 86400) mod 7, tm_yday = yday, tm_isdst = 0\<rparr>
    \<and> 1970 \<le> unat y \<and> month_valid m
    \<and> days_upto (unat y - 1) + yday = days_upto 1969 + n div 86400
    \<and> yday = days_before (nat m) (leap (unat y)) + mday
    \<and> mday < the (month_get_day_count m (leap (unat y)))
    \<and> yday < 365 \<and> (0 \<le> yday \<and> 0 \<le> mday \<or> yday = - 1 \<and> mday = - 1 \<and> leap (unat y - 1))"
proof -
  let ?d = "n div 86400"
  have d: "0 \<le> ?d" "?d < 2 ^ 31"
  proof -
    have e: "?d = int (unat ts div 86400)"
      by (simp only: n_def zdiv_int of_nat_numeral)
    show "0 \<le> ?d"
      unfolding e by (rule of_nat_0_le_iff)
    show "?d < 2 ^ 31"
      unfolding e using assms(2) by (metis of_nat_less_iff of_nat_numeral of_nat_power)
  qed
  obtain yday y where yl: "years_loop ?d 1970 = Some (yday, y)" "1970 \<le> unat y"
      "days_upto (unat y - 1) + yday = days_upto 1969 + ?d" "yday < 365"
      "0 \<le> yday \<or> yday = - 1 \<and> leap (unat y - 1)" "365 * (uint y - 1970) \<le> ?d - yday"
    using years_loop_days [of ?d 1970] d by auto
  have "yday + days_before (nat 1) (leap (unat y)) < 365 + (if leap (unat y) then 1 else 0)"
    using yl(4) by simp
  from months_loop_days [OF _ this] obtain mday m k where ml:
      "months_loop (leap (unat y)) yday 1 = Some (mday, m)" "month_valid m"
      "mday + days_before (nat m) (leap (unat y)) = yday + days_before (nat 1) (leap (unat y))"
      "month_get_day_count m (leap (unat y)) = Some k" "mday < k"
      "0 \<le> yday \<longrightarrow> 0 \<le> mday" "yday < 0 \<longrightarrow> m = 1"
    unfolding month_valid_def by (metis one_le_numeral order_refl)
  have before1: "days_before (nat 1) lp = 0" for lp
    by simp
  have yd: "yday = days_before (nat m) (leap (unat y)) + mday"
    using ml(3) before1 [of "leap (unat y)"] by linarith
  have y31: "uint y \<le> 2147483647"
    using yl(4,5,6) d(2) by auto
  then have y31': "y \<le> 2147483647"
    by (simp add: word_le_def)
  then have "unat y \<le> 2147483647"
    by (simp add: word_le_nat_alt)
  then have y60: "unat y < 2 ^ 60"
    by simp
  have signs: "0 \<le> yday \<and> 0 \<le> mday \<or> yday = - 1 \<and> mday = - 1 \<and> leap (unat y - 1)"
    using yl(5) ml(6,7) yd before1 [of "leap (unat y)"] by fastforce
  then have "- 1 \<le> mday" "mday < 31"
    using ml(5) month_get_day_count_le [OF ml(4)] by linarith+
  then have "uint (of_int (mday + 1) :: u8) = mday + 1"
    unfolding uint_word_of_int by (intro mod_pos_pos_trivial) simp_all
  then have "day_of_month_to_weekday y m (of_int (mday + 1))
      = Some ((days_upto (unat y - 1) + yday + 1) mod 7)"
    using day_of_month_to_weekday_rata [OF ml(2) _ y60] yl(2) yd by (simp add: algebra_simps)
  also have "(days_upto (unat y - 1) + yday + 1) mod 7 = (4 + ?d) mod 7"
  proof -
    have "days_upto 1969 + ?d + 1 = 4 + ?d + 7 * 102737"
      by (simp add: days_upto_def)
    then show ?thesis
      unfolding yl(3) by (simp only: mod_mult_self2)
  qed
  finally have wd: "day_of_month_to_weekday y m (of_int (mday + 1)) = Some ((4 + ?d) mod 7)" .
  have "int (unat ts div 86400) = ?d" "int (unat ts mod 86400) = n mod 86400"
    by (simp_all only: n_def zdiv_int zmod_int of_nat_numeral)
  note sd = stamp_days [OF assms(2), unfolded this]
  have "m - 1 \<noteq> - 1" "m \<noteq> 0"
    using ml(2) by (auto simp: month_valid_def)
  then have "tm_from_stamp ts
      = Some \<lparr>tm_sec = n mod 86400 mod 60, tm_min = n mod 86400 div 60 mod 60,
          tm_hour = n mod 86400 div 60 div 60, tm_mday = mday + 1, tm_mon = m - 1,
          tm_year = uint y - 1900, tm_wday = (4 + ?d) mod 7, tm_yday = yday, tm_isdst = 0\<rparr>"
    unfolding tm_from_stamp_def sd Let_def month_to_tm_mon_def year_to_tm_year_def
    by (simp add: yl(1) ml(1) wd [unfolded of_int_add of_int_1] y31' year_is_leap_year_iff)
  moreover have "mday < the (month_get_day_count m (leap (unat y)))"
    using ml(4,5) by simp
  ultimately show ?thesis
    using yl(2-4) ml(2) yd signs
    by - (rule exI [of _ yday], rule exI [of _ y], rule exI [of _ mday], rule exI [of _ m],
        intro conjI, assumption+)
qed

text \<open>Day \<open>d\<close> since the epoch is December 31 of the leap year \<open>y\<close>.\<close>

definition ends_leap_year :: "nat \<Rightarrow> nat \<Rightarrow> bool" where
  "ends_leap_year d y \<longleftrightarrow> leap y \<and> int d = days_upto y - days_upto 1969 - 1"

lemma days_upto_less: "a < b \<Longrightarrow> days_upto a < days_upto b"
  by (rule lift_Suc_mono_less [of days_upto]) (simp_all add: days_upto_Suc)

lemma days_upto_le: "a \<le> b \<Longrightarrow> days_upto a \<le> days_upto b"
  using days_upto_less [of a b] by (cases "a = b") simp_all

lemma leap_year_end:
  assumes "days_upto (y - 1) + yday = days_upto 1969 + int d" and "1970 \<le> y" and "yday < 365"
    and "0 \<le> yday \<or> yday = - 1 \<and> leap (y - 1)"
  shows "(\<exists>z. ends_leap_year d z) \<longleftrightarrow> yday = - 1" and "ends_leap_year d z \<Longrightarrow> y = Suc z"
proof -
  have y: "yday = - 1 \<and> y = Suc z" if "ends_leap_year d z" for z
  proof -
    have z: "leap z" "days_upto (y - 1) + yday = days_upto z - 1"
      using that assms(1) by (simp_all add: ends_leap_year_def)
    have "z \<noteq> 0"
      using that days_upto_le [of 0 1969] by (auto simp: ends_leap_year_def days_upto_def)
    then have up: "days_upto z = days_upto (z - 1) + 366"
      using days_upto_Suc [of "z - 1"] z(1) by simp
    have "\<not> y - 1 < z"
    proof
      assume "y - 1 < z"
      then have "days_upto (y - 1) \<le> days_upto (z - 1)"
        by (intro days_upto_le) simp
      then show False
        using up z(2) assms(3) by linarith
    qed
    moreover have "\<not> z < y - 1"
      using days_upto_less [of z "y - 1"] z(2) assms(4) by auto
    ultimately have "y - 1 = z"
      by simp
    then show ?thesis
      using z(2) assms(2) by auto
  qed
  moreover have "ends_leap_year d (y - 1)" if "yday = - 1"
    using that assms(1,4) by (simp add: ends_leap_year_def)
  ultimately show "(\<exists>z. ends_leap_year d z) \<longleftrightarrow> yday = - 1"
    by blast
  show "ends_leap_year d z \<Longrightarrow> y = Suc z"
    using y by blast
qed

text \<open>C24: For a timestamp of fewer than 2^31 days \<open>tm_from_stamp\<close> returns (both of its loops end and
  no assertion fails) a broken-down time that denotes exactly this timestamp, with the weekday of its
  date.  December 31 of a leap year, and only this day, comes out as January 0 of the next year, with
  -1 as the day of the year; on all other days the day of the year is not negative and the day of the
  month is positive.\<close>

theorem tm_from_stamp_exact:
  assumes "unat ts div 86400 < 2 ^ 31"
  shows "\<exists>t. tm_from_stamp ts = Some t \<and> tm_denotes (unat ts) t
    \<and> (\<forall>y. ends_leap_year (unat ts div 86400) y
         \<longrightarrow> tm_year_num t = Suc y \<and> tm_yday t = - 1 \<and> tm_mon t = 0 \<and> tm_mday t = 0)
    \<and> ((\<nexists>y. ends_leap_year (unat ts div 86400) y) \<longrightarrow> 0 \<le> tm_yday t \<and> 1 \<le> tm_mday t)"
proof -
  define n where "n = int (unat ts)"
  obtain yday mday m and y :: u64 where t: "tm_from_stamp ts
        = Some \<lparr>tm_sec = n mod 86400 mod 60, tm_min = n mod 86400 div 60 mod 60,
          tm_hour = n mod 86400 div 60 div 60, tm_mday = mday + 1, tm_mon = m - 1,
          tm_year = uint y - 1900, tm_wday = (4 + n div 86400) mod 7, tm_yday = yday, tm_isdst = 0\<rparr>"
      "1970 \<le> unat y" "month_valid m"
      "days_upto (unat y - 1) + yday = days_upto 1969 + n div 86400"
      "yday = days_before (nat m) (leap (unat y)) + mday"
      "mday < the (month_get_day_count m (leap (unat y)))"
      "yday < 365" "0 \<le> yday \<and> 0 \<le> mday \<or> yday = - 1 \<and> mday = - 1 \<and> leap (unat y - 1)"
    using tm_from_stamp_parts [OF assms] unfolding n_def by blast
  define t where "t = the (tm_from_stamp ts)"
  have some: "tm_from_stamp ts = Some t"
    by (simp add: t_def t(1))
  have t_sel: "tm_sec t = n mod 86400 mod 60" "tm_min t = n mod 86400 div 60 mod 60"
      "tm_hour t = n mod 86400 div 60 div 60" "tm_mday t = mday + 1" "tm_mon t = m - 1"
      "tm_year t = uint y - 1900" "tm_wday t = (4 + n div 86400) mod 7" "tm_yday t = yday"
    by (simp_all add: t_def t(1))
  have year: "tm_year_num t = unat y"
    by (simp add: t_sel tm_year_num_def)
  have days: "days_upto (unat y - 1) - days_upto 1969 + yday = n div 86400"
    using t(4) by (simp add: algebra_simps)
  have "n = 86400 * (days_upto (unat y - 1) - days_upto 1969 + yday)
      + 3600 * (n mod 86400 div 60 div 60) + 60 * (n mod 86400 div 60 mod 60) + n mod 86400 mod 60"
    unfolding days by (rule seconds_split)
  moreover have "n mod 86400 div 60 div 60 < 24" "0 \<le> n mod 86400 div 60 div 60"
    by (rule hours_of_day)+
  moreover have "0 \<le> m - 1" "m - 1 < 12"
    using t(3) by (simp_all add: month_valid_def)
  moreover have "(4 + n div 86400) mod 7 = (4 + int (unat ts div 86400)) mod 7"
    by (simp only: n_def zdiv_int of_nat_numeral)
  moreover have "n mod 86400 mod 60 < 60" "0 \<le> n mod 86400 mod 60"
      "n mod 86400 div 60 mod 60 < 60" "0 \<le> n mod 86400 div 60 mod 60"
    by simp_all
  moreover have "yday = days_before (nat (m - 1 + 1)) (leap (unat y)) + (mday + 1) - 1"
      "mday + 1 \<le> the (month_get_day_count (m - 1 + 1) (leap (unat y)))"
    using t(5,6) by simp_all
  ultimately have "tm_denotes (unat ts) t"
    unfolding tm_denotes_def year n_def [symmetric] t_sel using t(2) by (intro conjI) assumption+
  moreover have e: "days_upto (unat y - 1) + yday = days_upto 1969 + int (unat ts div 86400)"
      "0 \<le> yday \<or> yday = - 1 \<and> leap (unat y - 1)"
    using t(4,8) by (auto simp: n_def zdiv_int)
  note leap_end = leap_year_end [OF e(1) t(2,7) e(2)]
  have jan: "m = 1" if "yday = - 1"
    using t(3,5,8) that days_before_table [OF t(3), of "leap (unat y)"]
    by - (rule month_cases [OF t(3)], simp_all add: days_preceding_table_def split: if_splits)
  have "tm_year_num t = Suc z \<and> tm_yday t = - 1 \<and> tm_mon t = 0 \<and> tm_mday t = 0"
    if z: "ends_leap_year (unat ts div 86400) z" for z
  proof -
    have "yday = - 1"
      using leap_end(1) z by blast
    then show ?thesis
      using leap_end(2) [OF z] jan t(8) unfolding year t_sel by auto
  qed
  moreover have "0 \<le> tm_yday t \<and> 1 \<le> tm_mday t" if "\<nexists>z. ends_leap_year (unat ts div 86400) z"
    using that leap_end(1) t(8) unfolding t_sel by auto
  ultimately show ?thesis
    using some by blast
qed

theorem tm_from_stamp_exact_witness:
  "\<exists>t. tm_from_stamp 94608000 = Some t \<and> tm_denotes 94608000 t
    \<and> tm_year_num t = 1973 \<and> tm_yday t = - 1 \<and> tm_mon t = 0 \<and> tm_mday t = 0"
proof -
  have "ends_leap_year (unat (94608000 :: u64) div 86400) 1972"
    by (simp add: ends_leap_year_def leap_def days_upto_def)
  then show ?thesis
    using tm_from_stamp_exact [of 94608000] by fastforce
qed

section \<open>Dates\<close>

text \<open>C25: \<open>day_of_month_to_weekday\<close> is the weekday of the Gregorian calendar for every date from the
  year 1 on, and \<open>day_of_month_to_day_of_year\<close> adds the lengths of the preceding months to the day of
  the month, so its results for the first and the last day of a year are 1 and the year's length.\<close>

theorem date_functions_gregorian:
  assumes "month_valid m" and "1 \<le> unat year" and "unat year < 2 ^ 60"
  shows "day_of_month_to_weekday year m day
      = Some ((days_upto (unat year - 1) + days_before (nat m) (leap (unat year)) + uint day) mod 7)
    \<and> day_of_month_to_day_of_year day m (year_is_leap_year year)
      = Some (days_before (nat m) (leap (unat year)) + uint day)
    \<and> day_of_month_to_day_of_year 31 MONTH_DECEMBER (year_is_leap_year year)
      = Some (days_upto (unat year) - days_upto (unat year - 1))"
proof -
  have "days_upto (unat year) = days_upto (unat year - 1) + 365 + (if leap (unat year) then 1 else 0)"
    using days_upto_Suc [of "unat year - 1"] assms(2) by simp
  moreover have "days_before (nat m) (leap (unat year))
      = days_preceding_table ! nat (m - 1) + (if leap (unat year) \<and> 2 < m then 1 else 0)"
    by (rule days_before_table [OF assms(1)])
  ultimately show ?thesis
    using day_of_month_to_weekday_rata [of m year day] assms
    by (simp add: day_of_month_to_day_of_year_def year_is_leap_year_iff month_valid_def
        days_preceding_table_def)
qed

theorem date_functions_gregorian_witness:
  "day_of_month_to_weekday 2024 2 29 = Some WEEKDAY_THURSDAY
    \<and> day_of_month_to_day_of_year 29 2 (year_is_leap_year 2024) = Some 60"
  using date_functions_gregorian [of 2 2024 29]
    days_before_table [of 2 True]
  by (simp add: month_valid_def days_upto_def leap_def days_preceding_table_def)

lemma return_if_equal_map_of:
  "return_if_equal names invalid sv = (case map_of names sv of None \<Rightarrow> invalid | Some n \<Rightarrow> n)"
  by (induction names invalid sv rule: return_if_equal.induct) simp_all

lemma switch_return_if_equal:
  assumes "names = map prod.swap cases" and "distinct (map fst cases)" and "distinct (map snd cases)"
    and "invalid \<notin> set (map fst cases)"
  shows "switch cases day = Some sv \<longleftrightarrow> return_if_equal names invalid sv = day \<and> day \<noteq> invalid"
proof -
  have "distinct (map fst names)"
    using assms(1,3) by (simp add: comp_def)
  then have "map_of names sv = Some day \<longleftrightarrow> (day, sv) \<in> set cases"
    unfolding assms(1) by (subst map_of_eq_Some_iff) (simp_all add: pair_in_swap_image)
  also have "\<dots> \<longleftrightarrow> switch cases day = Some sv"
    using assms(2) by (simp add: switch_def)
  finally have "switch cases day = Some sv \<longleftrightarrow> map_of names sv = Some day"
    by simp
  moreover have "day \<noteq> invalid" if "switch cases day = Some sv"
    using that assms(4) map_of_SomeD [of cases day sv] by (force simp: switch_def)
  ultimately show ?thesis
    by (auto simp: return_if_equal_map_of split: option.splits)
qed

text \<open>C26: parsing and printing the names of weekdays and months, full and abbreviated, are inverse
  to each other: a name is printed for an enumerator exactly when parsing that string gives the
  enumerator and not the invalid value.\<close>

theorem names_round_trip:
  "(weekday_to_sv day = Some sv \<longleftrightarrow> sv_to_weekday sv = day \<and> day \<noteq> WEEKDAY_INVALID)
    \<and> (weekday_to_sv_abbrev day = Some sv \<longleftrightarrow> sv_abbrev_to_weekday sv = day \<and> day \<noteq> WEEKDAY_INVALID)
    \<and> (month_to_sv m = Some sv \<longleftrightarrow> sv_to_month sv = m \<and> m \<noteq> MONTH_INVALID)
    \<and> (month_to_sv_abbrev m = Some sv \<longleftrightarrow> sv_abbrev_to_month sv = m \<and> m \<noteq> MONTH_INVALID)"
  unfolding weekday_to_sv_def weekday_to_sv_abbrev_def month_to_sv_def month_to_sv_abbrev_def
    sv_to_weekday_def sv_abbrev_to_weekday_def sv_to_month_def sv_abbrev_to_month_def
  by (intro conjI switch_return_if_equal) code_simp+

section \<open>Weeks of the year\<close>

lemma unat_diff_u32:
  assumes "0 \<le> w" and "w < 7"
  shows "unat (ucast (d :: u16) - of_int w :: u32)
    = (if nat w \<le> unat d then unat d - nat w else 2 ^ 32 + unat d - nat w)"
proof -
  have d: "unat (ucast d :: u32) = unat d"
    by (rule unat_ucast_wider) simp
  have w: "unat (of_int w :: u32) = nat w"
  proof -
    have "(of_int w :: u32) = of_nat (nat w)"
      using assms(1) by simp
    then show ?thesis
      using assms by (simp only:) (rule unat_of_nat_no_wrap, simp)
  qed
  show ?thesis
    using assms unat_sub_if_size [of "ucast d" "of_int w :: u32"] by (auto simp: d w word_size)
qed

text \<open>The reference for the number of a week: how many Mondays, or Sundays, there are from January 1 to the
  day with the weekday \<open>w\<close>, \<open>d\<close> days later.\<close>

definition weeks_begun :: "weekday \<Rightarrow> nat \<Rightarrow> bool \<Rightarrow> nat" where
  "weeks_begun w d is_monday_first =
     card {i. i \<le> d \<and> (w - int (d - i)) mod 7 = (if is_monday_first then WEEKDAY_MONDAY else WEEKDAY_SUNDAY)}"

lemma card_mod_seven:
  assumes "r < 7"
  shows "card {j :: nat. j \<le> d \<and> j mod 7 = r} = (d + 7 - r) div 7"
proof (induction d)
  case 0
  have "{j :: nat. j \<le> 0 \<and> j mod 7 = r} = (if r = 0 then {0} else {})"
    by auto
  then show ?case
    using assms by simp
next
  case (Suc d)
  have "{j. j \<le> Suc d \<and> j mod 7 = r}
      = (if Suc d mod 7 = r then insert (Suc d) {j. j \<le> d \<and> j mod 7 = r} else {j. j \<le> d \<and> j mod 7 = r})"
    by (auto simp: le_Suc_eq)
  then have "card {j. j \<le> Suc d \<and> j mod 7 = r} = (if Suc d mod 7 = r then 1 else 0) + (d + 7 - r) div 7"
    using Suc by simp
  also have "\<dots> = (Suc d + 7 - r) div 7"
  proof -
    define a where "a = d + 7 - r"
    have a: "Suc d + 7 - r = Suc a" "Suc a + r = Suc d + 7"
      using assms by (simp_all add: a_def)
    have "Suc d mod 7 = r \<longleftrightarrow> Suc a mod 7 = 0"
    proof -
      have "Suc d mod 7 = (Suc a + r) mod 7"
        unfolding a(2) by (rule mod_add_self2 [symmetric])
      moreover have "(Suc a + r) mod 7 = r \<longleftrightarrow> Suc a mod 7 = 0"
        using assms by (metis add_cancel_right_left add_diff_cancel_right' mod_add_left_eq mod_eq_dvd_iff_nat
            le_add2 mod_0_imp_dvd dvd_imp_mod_0 mod_less)
      ultimately show ?thesis
        by simp
    qed
    then show ?thesis
      unfolding a(1) using div_Suc [of a 7] by (simp add: a_def)
  qed
  finally show ?case .
qed

definition week_delta :: "weekday \<Rightarrow> bool \<Rightarrow> nat" where
  "week_delta w is_monday_first = (if is_monday_first then if w \<noteq> 0 then 8 else 1 else 7)"

lemma weeks_begun_eq:
  assumes "weekday_valid w"
  shows "weeks_begun w d mf = (d + week_delta w mf - nat w) div 7"
proof -
  define c :: int where "c = (if mf then 1 else 0)"
  define r where "r = nat ((w - c) mod 7)"
  have r: "r < 7" "int r = (w - c) mod 7"
    by (simp_all add: r_def)
  have eq: "(w - int j) mod 7 = c \<longleftrightarrow> j mod 7 = r" for j
  proof -
    have "(w - int j) mod 7 = c \<longleftrightarrow> (w - int j) mod 7 = c mod 7"
      by (simp add: c_def)
    also have "\<dots> \<longleftrightarrow> (w - c) mod 7 = int j mod 7"
      unfolding mod_eq_dvd_iff by (simp add: algebra_simps)
    also have "\<dots> \<longleftrightarrow> int r = int (j mod 7)"
      by (simp add: r(2) zmod_int)
    finally show ?thesis
      by auto
  qed
  have "{i. i \<le> d \<and> (d - i) mod 7 = r} = (\<lambda>j. d - j) ` {j. j \<le> d \<and> j mod 7 = r}"
  proof (intro set_eqI iffI)
    fix i
    assume "i \<in> {i. i \<le> d \<and> (d - i) mod 7 = r}"
    then show "i \<in> (\<lambda>j. d - j) ` {j. j \<le> d \<and> j mod 7 = r}"
      by (intro image_eqI [of _ _ "d - i"]) simp_all
  qed auto
  then have "weeks_begun w d mf = card ((\<lambda>j. d - j) ` {j. j \<le> d \<and> j mod 7 = r})"
    unfolding weeks_begun_def c_def [symmetric] eq by (rule arg_cong)
  also have "\<dots> = card {j. j \<le> d \<and> j mod 7 = r}"
    by (rule card_image) (auto simp: inj_on_def)
  also have "\<dots> = (d + 7 - r) div 7"
    by (rule card_mod_seven [OF r(1)])
  also have "d + 7 - r = d + week_delta w mf - nat w"
    using assms by (cases "w = 0"; cases mf) (auto simp: r_def c_def week_delta_def weekday_valid_def)
  finally show ?thesis .
qed

lemma get_week_count_unat:
  assumes "weekday_valid w" and "unat d < 366"
  shows "unat (get_week_count_at_day w d mf)
    = ((if nat w \<le> unat d then unat d - nat w else 2 ^ 32 + unat d - nat w) + week_delta w mf)
        div 7 mod 256"
proof -
  let ?diff = "ucast d - of_int w :: u32"
  let ?sum = "ucast ?diff + (if mf then if w \<noteq> 0 then 8 else 1 else 7) :: u64"
  have w: "0 \<le> w" "w < 7"
    using assms(1) by (auto simp: weekday_valid_def)
  have diff: "unat (ucast ?diff :: u64) = unat ?diff"
    by (rule unat_ucast_wider) simp
  have "week_delta w mf \<le> 8" "unat (if mf then if w \<noteq> 0 then 8 else 1 else 7 :: u64) = week_delta w mf"
    by (simp_all add: week_delta_def)
  moreover have "unat ?diff + 8 < 2 ^ 64"
    by (rule less_trans [OF add_strict_right_mono [OF unsigned_less]]) simp
  ultimately have "unat ?sum = unat ?diff + week_delta w mf"
    by (subst unat_add_no_wrap) (simp_all add: diff)
  then have "unat (?sum div 7) = (unat ?diff + week_delta w mf) div 7"
    by (simp add: unat_div_distrib)
  then show ?thesis
    using unat_diff_u32 [OF w, of d]
    by (simp add: get_week_count_at_day_def Let_def unsigned_ucast_eq take_bit_eq_mod)
qed

text \<open>C27: The number of a week.  When the number of the weekday does not exceed the number of days since
  January 1, \<open>get_week_count_at_day\<close> returns how many weeks have begun in the year, with their Mondays or
  Sundays.  On the other days, which are among the first six of a year, the subtraction wraps around at 32 bits
  and the result is 36 or 37, although at most one week has begun.  The ISO week number inherits this: January 1,
  2021, a Friday in week 53 of 2020, is given week 37.\<close>

theorem week_count_exact:
  assumes "weekday_valid w" and "unat d < 366"
  shows "(if w \<le> int (unat d)
     then unat (get_week_count_at_day w d mf) = weeks_begun w (unat d) mf
     else unat (get_week_count_at_day w d mf) \<in> {36, 37} \<and> weeks_begun w (unat d) mf \<le> 1 \<and> unat d < 6)
   \<and> iso_8601_get_week_number WEEKDAY_FRIDAY MONTH_JANUARY 2021 1 0 = Some 37"
proof -
  have "week_delta w mf \<le> 8"
    by (simp add: week_delta_def)
  then have "unat (get_week_count_at_day w d mf) = (unat d + week_delta w mf - nat w) div 7"
    if "nat w \<le> unat d"
    using that assms(2) by (subst get_week_count_unat [OF assms]) simp
  moreover have "unat (get_week_count_at_day w d mf) \<in> {36, 37}" if "\<not> nat w \<le> unat d"
  proof -
    define k where "k = unat d + week_delta w mf + 6 - nat w"
    have "7 \<le> week_delta w mf"
      using that by (auto simp: week_delta_def)
    then have "nat w \<le> 6" "k \<le> 13" "7 \<le> k"
      using assms(1) that \<open>week_delta w mf \<le> 8\<close> by (auto simp: k_def weekday_valid_def)
    then have "unat (get_week_count_at_day w d mf) = (4294967290 + k) div 7 mod 256"
      using that by (subst get_week_count_unat [OF assms]) (simp add: k_def ac_simps)
    moreover have "k = 7 \<or> k = 8 \<or> k = 9 \<or> k = 10 \<or> k = 11 \<or> k = 12 \<or> k = 13"
      using \<open>k \<le> 13\<close> \<open>7 \<le> k\<close> by linarith
    ultimately show ?thesis
      by auto
  qed
  moreover have "weeks_begun w (unat d) mf \<le> 1 \<and> unat d < 6" if "\<not> nat w \<le> unat d"
  proof -
    have "nat w \<le> 6"
      using assms(1) by (auto simp: weekday_valid_def)
    moreover have "unat d + week_delta w mf - nat w \<le> 7"
      using that \<open>week_delta w mf \<le> 8\<close> by simp
    ultimately show ?thesis
      using that div_le_mono [of "unat d + week_delta w mf - nat w" 7 7] by (simp add: weeks_begun_eq [OF assms(1)])
  qed
  moreover have "iso_8601_get_week_number 5 1 2021 1 0 = Some 37"
    by (simp add: iso_8601_get_week_number.simps [of 5 1] weekday_valid_def month_valid_def
        get_week_count_at_day_def Let_def)
  moreover have "w \<le> int (unat d) \<longleftrightarrow> nat w \<le> unat d"
    by (rule nat_le_iff [symmetric])
  ultimately show ?thesis
    unfolding weeks_begun_eq [OF assms(1)] by (cases "nat w \<le> unat d") (simp_all only: if_True if_False simp_thms)
qed

theorem week_count_exact_witness:
  "unat (get_week_count_at_day WEEKDAY_SATURDAY 45 False) = 6
    \<and> unat (get_week_count_at_day WEEKDAY_SATURDAY 0 True) \<in> {36, 37}"
  using week_count_exact [of 6 45 False] week_count_exact [of 6 0 True]
  by (simp add: weekday_valid_def weeks_begun_eq week_delta_def)

end
