(* ===== verification/Stdlib.thy ===== *)
theory Stdlib
  imports Arith
begin

text \<open>
  \<open>kernel/src/sys/stdlib.c\<close>: the memory and C-string functions of the kernel.  Memory is a function
  from 64-bit addresses to bytes and addresses wrap around; \<open>char\<close> is unsigned (the kernel is built
  with \<open>-funsigned-char\<close>).  The source selects instructions by architecture; the model takes the
  architecture as an argument and follows the conditional compilation.  An access of a C integer
  type or of an \<open>ldp\<close>/\<open>stp\<close> pair of registers reads or writes the bytes it occupies, least
  significant first; \<open>rep movsb\<close> and \<open>rep stosb\<close> are their byte loops.  Lengths are naturals.
\<close>

section \<open>Memory\<close>

type_synonym mem = "u64 \<Rightarrow> u8"

datatype arch = X86_64 | Aarch64 | Riscv64 | Loongarch64

datatype access = U8 | U16 | U32 | U64 | Pair64

fun sizeof :: "access \<Rightarrow> nat" where
  "sizeof U8 = 1"
| "sizeof U16 = 2"
| "sizeof U32 = 4"
| "sizeof U64 = 8"
| "sizeof Pair64 = 16"

fun load :: "mem \<Rightarrow> u64 \<Rightarrow> nat \<Rightarrow> u8 list" where
  "load m a 0 = []"
| "load m a (Suc n) = m a # load m (a + 1) n"

fun store :: "mem \<Rightarrow> u64 \<Rightarrow> u8 list \<Rightarrow> mem" where
  "store m a [] = m"
| "store m a (b # bs) = store (m(a := b)) (a + 1) bs"

fun le_word :: "u8 list \<Rightarrow> u64" where
  "le_word [] = 0"
| "le_word (b # bs) = ucast b + 256 * le_word bs"

definition le_bytes :: "nat \<Rightarrow> u64 \<Rightarrow> u8 list" where
  "le_bytes k v = map (\<lambda>i. ucast (drop_bit (8 * i) v)) [0..<k]"

text \<open>\<open>*(type *)dst = *(const type *)src\<close>.\<close>

definition copy_type :: "access \<Rightarrow> mem \<Rightarrow> u64 \<Rightarrow> u64 \<Rightarrow> mem" where
  "copy_type t m dst src = store m dst (load m src (sizeof t))"

section \<open>C strings\<close>

partial_function (option) strlen_from :: "mem \<Rightarrow> u64 \<Rightarrow> nat \<Rightarrow> nat option" where
  "strlen_from m iter result =
     (if m iter \<noteq> 0 then strlen_from m (iter + 1) (result + 1) else Some result)"

definition strlen :: "mem \<Rightarrow> u64 \<Rightarrow> nat option" where
  "strlen m str = strlen_from m str 0"

fun strnlen :: "mem \<Rightarrow> u64 \<Rightarrow> nat \<Rightarrow> nat" where
  "strnlen m iter 0 = 0"
| "strnlen m iter (Suc limit) = (if m iter \<noteq> 0 then Suc (strnlen m (iter + 1) limit) else 0)"

partial_function (option) strcmp :: "mem \<Rightarrow> u64 \<Rightarrow> u64 \<Rightarrow> int option" where
  "strcmp m iter jter =
     (if m iter \<noteq> 0 \<and> m jter \<noteq> 0 then strcmp m (iter + 1) (jter + 1)
      else Some (uint (m iter) - uint (m jter)))"

fun strncmp :: "mem \<Rightarrow> u64 \<Rightarrow> u64 \<Rightarrow> nat \<Rightarrow> int" where
  "strncmp m str1 str2 0 = 0"
| "strncmp m str1 str2 (Suc len) =
     (if m str1 \<noteq> m str2 then uint (m str1) - uint (m str2)
      else strncmp m (str1 + 1) (str2 + 1) len)"

text \<open>A null pointer as the result of a search is the inner \<^const>\<open>None\<close>.\<close>

partial_function (option) strchr :: "mem \<Rightarrow> u64 \<Rightarrow> int \<Rightarrow> u64 option option" where
  "strchr m iter ch =
     (if m iter = 0 then Some None
      else if uint (m iter) = ch then Some (Some iter)
      else strchr m (iter + 1) ch)"

partial_function (option) strrchr_from :: "mem \<Rightarrow> u64 \<Rightarrow> int \<Rightarrow> u64 option \<Rightarrow> u64 option option" where
  "strrchr_from m iter ch result =
     (if m iter = 0 then Some result
      else strrchr_from m (iter + 1) ch (if uint (m iter) = ch then Some iter else result))"

definition strrchr :: "mem \<Rightarrow> u64 \<Rightarrow> int \<Rightarrow> u64 option option" where
  "strrchr m str ch = strrchr_from m str ch None"

declare strlen_from.simps [code] strcmp.simps [code] strchr.simps [code] strrchr_from.simps [code]

section \<open>Comparing\<close>

text \<open>\<open>(int)(left_ch - right_ch)\<close>: at 32 and 64 bits the unsigned difference is truncated to \<open>int\<close>,
  smaller types are promoted first.\<close>

fun char_diff :: "access \<Rightarrow> u64 \<Rightarrow> u64 \<Rightarrow> int" where
  "char_diff U8 l r = uint l - uint r"
| "char_diff U16 l r = uint l - uint r"
| "char_diff t l r = sint (ucast (l - r) :: u32)"

text \<open>The loop returns the difference of the first pair that differs (\<open>Inl\<close>) or what is left.\<close>

function memcmp_loop ::
    "access \<Rightarrow> mem \<Rightarrow> u64 \<Rightarrow> u64 \<Rightarrow> nat \<Rightarrow> int + (u64 \<times> u64 \<times> nat)" where
  "memcmp_loop t m l r len =
     (if sizeof t \<le> len
      then let left_ch = le_word (load m l (sizeof t)); right_ch = le_word (load m r (sizeof t))
           in if left_ch \<noteq> right_ch then Inl (char_diff t left_ch right_ch)
              else memcmp_loop t m (l + of_nat (sizeof t)) (r + of_nat (sizeof t)) (len - sizeof t)
      else Inr (l, r, len))"
  by pat_completeness auto

lemma sizeof_pos [simp]: "0 < sizeof t"
  by (cases t) simp_all

termination memcmp_loop
  by (relation "measure (\<lambda>(t, m, l, r, len). len)") (auto intro!: diff_less intro: less_le_trans [OF sizeof_pos])

function memcmp_pair_loop :: "mem \<Rightarrow> u64 \<Rightarrow> u64 \<Rightarrow> nat \<Rightarrow> int + (u64 \<times> u64 \<times> nat)" where
  "memcmp_pair_loop m l r len =
     (if 16 \<le> len
      then let left_ch = le_word (load m l 8); left_ch_2 = le_word (load m (l + 8) 8);
               right_ch = le_word (load m r 8); right_ch_2 = le_word (load m (r + 8) 8)
           in if left_ch \<noteq> right_ch then Inl (char_diff U64 left_ch right_ch)
              else if left_ch_2 \<noteq> right_ch_2 then Inl (char_diff U64 left_ch_2 right_ch_2)
              else memcmp_pair_loop m (l + 16) (r + 16) (len - 16)
      else Inr (l, r, len))"
  by pat_completeness auto

termination memcmp_pair_loop
  by (relation "measure (\<lambda>(m, l, r, len). len)") auto

text \<open>The result, and the pointers and the length stored through the out-parameters, which keep
  their values when a difference is found.\<close>

definition memcmp_type :: "access \<Rightarrow> mem \<Rightarrow> u64 \<Rightarrow> u64 \<Rightarrow> nat \<Rightarrow> int \<times> u64 \<times> u64 \<times> nat" where
  "memcmp_type t m l r len =
     (case memcmp_loop t m l r len of
        Inl d \<Rightarrow> (d, l, r, len)
      | Inr (l', r', len') \<Rightarrow> (0, l', r', len'))"

definition memcmp_uint64 :: "arch \<Rightarrow> mem \<Rightarrow> u64 \<Rightarrow> u64 \<Rightarrow> nat \<Rightarrow> int \<times> u64 \<times> u64 \<times> nat" where
  "memcmp_uint64 a m l r len =
     (if 8 \<le> len
      then case (if a = Aarch64 \<and> 16 \<le> len then memcmp_pair_loop m l r len else Inr (l, r, len)) of
          Inl d \<Rightarrow> (d, l, r, len)
        | Inr (l', r', len') \<Rightarrow>
            if len' < 8 then (0, l', r', len')
            else (case memcmp_loop U64 m l' r' len' of
                    Inl d \<Rightarrow> (d, l, r, len)
                  | Inr (l'', r'', len'') \<Rightarrow> (0, l'', r'', len''))
      else (0, l, r, len))"

definition memcmp :: "arch \<Rightarrow> mem \<Rightarrow> u64 \<Rightarrow> u64 \<Rightarrow> nat \<Rightarrow> int" where
  "memcmp a m l r len =
     (let (res, l, r, len) = memcmp_uint64 a m l r len
      in if res \<noteq> 0 then res else
      let (res, l, r, len) = memcmp_type U32 m l r len
      in if res \<noteq> 0 then res else
      let (res, l, r, len) = memcmp_type U16 m l r len
      in if res \<noteq> 0 then res else
      let (res, l, r, len) = memcmp_type U8 m l r len
      in res)"

section \<open>Copying\<close>

fun rep_movsb :: "mem \<Rightarrow> u64 \<Rightarrow> u64 \<Rightarrow> nat \<Rightarrow> mem" where
  "rep_movsb m dst src 0 = m"
| "rep_movsb m dst src (Suc n) = rep_movsb (m(dst := m src)) (dst + 1) (src + 1) n"

text \<open>The same with the direction flag set, from the last byte down.\<close>

fun rep_movsb_back :: "mem \<Rightarrow> u64 \<Rightarrow> u64 \<Rightarrow> nat \<Rightarrow> mem" where
  "rep_movsb_back m dst src 0 = m"
| "rep_movsb_back m dst src (Suc n) = rep_movsb_back (m(dst := m src)) (dst - 1) (src - 1) n"

function memcpy_type :: "access \<Rightarrow> mem \<Rightarrow> u64 \<Rightarrow> u64 \<Rightarrow> nat \<Rightarrow> mem \<times> u64 \<times> u64 \<times> nat" where
  "memcpy_type t m dst src n =
     (if sizeof t \<le> n
      then memcpy_type t (copy_type t m dst src) (dst + of_nat (sizeof t)) (src + of_nat (sizeof t))
             (n - sizeof t)
      else (m, dst, src, n))"
  by pat_completeness auto

termination memcpy_type
  by (relation "measure (\<lambda>(t, m, dst, src, n). n)") (auto intro!: diff_less intro: less_le_trans [OF sizeof_pos])

definition memcpy_uint64 :: "arch \<Rightarrow> mem \<Rightarrow> u64 \<Rightarrow> u64 \<Rightarrow> nat \<Rightarrow> mem \<times> u64 \<times> u64 \<times> nat" where
  "memcpy_uint64 a m dst src n =
     (if 8 \<le> n
      then let (m, dst, src, n) =
                 (if a = Aarch64 \<and> 16 \<le> n then memcpy_type Pair64 m dst src n else (m, dst, src, n))
           in if n < 8 then (m, dst, src, n) else memcpy_type U64 m dst src n
      else (m, dst, src, n))"

definition memcpy :: "arch \<Rightarrow> mem \<Rightarrow> u64 \<Rightarrow> u64 \<Rightarrow> nat \<Rightarrow> mem \<times> u64" where
  "memcpy a m dst src n =
     (let ret = dst in
      if a = X86_64 \<and> 16 \<le> n then (rep_movsb m dst src n, ret)
      else if 8 \<le> n then
        let (m, dst, src, n) = memcpy_uint64 a m dst src n;
            (m, dst, src, n) = memcpy_type U32 m dst src n;
            (m, dst, src, n) = memcpy_type U16 m dst src n;
            (m, dst, src, n) = memcpy_type U8 m dst src n
        in (m, ret)
      else if 4 \<le> n then
        let (m, dst, src, n) = memcpy_type U32 m dst src n;
            (m, dst, src, n) = memcpy_type U16 m dst src n;
            (m, dst, src, n) = memcpy_type U8 m dst src n
        in (m, ret)
      else if 2 \<le> n then
        let (m, dst, src, n) = memcpy_type U16 m dst src n
        in if n = 0 then (m, dst)
           else let (m, dst, src, n) = memcpy_type U8 m dst src n in (m, ret)
      else let (m, dst, src, n) = memcpy_type U8 m dst src n in (m, ret))"

text \<open>The loop from an offset down, and the number of bytes it leaves.\<close>

function bw_loop :: "access \<Rightarrow> mem \<Rightarrow> u64 \<Rightarrow> u64 \<Rightarrow> nat \<Rightarrow> mem \<times> nat" where
  "bw_loop t m dst src off =
     (let m = copy_type t m (dst + of_nat off) (src + of_nat off)
      in if off < sizeof t then (m, off) else bw_loop t m dst src (off - sizeof t))"
  by pat_completeness auto

termination bw_loop
  by (relation "measure (\<lambda>(t, m, dst, src, off). off)")
    (auto intro!: diff_less simp: not_less intro: less_le_trans [OF sizeof_pos])

definition memcpy_bw_type :: "access \<Rightarrow> mem \<Rightarrow> u64 \<Rightarrow> u64 \<Rightarrow> nat \<Rightarrow> mem \<times> nat" where
  "memcpy_bw_type t m dst src n =
     (if n < sizeof t then (m, n) else bw_loop t m dst src (n - sizeof t))"

definition memcpy_bw_uint64 :: "arch \<Rightarrow> mem \<Rightarrow> u64 \<Rightarrow> u64 \<Rightarrow> nat \<Rightarrow> mem \<times> nat" where
  "memcpy_bw_uint64 a m dst src n =
     (if n < 8 then (m, n)
      else let off = n - 8 in
        if a = Aarch64 \<and> 16 \<le> n
        then let (m, off) = bw_loop Pair64 m dst src (off - 8)
             in if off < 8 then (m, off) else bw_loop U64 m dst src off
        else bw_loop U64 m dst src off)"

definition memmove :: "arch \<Rightarrow> mem \<Rightarrow> u64 \<Rightarrow> u64 \<Rightarrow> nat \<Rightarrow> mem \<times> u64" where
  "memmove a m dst src n =
     (if dst < src then
        if a = X86_64 \<and> 16 \<le> n then (rep_movsb m dst src n, dst)
        else let diff = unat (src - dst) in
          if 8 \<le> diff then (fst (memcpy a m dst src n), dst)
          else if 4 \<le> diff then
            let (m', dst', src', n') = memcpy_type U32 m dst src n;
                (m', dst', src', n') = memcpy_type U16 m' dst' src' n';
                (m', dst', src', n') = memcpy_type U8 m' dst' src' n'
            in (m', dst)
          else if 2 \<le> diff then
            let (m', dst', src', n') = memcpy_type U16 m dst src n;
                (m', dst', src', n') = memcpy_type U8 m' dst' src' n'
            in (m', dst)
          else if 1 \<le> diff then
            let (m', dst', src', n') = memcpy_type U8 m dst src n in (m', dst)
          else (m, dst)
      else
        if a = X86_64 \<and> 16 \<le> n
        then (rep_movsb_back m (dst + of_nat (n - 1)) (src + of_nat (n - 1)) n, dst)
        else let diff = unat (dst - src) in
          if 8 \<le> diff then
            let (m, n) = memcpy_bw_uint64 a m dst src n;
                (m, n) = memcpy_bw_type U32 m dst src n;
                (m, n) = memcpy_bw_type U16 m dst src n;
                (m, n) = memcpy_bw_type U8 m dst src n
            in (m, dst)
          else if 4 \<le> diff then
            let (m, n) = memcpy_bw_type U32 m dst src n;
                (m, n) = memcpy_bw_type U16 m dst src n;
                (m, n) = memcpy_bw_type U8 m dst src n
            in (m, dst)
          else if 2 \<le> diff then
            let (m, n) = memcpy_bw_type U16 m dst src n;
                (m, n) = memcpy_bw_type U8 m dst src n
            in (m, dst)
          else if 1 \<le> diff then
            let (m, n) = memcpy_bw_type U8 m dst src n in (m, dst)
          else (m, dst))"

section \<open>Filling and searching\<close>

function fill_loop :: "access \<Rightarrow> u64 \<Rightarrow> mem \<Rightarrow> u64 \<Rightarrow> nat \<Rightarrow> mem \<times> u64 \<times> nat" where
  "fill_loop t v m dst n =
     (if sizeof t \<le> n
      then fill_loop t v (store m dst (le_bytes (sizeof t) v)) (dst + of_nat (sizeof t)) (n - sizeof t)
      else (m, dst, n))"
  by pat_completeness auto

termination fill_loop
  by (relation "measure (\<lambda>(t, v, m, dst, n). n)") (auto intro!: diff_less intro: less_le_trans [OF sizeof_pos])

text \<open>A register pair stored by \<open>stp\<close> holds the same word twice.\<close>

function fill_pair_loop :: "u64 \<Rightarrow> mem \<Rightarrow> u64 \<Rightarrow> nat \<Rightarrow> mem \<times> u64 \<times> nat" where
  "fill_pair_loop v m dst n =
     (if 16 \<le> n
      then fill_pair_loop v (store m dst (le_bytes 8 v @ le_bytes 8 v)) (dst + 16) (n - 16)
      else (m, dst, n))"
  by pat_completeness auto

termination fill_pair_loop
  by (relation "measure (\<lambda>(v, m, dst, n). n)") auto

fun rep_stosb :: "mem \<Rightarrow> u64 \<Rightarrow> u8 \<Rightarrow> nat \<Rightarrow> mem" where
  "rep_stosb m dst v 0 = m"
| "rep_stosb m dst v (Suc n) = rep_stosb (m(dst := v)) (dst + 1) v n"

definition value64_of :: "int \<Rightarrow> u64" where
  "value64_of val =
     push_bit 56 (of_int val) OR push_bit 48 (of_int val) OR push_bit 40 (of_int val)
     OR push_bit 32 (of_int val) OR push_bit 24 (of_int val) OR push_bit 16 (of_int val)
     OR push_bit 8 (of_int val) OR of_int val"

definition memset :: "arch \<Rightarrow> mem \<Rightarrow> u64 \<Rightarrow> int \<Rightarrow> nat \<Rightarrow> mem \<times> u64" where
  "memset a m dst val n =
     (let ret = dst in
      if a = X86_64 \<and> 48 \<le> n then (rep_stosb m dst (of_int val) n, ret)
      else let (m, dst, n) =
             (if a \<noteq> X86_64 \<and> 8 \<le> n
              then let value64 = value64_of val;
                       (m, dst, n) = (if a = Aarch64 then fill_pair_loop value64 m dst n else (m, dst, n));
                       (m, dst, n) = fill_loop U64 value64 m dst n;
                       (m, dst, n) = fill_loop U32 value64 m dst n
                   in fill_loop U16 value64 m dst n
              else (m, dst, n))
           in (rep_stosb m dst (of_int val) n, ret))"

fun memchr :: "mem \<Rightarrow> u64 \<Rightarrow> int \<Rightarrow> nat \<Rightarrow> u64 option" where
  "memchr m ptr ch 0 = None"
| "memchr m ptr ch (Suc count) =
     (if uint (m ptr) = ch then Some ptr else memchr m (ptr + 1) ch count)"

text \<open>\<open>cbo_size\<close> is the size of the block that \<open>cbo.zero\<close> clears, zero where there is no such
  instruction.\<close>

function cbo_loop :: "nat \<Rightarrow> mem \<Rightarrow> u64 \<Rightarrow> nat \<Rightarrow> mem \<times> u64 \<times> nat" where
  "cbo_loop cbo_size m dst n =
     (if 0 < cbo_size \<and> cbo_size \<le> n
      then cbo_loop cbo_size (rep_stosb m dst 0 cbo_size) (dst + of_nat cbo_size) (n - cbo_size)
      else (m, dst, n))"
  by pat_completeness auto

termination cbo_loop
  by (relation "measure (\<lambda>(cbo_size, m, dst, n). n)") auto

definition bzero :: "arch \<Rightarrow> nat \<Rightarrow> mem \<Rightarrow> u64 \<Rightarrow> nat \<Rightarrow> mem" where
  "bzero a cbo_size m dst n =
     (if a = X86_64 \<and> 48 \<le> n then rep_stosb m dst 0 n
      else let (m, dst, n) =
             (if a = Aarch64 then fill_pair_loop 0 m dst n
              else if a = Riscv64 \<and> cbo_size \<noteq> 0 \<and> has_align dst (of_nat cbo_size) = Some True
              then cbo_loop cbo_size m dst n
              else (m, dst, n));
           (m, dst, n) = fill_loop U64 0 m dst n
      in if n = 0 then m else
      let (m, dst, n) = fill_loop U32 0 m dst n
      in if n = 0 then m else
      let (m, dst, n) = fill_loop U16 0 m dst n
      in if n = 0 then m else
      let (m, dst, n) = fill_loop U8 0 m dst n
      in m)"

declare memcmp_loop.simps [simp del] memcmp_pair_loop.simps [simp del] memcpy_type.simps [simp del]
  bw_loop.simps [simp del] fill_loop.simps [simp del] fill_pair_loop.simps [simp del]
  cbo_loop.simps [simp del]

section \<open>Copied regions\<close>

text \<open>The memory in which the \<open>n\<close> bytes at \<open>dst\<close> are those that were at \<open>src\<close>.  An address lies in the
  region of \<open>n\<close> bytes from \<open>dst\<close> on when its distance from \<open>dst\<close>, modulo the size of the address space,
  is less than \<open>n\<close>.\<close>

definition copied :: "mem \<Rightarrow> u64 \<Rightarrow> u64 \<Rightarrow> nat \<Rightarrow> mem" where
  "copied m dst src n = (\<lambda>a. if unat (a - dst) < n then m (src + (a - dst)) else m a)"

text \<open>Copying upwards (downwards) never reads a byte that it has already overwritten.\<close>

definition fwd_safe :: "u64 \<Rightarrow> u64 \<Rightarrow> nat \<Rightarrow> bool" where
  "fwd_safe dst src n \<longleftrightarrow> (\<forall>i j. i < j \<and> j < n \<longrightarrow> src + of_nat j \<noteq> dst + of_nat i)"

definition bwd_safe :: "u64 \<Rightarrow> u64 \<Rightarrow> nat \<Rightarrow> bool" where
  "bwd_safe dst src n \<longleftrightarrow> (\<forall>i j. i < j \<and> j < n \<longrightarrow> src + of_nat i \<noteq> dst + of_nat j)"

lemma offset_above:
  assumes "k \<le> unat (a - d :: u64)"
  shows "unat (a - (d + of_nat k)) = unat (a - d) - k"
proof -
  have k: "unat (of_nat k :: u64) = k"
    by (intro unat_of_nat_no_wrap le_less_trans [OF assms]) simp
  have e: "a - (d + of_nat k) = (a - d) - of_nat k"
    by (simp add: algebra_simps)
  show ?thesis
    unfolding e using assms k by (subst unat_sub) (simp_all add: word_le_nat_alt)
qed

lemma offset_below:
  assumes "unat (a - d :: u64) < k" and "k + n \<le> 2 ^ 64"
  shows "n \<le> unat (a - (d + of_nat k))"
proof (cases "n = 0")
  case False
  let ?x = "a - d"
  have k: "unat (of_nat k :: u64) = k"
    using assms False by (intro unat_of_nat_no_wrap) simp
  have e: "a - (d + of_nat k) = ?x - of_nat k"
    by (simp add: algebra_simps)
  show ?thesis
    unfolding e using assms k unat_sub_if_size [of ?x "of_nat k"] by (simp add: word_size)
qed simp

lemma offset_of: "(a :: u64) = d + of_nat (unat (a - d))"
  by simp

lemma store_load:
  assumes "n \<le> 2 ^ 64"
  shows "store m dst (load m' src n)
    = (\<lambda>a. if unat (a - dst) < n then m' (src + (a - dst)) else m a)"
  using assms
proof (induction n arbitrary: m dst src)
  case (Suc n)
  have "(if unat (a - (dst + 1)) < n then m' (src + 1 + (a - (dst + 1))) else (m(dst := m' src)) a)
      = (if unat (a - dst) < Suc n then m' (src + (a - dst)) else m a)" for a
  proof (cases "unat (a - dst) < 1")
    case True
    then have "a = dst"
      by (simp add: unat_eq_0)
    then show ?thesis
      using offset_below [of a dst 1 n] Suc.prems by simp
  next
    case False
    then have "a \<noteq> dst" and "unat (a - (dst + 1)) = unat (a - dst) - 1"
      using offset_above [of 1 a dst] by auto
    then show ?thesis
      using False by (simp add: less_Suc_eq_le Suc_diff_le less_diff_conv algebra_simps)
        (metis One_nat_def Suc_leI Suc_pred diff_le_mono less_Suc_eq_le not_less)
  qed
  then show ?case
    using Suc by simp
qed simp

lemma copy_type_copied: "copy_type t m dst src = copied m dst src (sizeof t)"
  unfolding copy_type_def copied_def by (rule store_load) (cases t; simp)

lemma copied_0 [simp]: "copied m dst src 0 = m"
  by (simp add: copied_def)

lemma copied_same [simp]: "copied m dst dst n = m"
  by (simp add: copied_def fun_eq_iff)

lemma load_nth: "load m a n = map (\<lambda>i. m (a + of_nat i)) [0..<n]"
proof (induction n arbitrary: a)
  case (Suc n)
  then show ?case
    by (subst upt_conv_Cons) (simp_all add: map_Suc_upt [symmetric] add.assoc del: upt_Suc)
qed simp

lemma load_copied: "n \<le> 2 ^ 64 \<Longrightarrow> load (copied m dst src n) dst n = load m src n"
  by (auto simp: load_nth copied_def unat_of_nat_no_wrap)

lemma copied_forward:
  assumes "k + n \<le> 2 ^ 64" and "fwd_safe dst src (k + n)"
  shows "copied (copied m dst src k) (dst + of_nat k) (src + of_nat k) n = copied m dst src (k + n)"
proof (rule ext)
  fix a
  let ?x = "a - dst"
  have shift: "src + of_nat k + (a - (dst + of_nat k)) = src + ?x"
    by (simp add: algebra_simps)
  consider "unat ?x < k" | "k \<le> unat ?x" "unat ?x < k + n" | "k + n \<le> unat ?x"
    by linarith
  then show "copied (copied m dst src k) (dst + of_nat k) (src + of_nat k) n a
      = copied m dst src (k + n) a"
  proof cases
    case 1
    then show ?thesis
      using offset_below [of a dst k n] assms(1) by (simp add: copied_def)
  next
    case 2
    have "\<not> unat (src + ?x - dst) < k"
    proof
      assume u: "unat (src + ?x - dst) < k"
      have "src + of_nat (unat ?x) = dst + of_nat (unat (src + ?x - dst))"
        by simp
      with assms(2) u 2 show False
        unfolding fwd_safe_def by (meson less_le_trans)
    qed
    moreover have "unat (a - (dst + of_nat k)) < n"
      using 2 offset_above [of k a dst] by simp
    ultimately show ?thesis
      using 2 by (simp only: copied_def if_True if_False shift)
  next
    case 3
    then have "\<not> unat (a - (dst + of_nat k)) < n" and "\<not> unat ?x < k"
      using offset_above [of k a dst] by auto
    then show ?thesis
      using 3 by (simp add: copied_def)
  qed
qed

lemma copied_backward:
  assumes "k + n \<le> 2 ^ 64" and "bwd_safe dst src (k + n)"
  shows "copied (copied m (dst + of_nat k) (src + of_nat k) n) dst src k = copied m dst src (k + n)"
proof (rule ext)
  fix a
  let ?x = "a - dst"
  have shift: "src + of_nat k + (a - (dst + of_nat k)) = src + ?x"
    by (simp add: algebra_simps)
  consider "unat ?x < k" | "k \<le> unat ?x" "unat ?x < k + n" | "k + n \<le> unat ?x"
    by linarith
  then show "copied (copied m (dst + of_nat k) (src + of_nat k) n) dst src k a
      = copied m dst src (k + n) a"
  proof cases
    case 1
    let ?y = "unat (src + ?x - (dst + of_nat k))"
    have "\<not> ?y < n"
    proof
      assume y: "?y < n"
      have "src + of_nat (unat ?x) = dst + of_nat (k + ?y)"
        by (simp add: algebra_simps)
      with assms(2) y 1 show False
        unfolding bwd_safe_def by (meson add_less_cancel_left trans_less_add1)
    qed
    then show ?thesis
      using 1 by (simp add: copied_def)
  next
    case 2
    then have "unat (a - (dst + of_nat k)) < n"
      using offset_above [of k a dst] by simp
    then show ?thesis
      using 2 shift by (simp add: copied_def)
  next
    case 3
    then have "\<not> unat (a - (dst + of_nat k)) < n"
      using offset_above [of k a dst] by auto
    then show ?thesis
      using 3 by (simp add: copied_def)
  qed
qed

lemma fwd_safe_mono: "fwd_safe dst src n \<Longrightarrow> k \<le> n \<Longrightarrow> fwd_safe dst src k"
  by (simp add: fwd_safe_def)

lemma bwd_safe_mono: "bwd_safe dst src n \<Longrightarrow> k \<le> n \<Longrightarrow> bwd_safe dst src k"
  by (simp add: bwd_safe_def)

section \<open>Copying loops\<close>

text \<open>The state of a forward copy of \<open>n0\<close> bytes after some of them: the memory, the two pointers and
  the number of bytes left.\<close>

definition copies :: "mem \<Rightarrow> u64 \<Rightarrow> u64 \<Rightarrow> nat \<Rightarrow> mem \<times> u64 \<times> u64 \<times> nat \<Rightarrow> bool" where
  "copies m0 dst0 src0 n0 = (\<lambda>(m, dst, src, n).
     n \<le> n0 \<and> m = copied m0 dst0 src0 (n0 - n)
     \<and> dst = dst0 + of_nat (n0 - n) \<and> src = src0 + of_nat (n0 - n))"

lemma copies_start [simp]: "copies m dst src n (m, dst, src, n)"
  by (simp add: copies_def)

lemma copies_end: "copies m0 dst0 src0 n0 (m, dst, src, 0) \<Longrightarrow> m = copied m0 dst0 src0 n0"
  by (simp add: copies_def)

lemma copies_chunk:
  assumes safe: "fwd_safe dst0 src0 n0" and small: "n0 \<le> 2 ^ 64"
    and cp: "copies m0 dst0 src0 n0 (m, dst, src, n)" and "k \<le> n"
  shows "copies m0 dst0 src0 n0 (copied m dst src k, dst + of_nat k, src + of_nat k, n - k)"
proof -
  have n: "n \<le> n0"
    using cp by (simp add: copies_def)
  then have e: "n0 - (n - k) = n0 - n + k" and le: "n0 - n + k \<le> n0"
    using assms(4) by auto
  from copied_forward [of "n0 - n" k dst0 src0 m0] show ?thesis
    using cp n le small fwd_safe_mono [OF safe le] by (simp add: copies_def e)
qed

lemma copies_memcpy_type:
  assumes "fwd_safe dst0 src0 n0" and "n0 \<le> 2 ^ 64" and "copies m0 dst0 src0 n0 (m, dst, src, n)"
  shows "copies m0 dst0 src0 n0 (memcpy_type t m dst src n)
    \<and> snd (snd (snd (memcpy_type t m dst src n))) = n mod sizeof t"
  using assms(3)
proof (induction t m dst src n rule: memcpy_type.induct)
  case (1 t m dst src n)
  show ?case
  proof (cases "sizeof t \<le> n")
    case True
    from copies_chunk [OF assms(1,2) "1.prems" True] "1.IH" [OF True] True show ?thesis
      by (simp add: memcpy_type.simps [of t m] copy_type_copied le_mod_geq)
  next
    case False
    with "1.prems" show ?thesis
      by (simp add: memcpy_type.simps [of t m])
  qed
qed

lemma rep_movsb_copies:
  assumes "fwd_safe dst0 src0 n0" and "n0 \<le> 2 ^ 64" and "copies m0 dst0 src0 n0 (m, dst, src, n)"
  shows "rep_movsb m dst src n = copied m0 dst0 src0 n0"
  using assms(3)
proof (induction n arbitrary: m dst src)
  case 0
  then show ?case
    by (simp add: copies_def)
next
  case (Suc n)
  have "m(dst := m src) = copied m dst src 1"
    by (auto simp: copied_def fun_eq_iff unat_eq_0)
  with copies_chunk [OF assms(1,2) Suc.prems, of 1] Suc.IH show ?case
    by simp
qed

lemma copies_memcpy_typeE:
  assumes "memcpy_type t m dst src n = (m', dst', src', n')" and "fwd_safe dst0 src0 n0"
    and "n0 \<le> 2 ^ 64" and "copies m0 dst0 src0 n0 (m, dst, src, n)"
  shows "copies m0 dst0 src0 n0 (m', dst', src', n')" and "n' = n mod sizeof t"
  using copies_memcpy_type [OF assms(2-4), of t] unfolding assms(1) by auto

lemma copies_memcpy_uint64E:
  assumes "memcpy_uint64 a m dst src n = (m', dst', src', n')" and "fwd_safe dst0 src0 n0"
    and "n0 \<le> 2 ^ 64" and "copies m0 dst0 src0 n0 (m, dst, src, n)"
  shows "copies m0 dst0 src0 n0 (m', dst', src', n')"
proof (cases "a = Aarch64 \<and> 16 \<le> n")
  case True
  obtain m1 dst1 src1 n1 where 1: "memcpy_type Pair64 m dst src n = (m1, dst1, src1, n1)"
    by (metis prod_cases4)
  have c1: "copies m0 dst0 src0 n0 (m1, dst1, src1, n1)"
    by (rule copies_memcpy_typeE(1) [OF 1 assms(2-4)])
  show ?thesis
    using assms(1) True 1 c1 copies_memcpy_typeE(1) [OF _ assms(2,3) c1, of U64]
    by (auto simp: memcpy_uint64_def split: if_splits)
next
  case False
  then show ?thesis
    using assms(1,4) copies_memcpy_typeE(1) [OF _ assms(2-4), of U64]
    by (auto simp: memcpy_uint64_def split: if_splits)
qed

text \<open>The tails of the copying functions: smaller and smaller accesses until nothing is left.\<close>

lemma copies_tail8:
  assumes "fwd_safe dst0 src0 n0" and "n0 \<le> 2 ^ 64" and "copies m0 dst0 src0 n0 (m, dst, src, n)"
    and "memcpy_type U8 m dst src n = (m', dst', src', n')"
  shows "m' = copied m0 dst0 src0 n0"
  using copies_memcpy_typeE [OF assms(4,1-3)] by (auto intro: copies_end)

lemma copies_tail16:
  assumes "fwd_safe dst0 src0 n0" and "n0 \<le> 2 ^ 64" and "copies m0 dst0 src0 n0 (m, dst, src, n)"
    and "memcpy_type U16 m dst src n = (m1, d1, s1, n1)"
    and "memcpy_type U8 m1 d1 s1 n1 = (m', dst', src', n')"
  shows "m' = copied m0 dst0 src0 n0"
  by (rule copies_tail8 [OF assms(1,2) copies_memcpy_typeE(1) [OF assms(4,1-3)] assms(5)])

lemma copies_tail32:
  assumes "fwd_safe dst0 src0 n0" and "n0 \<le> 2 ^ 64" and "copies m0 dst0 src0 n0 (m, dst, src, n)"
    and "memcpy_type U32 m dst src n = (m1, d1, s1, n1)"
    and "memcpy_type U16 m1 d1 s1 n1 = (m2, d2, s2, n2)"
    and "memcpy_type U8 m2 d2 s2 n2 = (m', dst', src', n')"
  shows "m' = copied m0 dst0 src0 n0"
  by (rule copies_tail16 [OF assms(1,2) copies_memcpy_typeE(1) [OF assms(4,1-3)] assms(5,6)])

lemma copies_tail64:
  assumes "fwd_safe dst0 src0 n0" and "n0 \<le> 2 ^ 64" and "copies m0 dst0 src0 n0 (m, dst, src, n)"
    and "memcpy_uint64 a m dst src n = (m1, d1, s1, n1)"
    and "memcpy_type U32 m1 d1 s1 n1 = (m2, d2, s2, n2)"
    and "memcpy_type U16 m2 d2 s2 n2 = (m3, d3, s3, n3)"
    and "memcpy_type U8 m3 d3 s3 n3 = (m', dst', src', n')"
  shows "m' = copied m0 dst0 src0 n0"
  by (rule copies_tail32 [OF assms(1,2) copies_memcpy_uint64E [OF assms(4,1-3)] assms(5-7)])

lemma memcpy_copied:
  assumes "fwd_safe dst src n" and "n \<le> 2 ^ 64"
  shows "memcpy a m dst src n = (copied m dst src n, if n = 2 then dst + 2 else dst)"
proof -
  note start = assms copies_start
  consider "a = X86_64 \<and> 16 \<le> n" | "\<not> (a = X86_64 \<and> 16 \<le> n)" "8 \<le> n" | "4 \<le> n" "n < 8"
    | "2 \<le> n" "n < 4" | "n < 2"
    by linarith
  then show ?thesis
  proof cases
    case 1
    then show ?thesis
      using rep_movsb_copies [OF start] by (simp add: memcpy_def)
  next
    case 2
    then show ?thesis
      using copies_tail64 [OF start, of a m]
      by (simp add: memcpy_def Let_def split: prod.splits) blast
  next
    case 3
    then show ?thesis
      using copies_tail32 [OF start, of m]
      by (simp add: memcpy_def Let_def split: prod.splits) blast
  next
    case 4
    obtain m1 d1 s1 n1 where 1: "memcpy_type U16 m dst src n = (m1, d1, s1, n1)"
      by (metis prod_cases4)
    have c: "copies m dst src n (m1, d1, s1, n1)" "n1 = n mod 2"
      using copies_memcpy_typeE [OF 1 start] by simp_all
    moreover have "n = 2 \<or> n = 3"
      using 4 by linarith
    ultimately show ?thesis
      using 1 copies_tail8 [OF assms c(1)] copies_end [of m dst src n m1 d1 s1]
      by (auto simp: memcpy_def Let_def copies_def split: prod.splits)
  next
    case 5
    then show ?thesis
      using copies_tail8 [OF start, of m]
      by (simp add: memcpy_def Let_def split: prod.splits) blast
  qed
qed

section \<open>Copying downwards\<close>

text \<open>The state of a backward copy of \<open>n0\<close> bytes when the first \<open>n\<close> of them are left.\<close>

definition bcopies :: "mem \<Rightarrow> u64 \<Rightarrow> u64 \<Rightarrow> nat \<Rightarrow> mem \<times> nat \<Rightarrow> bool" where
  "bcopies m0 dst src n0 = (\<lambda>(m, n).
     n \<le> n0 \<and> m = copied m0 (dst + of_nat n) (src + of_nat n) (n0 - n))"

lemma bcopies_start [simp]: "bcopies m dst src n (m, n)"
  by (simp add: bcopies_def)

lemma bcopies_end: "bcopies m0 dst src n0 (m, 0) \<Longrightarrow> m = copied m0 dst src n0"
  by (simp add: bcopies_def)

lemma bwd_safe_shift:
  assumes "bwd_safe dst src n" and "k \<le> n"
  shows "bwd_safe (dst + of_nat k) (src + of_nat k) (n - k)"
  unfolding bwd_safe_def
proof (intro allI impI)
  fix i j
  assume "i < j \<and> j < n - k"
  then have "src + of_nat (k + i) \<noteq> dst + of_nat (k + j)"
    using assms unfolding bwd_safe_def by (metis add_less_cancel_left less_diff_conv add.commute)
  then show "src + of_nat k + of_nat i \<noteq> dst + of_nat k + of_nat j"
    by (simp add: add.assoc)
qed

lemma bcopies_chunk:
  assumes safe: "bwd_safe dst src n0" and small: "n0 \<le> 2 ^ 64"
    and cp: "bcopies m0 dst src n0 (m, off + k)"
  shows "bcopies m0 dst src n0 (copied m (dst + of_nat off) (src + of_nat off) k, off)"
proof -
  have n: "off + k \<le> n0" and m: "m = copied m0 (dst + of_nat off + of_nat k)
      (src + of_nat off + of_nat k) (n0 - (off + k))"
    using cp by (simp_all add: bcopies_def add.assoc)
  have "k + (n0 - (off + k)) = n0 - off"
    using n by simp
  moreover from this have "bwd_safe (dst + of_nat off) (src + of_nat off) (k + (n0 - (off + k)))"
    using bwd_safe_shift [OF safe, of off] n by simp
  ultimately show ?thesis
    using copied_backward [of k "n0 - (off + k)" "dst + of_nat off" "src + of_nat off" m0] n small
    by (simp add: bcopies_def m)
qed

lemma bw_loop_bcopies:
  assumes "bwd_safe dst src n0" and "n0 \<le> 2 ^ 64" and "bcopies m0 dst src n0 (m, off + sizeof t)"
    and "bw_loop t m dst src off = (m', off')"
  shows "bcopies m0 dst src n0 (m', off') \<and> off' < sizeof t \<and> off' \<le> off"
  using assms(3,4)
proof (induction off arbitrary: m rule: less_induct)
  case (less off)
  let ?m = "copied m (dst + of_nat off) (src + of_nat off) (sizeof t)"
  have c: "bcopies m0 dst src n0 (?m, off)"
    by (rule bcopies_chunk [OF assms(1,2) less.prems(1)])
  show ?case
  proof (cases "off < sizeof t")
    case True
    then show ?thesis
      using c less.prems(2) by (auto simp: bw_loop.simps [of t m] copy_type_copied)
  next
    case False
    then have "off - sizeof t < off" and "off - sizeof t + sizeof t = off"
      using sizeof_pos [of t] by linarith+
    with False c less.prems(2) less.IH [of "off - sizeof t" ?m] show ?thesis
      by (simp add: bw_loop.simps [of t m] copy_type_copied)
  qed
qed

lemma memcpy_bw_type_bcopies:
  assumes "bwd_safe dst src n0" and "n0 \<le> 2 ^ 64" and "bcopies m0 dst src n0 (m, n)"
    and "memcpy_bw_type t m dst src n = (m', n')"
  shows "bcopies m0 dst src n0 (m', n') \<and> n' < sizeof t"
proof (cases "n < sizeof t")
  case False
  then show ?thesis
    using bw_loop_bcopies [OF assms(1,2), of m0 m "n - sizeof t" t] assms(3,4)
    by (simp add: memcpy_bw_type_def)
qed (use assms in \<open>simp add: memcpy_bw_type_def\<close>)

text \<open>Copying a word a second time, as the code for aarch64 does after its loop over pairs, changes
  nothing when the regions are at least a word apart.\<close>

lemma recopy:
  assumes "bwd_safe dst src n0" and "n0 \<le> 2 ^ 64" and "bcopies m0 dst src n0 (m, off)"
    and "off + k \<le> n0" and "k \<le> unat (dst - src)"
  shows "copied m (dst + of_nat off) (src + of_nat off) k = m"
proof (rule ext)
  fix a
  let ?d = "dst + of_nat off" and ?s = "src + of_nat off"
  let ?x = "a - ?d"
  have m: "m = copied m0 ?d ?s (n0 - off)"
    using assms(3) by (simp add: bcopies_def)
  show "copied m ?d ?s k a = m a"
  proof (cases "unat ?x < k")
    case True
    let ?j = "unat (?s + ?x - ?d)" and ?i = "unat ?x"
    have eq: "src + of_nat (off + ?i) = dst + of_nat (off + ?j)"
      by (simp add: algebra_simps)
    have "\<not> ?j < n0 - off"
    proof
      assume j: "?j < n0 - off"
      show False
      proof (cases "?i < ?j")
        case True
        then have "off + ?i < off + ?j" "off + ?j < n0"
          using j by auto
        with assms(1) eq show False
          unfolding bwd_safe_def by metis
      next
        case False
        then have "of_nat (?i - ?j) = of_nat (off + ?i) - (of_nat (off + ?j) :: u64)"
          by (subst of_nat_diff [symmetric]) simp_all
        moreover have "dst = src + of_nat (off + ?i) - of_nat (off + ?j)"
          unfolding eq by simp
        ultimately have "dst - src = of_nat (?i - ?j)"
          by simp
        moreover have "?i - ?j < 2 ^ 64"
          using True assms(2,4) by simp
        ultimately have "unat (dst - src) = ?i - ?j"
          by (simp add: unat_of_nat_no_wrap)
        with True assms(5) show False
          by simp
      qed
    qed
    moreover have "?i < n0 - off"
      using True assms(4) by simp
    ultimately show ?thesis
      using True unfolding m copied_def by simp
  qed (simp add: copied_def)
qed

lemma memcpy_bw_uint64_bcopies:
  assumes "bwd_safe dst src n0" and "n0 \<le> 2 ^ 64" and "8 \<le> unat (dst - src)"
    and "memcpy_bw_uint64 a m0 dst src n0 = (m', n')"
  shows "bcopies m0 dst src n0 (m', n')"
proof (cases "a = Aarch64 \<and> 16 \<le> n0")
  case False
  then show ?thesis
    using assms(4) bw_loop_bcopies [OF assms(1,2), of m0 m0 "n0 - 8" U64]
    by (auto simp: memcpy_bw_uint64_def split: if_splits)
next
  case True
  obtain m1 off where 1: "bw_loop Pair64 m0 dst src (n0 - 8 - 8) = (m1, off)"
    by fastforce
  have c: "bcopies m0 dst src n0 (m1, off)" "off \<le> n0 - 8 - 8"
    using bw_loop_bcopies [OF assms(1,2) _ 1, of m0] True by simp_all
  show ?thesis
  proof (cases "off < 8")
    case False
    have "off + 8 \<le> n0"
      using c(2) True by linarith
    then have "copied m1 (dst + of_nat off) (src + of_nat off) 8 = m1"
      by (rule recopy [OF assms(1,2) c(1) _ assms(3)])
    then have "bw_loop U64 m1 dst src off = bw_loop U64 m1 dst src (off - 8)"
      using False by (subst bw_loop.simps) (simp add: copy_type_copied)
    then show ?thesis
      using assms(4) 1 True False c(1) bw_loop_bcopies [OF assms(1,2), of m0 m1 "off - 8" U64]
      by (simp add: memcpy_bw_uint64_def)
  qed (use assms(4) 1 True c(1) in \<open>simp add: memcpy_bw_uint64_def\<close>)
qed

lemma rep_movsb_back_bcopies:
  assumes "bwd_safe dst src n0" and "n0 \<le> 2 ^ 64" and "bcopies m0 dst src n0 (m, n)"
  shows "rep_movsb_back m (dst + of_nat n - 1) (src + of_nat n - 1) n = copied m0 dst src n0"
  using assms(3)
proof (induction n arbitrary: m)
  case 0
  then show ?case
    by (simp add: bcopies_end)
next
  case (Suc n)
  have "m(dst + of_nat n := m (src + of_nat n)) = copied m (dst + of_nat n) (src + of_nat n) 1"
    by (auto simp: copied_def fun_eq_iff unat_eq_0)
  with bcopies_chunk [OF assms(1,2), of m0 m n 1] Suc show ?case
    by (simp add: algebra_simps)
qed

lemma bcopies_tail8:
  assumes "bwd_safe dst src n0" and "n0 \<le> 2 ^ 64" and "bcopies m0 dst src n0 (m, n)"
    and "memcpy_bw_type U8 m dst src n = (m', n')"
  shows "m' = copied m0 dst src n0"
  using memcpy_bw_type_bcopies [OF assms] by (auto intro: bcopies_end)

lemma bcopies_tail16:
  assumes "bwd_safe dst src n0" and "n0 \<le> 2 ^ 64" and "bcopies m0 dst src n0 (m, n)"
    and "memcpy_bw_type U16 m dst src n = (m1, n1)" and "memcpy_bw_type U8 m1 dst src n1 = (m', n')"
  shows "m' = copied m0 dst src n0"
  using bcopies_tail8 [OF assms(1,2) _ assms(5)] memcpy_bw_type_bcopies [OF assms(1-4)] by blast

lemma bcopies_tail32:
  assumes "bwd_safe dst src n0" and "n0 \<le> 2 ^ 64" and "bcopies m0 dst src n0 (m, n)"
    and "memcpy_bw_type U32 m dst src n = (m1, n1)" and "memcpy_bw_type U16 m1 dst src n1 = (m2, n2)"
    and "memcpy_bw_type U8 m2 dst src n2 = (m', n')"
  shows "m' = copied m0 dst src n0"
  using bcopies_tail16 [OF assms(1,2) _ assms(5,6)] memcpy_bw_type_bcopies [OF assms(1-4)] by blast

lemma bcopies_tail64:
  assumes "bwd_safe dst src n0" and "n0 \<le> 2 ^ 64" and "8 \<le> unat (dst - src)"
    and "memcpy_bw_uint64 a m0 dst src n0 = (m1, n1)"
    and "memcpy_bw_type U32 m1 dst src n1 = (m2, n2)" and "memcpy_bw_type U16 m2 dst src n2 = (m3, n3)"
    and "memcpy_bw_type U8 m3 dst src n3 = (m', n')"
  shows "m' = copied m0 dst src n0"
  using bcopies_tail32 [OF assms(1,2) memcpy_bw_uint64_bcopies [OF assms(1-4)] assms(5-7)] .

lemma unat_plus_of_nat:
  assumes "unat (x :: u64) + n \<le> 2 ^ 64" and "i < n"
  shows "unat (x + of_nat i) = unat x + i"
proof -
  have "unat (of_nat i :: u64) = i"
    using assms by (intro unat_of_nat_no_wrap) simp
  then show ?thesis
    using assms by (subst unat_add_no_wrap) simp_all
qed

lemma move_safe:
  assumes "unat dst + n \<le> 2 ^ 64" and "unat src + n \<le> 2 ^ 64"
  shows "dst \<le> src \<Longrightarrow> fwd_safe dst src n" and "src \<le> dst \<Longrightarrow> bwd_safe dst src n"
proof -
  note u = unat_plus_of_nat [OF assms(1)] unat_plus_of_nat [OF assms(2)]
  show "fwd_safe dst src n" if "dst \<le> src"
    unfolding fwd_safe_def
  proof (intro allI impI)
    fix i j
    assume "i < j \<and> j < n"
    moreover have "unat dst \<le> unat src"
      using that by (simp add: word_le_nat_alt)
    ultimately have "unat (dst + of_nat i) < unat (src + of_nat j)"
      using u by simp
    then show "src + of_nat j \<noteq> dst + of_nat i"
      by auto
  qed
  show "bwd_safe dst src n" if "src \<le> dst"
    unfolding bwd_safe_def
  proof (intro allI impI)
    fix i j
    assume "i < j \<and> j < n"
    moreover have "unat src \<le> unat dst"
      using that by (simp add: word_le_nat_alt)
    ultimately have "unat (src + of_nat i) < unat (dst + of_nat j)"
      using u by simp
    then show "src + of_nat i \<noteq> dst + of_nat j"
      by auto
  qed
qed

lemma memmove_up:
  assumes "fwd_safe dst src n" and "n \<le> 2 ^ 64" and "dst < src"
  shows "memmove a m dst src n = (copied m dst src n, dst)"
proof -
  note start = assms(1,2) copies_start
  have diff: "unat (src - dst) \<noteq> 0"
    using assms(3) by (simp add: unat_eq_0)
  consider "a = X86_64 \<and> 16 \<le> n" | "\<not> (a = X86_64 \<and> 16 \<le> n)" "8 \<le> unat (src - dst)"
    | "\<not> (a = X86_64 \<and> 16 \<le> n)" "4 \<le> unat (src - dst)" "unat (src - dst) < 8"
    | "\<not> (a = X86_64 \<and> 16 \<le> n)" "2 \<le> unat (src - dst)" "unat (src - dst) < 4"
    | "\<not> (a = X86_64 \<and> 16 \<le> n)" "1 \<le> unat (src - dst)" "unat (src - dst) < 2"
    using diff by linarith
  then show ?thesis
  proof cases
    case 1
    then show ?thesis
      using rep_movsb_copies [OF start] assms(3) by (simp add: memmove_def)
  next
    case 2
    then show ?thesis
      using assms(3) memcpy_copied [OF assms(1,2)] by (auto simp: memmove_def Let_def)
  next
    case 3
    then show ?thesis
      using copies_tail32 [OF start, of m] assms(3)
      by (simp add: memmove_def Let_def split: prod.splits) blast
  next
    case 4
    then show ?thesis
      using copies_tail16 [OF start, of m] assms(3)
      by (simp add: memmove_def Let_def split: prod.splits) blast
  next
    case 5
    then show ?thesis
      using copies_tail8 [OF start, of m] assms(3)
      by (simp add: memmove_def Let_def split: prod.splits) blast
  qed
qed

lemma memmove_down:
  assumes "bwd_safe dst src n" and "n \<le> 2 ^ 64" and "src \<le> dst"
  shows "memmove a m dst src n = (copied m dst src n, dst)"
proof -
  note start = assms(1,2) bcopies_start
  have nlt: "\<not> dst < src"
    using assms(3) by simp
  consider "a = X86_64 \<and> 16 \<le> n" | "\<not> (a = X86_64 \<and> 16 \<le> n)" "8 \<le> unat (dst - src)"
    | "\<not> (a = X86_64 \<and> 16 \<le> n)" "4 \<le> unat (dst - src)" "unat (dst - src) < 8"
    | "\<not> (a = X86_64 \<and> 16 \<le> n)" "2 \<le> unat (dst - src)" "unat (dst - src) < 4"
    | "\<not> (a = X86_64 \<and> 16 \<le> n)" "1 \<le> unat (dst - src)" "unat (dst - src) < 2"
    | "\<not> (a = X86_64 \<and> 16 \<le> n)" "unat (dst - src) = 0"
    by linarith
  then show ?thesis
  proof cases
    case 1
    then have "of_nat (n - 1) = (of_nat n - 1 :: u64)"
      by simp
    then show ?thesis
      using 1 nlt rep_movsb_back_bcopies [OF start, of m] by (simp add: memmove_def add_diff_eq)
  next
    case 2
    then show ?thesis
      using bcopies_tail64 [OF assms(1,2) 2(2), of a m] nlt
      by (simp add: memmove_def Let_def split: prod.splits) blast
  next
    case 3
    then show ?thesis
      using bcopies_tail32 [OF start, of m] nlt
      by (simp add: memmove_def Let_def split: prod.splits) blast
  next
    case 4
    then show ?thesis
      using bcopies_tail16 [OF start, of m] nlt
      by (simp add: memmove_def Let_def split: prod.splits) blast
  next
    case 5
    then show ?thesis
      using bcopies_tail8 [OF start, of m] nlt
      by (auto simp: memmove_def Let_def split: prod.splits)
  next
    case 6
    then have "dst = src"
      by (simp add: unat_eq_0)
    then show ?thesis
      using 6 by (auto simp: memmove_def)
  qed
qed

lemma disjoint_fwd_safe:
  assumes "n \<le> unat (dst - src)"
  shows "fwd_safe dst src n"
  unfolding fwd_safe_def
proof (intro allI impI notI)
  fix i j
  assume ij: "i < j \<and> j < n" and eq: "src + of_nat j = dst + (of_nat i :: u64)"
  have "of_nat (j - i) = of_nat j - (of_nat i :: u64)"
    using ij by (simp add: of_nat_diff)
  moreover have "dst = src + of_nat j - of_nat i"
    unfolding eq by simp
  ultimately have "dst - src = of_nat (j - i)"
    by simp
  moreover have "unat (of_nat (j - i) :: u64) \<le> j - i"
    by (simp add: unat_of_nat)
  ultimately have "unat (dst - src) \<le> j - i"
    by (simp only:)
  then show False
    using assms ij by linarith
qed

text \<open>C31: on every architecture, for every length, \<open>memcpy\<close> between disjoint regions makes the
  destination a copy of the source and changes nothing else.  It returns the destination, except for
  two bytes, when it returns the address behind them.\<close>

theorem memcpy_correct:
  assumes "n \<le> unat (dst - src)" and "n \<le> unat (src - dst)"
  shows "memcpy a m dst src n = (copied m dst src n, if n = 2 then dst + 2 else dst)
    \<and> load (fst (memcpy a m dst src n)) dst n = load m src n"
proof -
  have n: "n \<le> 2 ^ 64"
    by (rule le_trans [OF assms(1)], rule less_imp_le) simp
  have e: "memcpy a m dst src n = (copied m dst src n, if n = 2 then dst + 2 else dst)"
    by (rule memcpy_copied [OF disjoint_fwd_safe [OF assms(1)] n])
  show ?thesis
    unfolding e by (simp add: load_copied [OF n])
qed

theorem memcpy_correct_witness:
  "(5 :: nat) \<le> unat (4096 - 8192 :: u64) \<and> (5 :: nat) \<le> unat (8192 - 4096 :: u64)
    \<and> load (fst (memcpy Aarch64 (\<lambda>a. ucast a) 4096 8192 5)) 4096 5 = [0, 1, 2, 3, 4]"
  using memcpy_correct [of 5 4096 8192 Aarch64 "\<lambda>a. ucast a"]
  by (simp add: load_nth upt_conv_Cons copied_def)

text \<open>C30: on every architecture, \<open>memmove\<close> between regions that do not wrap around makes the
  destination a copy of what the source was, however the two overlap, changes nothing else and
  returns the destination.\<close>

theorem memmove_correct:
  assumes "unat dst + n \<le> 2 ^ 64" and "unat src + n \<le> 2 ^ 64"
  shows "memmove a m dst src n = (copied m dst src n, dst)
    \<and> load (fst (memmove a m dst src n)) dst n = load m src n"
proof -
  have n: "n \<le> 2 ^ 64"
    using assms(1) by simp
  have e: "memmove a m dst src n = (copied m dst src n, dst)"
  proof (cases "dst < src")
    case True
    then show ?thesis
      using memmove_up move_safe(1) [OF assms] n by simp
  next
    case False
    then show ?thesis
      using memmove_down move_safe(2) [OF assms] n by simp
  qed
  show ?thesis
    unfolding e by (simp add: load_copied [OF n])
qed

theorem memmove_correct_witness:
  "load (fst (memmove Aarch64 (\<lambda>a. ucast a) 4099 4096 5)) 4099 5 = [0, 1, 2, 3, 4]"
  using memmove_correct [of 4099 5 4096 Aarch64 "\<lambda>a. ucast a"]
  by (simp add: load_nth upt_conv_Cons copied_def)

section \<open>Filled regions\<close>

definition filled :: "mem \<Rightarrow> u64 \<Rightarrow> nat \<Rightarrow> u8 \<Rightarrow> mem" where
  "filled m dst n c = (\<lambda>a. if unat (a - dst) < n then c else m a)"

lemma filled_0 [simp]: "filled m dst 0 c = m"
  by (simp add: filled_def)

lemma filled_1: "filled m dst (Suc 0) c = m(dst := c)"
  by (auto simp: filled_def fun_eq_iff unat_eq_0)

lemma filled_filled:
  assumes "k + n \<le> 2 ^ 64"
  shows "filled (filled m dst k c) (dst + of_nat k) n c = filled m dst (k + n) c"
proof (rule ext)
  fix a
  show "filled (filled m dst k c) (dst + of_nat k) n c a = filled m dst (k + n) c a"
    using offset_above [of k a dst] offset_below [of a dst k n] assms
    by (cases "k \<le> unat (a - dst)") (auto simp: filled_def)
qed

lemma store_replicate:
  assumes "k \<le> 2 ^ 64"
  shows "store m dst (replicate k c) = filled m dst k c"
  using assms
proof (induction k arbitrary: m dst)
  case (Suc k)
  have "store m dst (replicate (Suc k) c) = filled (filled m dst 1 c) (dst + of_nat 1) k c"
    using Suc by (simp add: filled_1)
  also have "\<dots> = filled m dst (Suc k) c"
    using filled_filled [of 1 k] Suc.prems by simp
  finally show ?case .
qed simp

text \<open>The state of filling \<open>n0\<close> bytes after some of them.\<close>

definition fills :: "mem \<Rightarrow> u64 \<Rightarrow> nat \<Rightarrow> u8 \<Rightarrow> mem \<times> u64 \<times> nat \<Rightarrow> bool" where
  "fills m0 dst0 n0 c = (\<lambda>(m, dst, n).
     n \<le> n0 \<and> m = filled m0 dst0 (n0 - n) c \<and> dst = dst0 + of_nat (n0 - n))"

lemma fills_start [simp]: "fills m dst n c (m, dst, n)"
  by (simp add: fills_def)

lemma fills_end: "fills m0 dst0 n0 c (m, dst, 0) \<Longrightarrow> m = filled m0 dst0 n0 c"
  by (simp add: fills_def)

lemma fills_chunk:
  assumes "n0 \<le> 2 ^ 64" and "fills m0 dst0 n0 c (m, dst, n)" and "k \<le> n"
  shows "fills m0 dst0 n0 c (filled m dst k c, dst + of_nat k, n - k)"
proof -
  have n: "n \<le> n0" and m: "m = filled m0 dst0 (n0 - n) c" "dst = dst0 + of_nat (n0 - n)"
    using assms(2) by (auto simp: fills_def)
  have e: "n0 - (n - k) = (n0 - n) + k" and le: "(n0 - n) + k \<le> 2 ^ 64" and "n - k \<le> n0"
    using assms(1,3) n by linarith+
  show ?thesis
    unfolding fills_def case_prod_conv e m filled_filled [OF le] of_nat_add
    using \<open>n - k \<le> n0\<close> by (simp add: add.assoc)
qed

lemma fill_loop_fills:
  assumes "n0 \<le> 2 ^ 64" and "le_bytes (sizeof t) v = replicate (sizeof t) c"
    and "fills m0 dst0 n0 c (m, dst, n)" and "fill_loop t v m dst n = (m', dst', n')"
  shows "fills m0 dst0 n0 c (m', dst', n') \<and> n' = n mod sizeof t"
  using assms(3,4)
proof (induction n arbitrary: m dst rule: less_induct)
  case (less n)
  have "sizeof t \<le> 2 ^ 64"
    by (cases t) simp_all
  note st = store_replicate [OF this]
  show ?case
  proof (cases "sizeof t \<le> n")
    case True
    then have "n - sizeof t < n"
      using sizeof_pos [of t] by linarith
    with less.IH [OF this fills_chunk [OF assms(1) less.prems(1) True]] less.prems(2) True show ?thesis
      by (auto simp: fill_loop.simps [of t v m] assms(2) st le_mod_geq)
  next
    case False
    then show ?thesis
      using less.prems by (simp add: fill_loop.simps [of t v m])
  qed
qed

lemma fill_pair_loop_fills:
  assumes "n0 \<le> 2 ^ 64" and "le_bytes 8 v = replicate 8 c"
    and "fills m0 dst0 n0 c (m, dst, n)" and "fill_pair_loop v m dst n = (m', dst', n')"
  shows "fills m0 dst0 n0 c (m', dst', n')"
  using assms(3,4)
proof (induction n arbitrary: m dst rule: less_induct)
  case (less n)
  have st: "store m dst (le_bytes 8 v @ le_bytes 8 v) = filled m dst 16 c"
    using store_replicate [of 16 m dst c] by (simp add: assms(2) replicate_add [symmetric])
  show ?case
  proof (cases "16 \<le> n")
    case True
    with less.IH [OF _ fills_chunk [OF assms(1) less.prems(1) True]] less.prems(2) st show ?thesis
      by (simp add: fill_pair_loop.simps [of v m])
  next
    case False
    then show ?thesis
      using less.prems by (simp add: fill_pair_loop.simps [of v m])
  qed
qed

lemma rep_stosb_filled:
  assumes "n \<le> 2 ^ 64"
  shows "rep_stosb m dst c n = filled m dst n c"
  using assms
proof (induction n arbitrary: m dst)
  case (Suc n)
  then show ?case
    using filled_filled [of 1 n m dst c] by (simp add: filled_1)
qed simp

lemma cbo_loop_fills:
  assumes "n0 \<le> 2 ^ 64" and "fills m0 dst0 n0 0 (m, dst, n)" and "cbo_loop k m dst n = (m', dst', n')"
  shows "fills m0 dst0 n0 0 (m', dst', n')"
  using assms(2,3)
proof (induction n arbitrary: m dst rule: less_induct)
  case (less n)
  show ?case
  proof (cases "0 < k \<and> k \<le> n")
    case True
    then have "k \<le> 2 ^ 64"
      using assms(1) less.prems(1) by (auto simp: fills_def)
    then have "cbo_loop k m dst n = cbo_loop k (filled m dst k 0) (dst + of_nat k) (n - k)"
      using True by (subst cbo_loop.simps) (simp add: rep_stosb_filled)
    moreover have "fills m0 dst0 n0 0 (filled m dst k 0, dst + of_nat k, n - k)"
      using fills_chunk [OF assms(1) less.prems(1)] True by simp
    ultimately show ?thesis
      using less.IH [of "n - k"] less.prems(2) True by simp
  next
    case False
    then have "cbo_loop k m dst n = (m, dst, n)"
      by (subst cbo_loop.simps) auto
    then show ?thesis
      using less.prems by simp
  qed
qed

lemma le_bytes_replicate:
  assumes "\<And>i. i < k \<Longrightarrow> ucast (drop_bit (8 * i) v) = c"
  shows "le_bytes k v = replicate k c"
  by (rule nth_equalityI) (simp_all add: le_bytes_def assms)

lemma byte_of_push_bit:
  assumes "i < 8" and "k < 8"
  shows "(ucast (drop_bit (8 * i) (push_bit (8 * k) (ucast (b :: u8) :: u64))) :: u8)
    = (if i = k then b else 0)"
proof (rule bit_word_eqI)
  fix j
  assume "j < LENGTH(8)"
  then have j: "j < 8"
    by simp
  have high: "\<not> bit b l" if "8 \<le> l" for l
    using bit_imp_le_length [of b l] that by auto
  consider "i = k" | "8 * i + j < 8 * k" "i \<noteq> k" | "8 \<le> 8 * i + j - 8 * k" "i \<noteq> k"
    using j by linarith
  then show "bit (ucast (drop_bit (8 * i) (push_bit (8 * k) (ucast b :: u64))) :: u8) j
      \<longleftrightarrow> bit (if i = k then b else 0) j"
    using j assms by cases (auto simp: bit_simps high)
qed

lemma value64_of_bytes:
  assumes "0 \<le> val" and "val < 256" and "i < 8"
  shows "ucast (drop_bit (8 * i) (value64_of val)) = (of_int val :: u8)"
proof -
  define b :: u8 where "b = of_int val"
  have x: "(of_int val :: u64) = ucast b"
    using assms(1,2)
    by (intro word_uint_eqI) (simp add: b_def unsigned_ucast_eq uint_word_of_int take_bit_eq_mod)
  have v: "value64_of val = push_bit (8 * 7) (ucast b) OR push_bit (8 * 6) (ucast b)
      OR push_bit (8 * 5) (ucast b) OR push_bit (8 * 4) (ucast b) OR push_bit (8 * 3) (ucast b)
      OR push_bit (8 * 2) (ucast b) OR push_bit (8 * 1) (ucast b) OR push_bit (8 * 0) (ucast b)"
    by (simp add: value64_of_def x)
  have lt: "(7 :: nat) < 8" "(6 :: nat) < 8" "(5 :: nat) < 8" "(4 :: nat) < 8" "(3 :: nat) < 8"
      "(2 :: nat) < 8" "(1 :: nat) < 8" "(0 :: nat) < 8"
    by simp_all
  note byte = byte_of_push_bit [OF assms(3)]
  have "i = 0 \<or> i = 1 \<or> i = 2 \<or> i = 3 \<or> i = 4 \<or> i = 5 \<or> i = 6 \<or> i = 7"
    using assms(3) by linarith
  then show ?thesis
    unfolding v drop_bit_or unsigned_or_eq b_def [symmetric] byte [OF lt(1)] byte [OF lt(2)]
      byte [OF lt(3)] byte [OF lt(4)] byte [OF lt(5)] byte [OF lt(6)] byte [OF lt(7)] byte [OF lt(8)]
    by (elim disjE) simp_all
qed

lemma fill_loops_filled:
  assumes "n0 \<le> 2 ^ 64" and "\<And>k. k \<le> 8 \<Longrightarrow> le_bytes k v = replicate k c"
    and "fills m0 dst0 n0 c (m, dst, n)"
  shows "fill_loop U64 v m dst n = (m1, dst1, n1) \<Longrightarrow> fills m0 dst0 n0 c (m1, dst1, n1)"
    and "fill_loop U32 v m dst n = (m1, dst1, n1) \<Longrightarrow> fills m0 dst0 n0 c (m1, dst1, n1)"
    and "fill_loop U16 v m dst n = (m1, dst1, n1) \<Longrightarrow> fills m0 dst0 n0 c (m1, dst1, n1)"
    and "fill_loop U8 v m dst n = (m1, dst1, n1) \<Longrightarrow> m1 = filled m0 dst0 n0 c"
    and "fill_pair_loop v m dst n = (m1, dst1, n1) \<Longrightarrow> fills m0 dst0 n0 c (m1, dst1, n1)"
    and "rep_stosb m dst c n = filled m0 dst0 n0 c"
proof -
  show "fill_loop U64 v m dst n = (m1, dst1, n1) \<Longrightarrow> fills m0 dst0 n0 c (m1, dst1, n1)"
    and "fill_loop U32 v m dst n = (m1, dst1, n1) \<Longrightarrow> fills m0 dst0 n0 c (m1, dst1, n1)"
    and "fill_loop U16 v m dst n = (m1, dst1, n1) \<Longrightarrow> fills m0 dst0 n0 c (m1, dst1, n1)"
    by (rule fill_loop_fills [OF assms(1) _ assms(3), THEN conjunct1]; simp add: assms(2))+
  show "fill_loop U8 v m dst n = (m1, dst1, n1) \<Longrightarrow> m1 = filled m0 dst0 n0 c"
    using fill_loop_fills [OF assms(1) _ assms(3), of U8 v m1 dst1 n1]
    by (auto simp: assms(2) intro: fills_end)
  show "fill_pair_loop v m dst n = (m1, dst1, n1) \<Longrightarrow> fills m0 dst0 n0 c (m1, dst1, n1)"
    by (rule fill_pair_loop_fills [OF assms(1) _ assms(3)]) (simp_all add: assms(2))
  have "n \<le> 2 ^ 64"
    using assms(1,3) by (simp add: fills_def)
  then show "rep_stosb m dst c n = filled m0 dst0 n0 c"
    using fills_chunk [OF assms(1,3), of n] rep_stosb_filled [of n m dst c] by (auto intro: fills_end)
qed

lemma memset_filled:
  assumes "n \<le> 2 ^ 64" and "0 \<le> val \<and> val < 256 \<or> a = X86_64 \<or> n < 8"
  shows "memset a m dst val n = (filled m dst n (of_int val), dst)"
proof (cases "a \<noteq> X86_64 \<and> 8 \<le> n")
  case False
  then show ?thesis
    using rep_stosb_filled [OF assms(1), of m dst "of_int val"] by (auto simp: memset_def Let_def)
next
  case True
  let ?v = "value64_of val" and ?c = "of_int val :: u8"
  have bytes: "le_bytes k ?v = replicate k ?c" if "k \<le> 8" for k
    using that assms(2) True by (intro le_bytes_replicate value64_of_bytes) auto
  note step = fill_loops_filled [OF assms(1) bytes]
  obtain m1 d1 n1 where 1: "(if a = Aarch64 then fill_pair_loop ?v m dst n else (m, dst, n)) = (m1, d1, n1)"
    by (metis prod_cases3)
  obtain m2 d2 n2 where 2: "fill_loop U64 ?v m1 d1 n1 = (m2, d2, n2)"
    by (metis prod_cases3)
  obtain m3 d3 n3 where 3: "fill_loop U32 ?v m2 d2 n2 = (m3, d3, n3)"
    by (metis prod_cases3)
  obtain m4 d4 n4 where 4: "fill_loop U16 ?v m3 d3 n3 = (m4, d4, n4)"
    by (metis prod_cases3)
  have c1: "fills m dst n ?c (m1, d1, n1)"
    using 1 step(5) [OF _ fills_start] by (auto split: if_splits)
  note c4 = step(3) [OF _ step(2) [OF _ step(1) [OF _ c1 2] 3] 4]
  have "rep_stosb m4 d4 ?c n4 = filled m dst n ?c"
    by (rule step(6) [OF _ c4]) simp_all
  then show ?thesis
    using True 1 2 3 4 by (simp add: memset_def Let_def)
qed

lemma bzero_filled:
  assumes "n \<le> 2 ^ 64"
  shows "bzero a cbo_size m dst n = filled m dst n 0"
proof (cases "a = X86_64 \<and> 48 \<le> n")
  case True
  then show ?thesis
    using rep_stosb_filled [OF assms] by (simp add: bzero_def)
next
  case False
  have bytes: "le_bytes k 0 = replicate k 0" for k
    by (rule le_bytes_replicate) simp
  note step = fill_loops_filled [OF assms bytes]
  obtain m1 d1 n1 where 1: "(if a = Aarch64 then fill_pair_loop 0 m dst n
      else if a = Riscv64 \<and> cbo_size \<noteq> 0 \<and> has_align dst (of_nat cbo_size) = Some True
      then cbo_loop cbo_size m dst n else (m, dst, n)) = (m1, d1, n1)"
    by (metis prod_cases3)
  obtain m2 d2 n2 where 2: "fill_loop U64 0 m1 d1 n1 = (m2, d2, n2)"
    by (metis prod_cases3)
  obtain m3 d3 n3 where 3: "fill_loop U32 0 m2 d2 n2 = (m3, d3, n3)"
    by (metis prod_cases3)
  obtain m4 d4 n4 where 4: "fill_loop U16 0 m3 d3 n3 = (m4, d4, n4)"
    by (metis prod_cases3)
  obtain m5 d5 n5 where 5: "fill_loop U8 0 m4 d4 n4 = (m5, d5, n5)"
    by (metis prod_cases3)
  have c1: "fills m dst n 0 (m1, d1, n1)"
    using 1 step(5) [OF fills_start] cbo_loop_fills [OF assms fills_start] by (auto split: if_splits)
  note c2 = step(1) [OF c1 2]
  note c3 = step(2) [OF c2 3]
  note c4 = step(3) [OF c3 4]
  have "m5 = filled m dst n 0"
    by (rule step(4) [OF c4 5])
  then show ?thesis
    unfolding bzero_def Let_def 1 case_prod_conv 2 3 4 5
    using False c2 c3 c4 by (auto intro: fills_end)
qed

text \<open>C32: on every architecture, \<open>memset\<close> with a byte value and \<open>bzero\<close> set exactly the \<open>n\<close> bytes at
  the destination.  A negative value, which \<open>memset\<close> should truncate to its low byte, is spread over
  the upper bytes of the word it stores outside x86.\<close>

theorem memset_bzero_correct:
  assumes "n \<le> 2 ^ 64" and "0 \<le> val" and "val < 256"
  shows "memset a m dst val n = (filled m dst n (of_int val), dst)
    \<and> bzero a cbo_size m dst n = filled m dst n 0
    \<and> fst (memset Riscv64 m dst (- 2) 8) (dst + 1) = 255"
proof -
  have "le_bytes 8 (value64_of (- 2)) = [254, 255, 255, 255, 255, 255, 255, 255]"
    by code_simp
  then have "fst (memset Riscv64 m dst (- 2) 8) (dst + 1) = 255"
    by (simp add: memset_def Let_def fill_loop.simps)
  then show ?thesis
    using memset_filled [of n val a m dst] bzero_filled [OF assms(1)] assms by simp
qed

theorem memset_bzero_correct_witness:
  "load (fst (memset Loongarch64 (\<lambda>a. 0) 4096 7 3)) 4096 4 = [7, 7, 7, 0]"
  using memset_bzero_correct [of 3 7 Loongarch64 "\<lambda>a. 0" 4096]
  by (simp add: load_nth upt_conv_Cons filled_def)

end
