(* ===== verification/Stdlib_Compare.thy ===== *)
theory Stdlib_Compare
  imports Stdlib
begin

text \<open>
  The comparing and searching functions of \<open>kernel/src/sys/stdlib.c\<close>: equality of memory decided by
  \<open>memcmp\<close>, and what the C-string functions return.
\<close>

section \<open>Comparing memory\<close>

lemma load_add: "load m a (p + q) = load m a p @ load m (a + of_nat p) q"
  by (induction p arbitrary: a) (simp_all add: add.assoc)

lemma length_load [simp]: "length (load m a n) = n"
  by (induction n arbitrary: a) simp_all

lemma digit_less: "b < 256 \<Longrightarrow> w < k \<Longrightarrow> b + 256 * w < 256 * (k :: nat)"
  by linarith

lemma unat_digit:
  assumes "unat (b :: u8) + 256 * unat w < 2 ^ 64"
  shows "unat (ucast b + 256 * w :: u64) = unat b + 256 * unat w"
proof -
  have "unat (256 * w) = 256 * unat w"
    using assms unat_mul_no_wrap [of 256 w] by simp
  then show ?thesis
    using assms unat_add_no_wrap [of "ucast b" "256 * w"] by simp
qed

lemma unat_le_word:
  assumes "length bs < 8"
  shows "unat (le_word (b # bs)) = unat b + 256 * unat (le_word bs)
    \<and> unat (le_word (b # bs)) < 256 ^ length (b # bs)"
  using assms
proof (induction bs arbitrary: b)
  case Nil
  then show ?case
    by simp
next
  case (Cons c bs)
  define w where "w = le_word (c # bs)"
  have le: "le_word (b # c # bs) = ucast b + 256 * w"
    unfolding w_def by (rule le_word.simps)
  have "length bs < 8"
    using Cons.prems by simp
  then have "unat w < 256 ^ length (c # bs)"
    unfolding w_def using Cons.IH by blast
  from digit_less [OF unat_lt_8 [of b] this]
  have small: "unat b + 256 * unat w < 256 ^ length (b # c # bs)"
    by (simp only: length_Cons power_Suc)
  have "256 ^ length (b # c # bs) \<le> (256 :: nat) ^ 8"
    using Cons.prems by (intro power_increasing) simp_all
  also have "(256 :: nat) ^ 8 = 2 ^ 64"
    by simp
  finally have "unat b + 256 * unat w < 2 ^ 64"
    using small by (rule less_le_trans [rotated])
  then show ?case
    unfolding le w_def [symmetric] using small unat_digit [of b w] by (simp only:)
qed

lemma digit_inj:
  assumes "x < 256" and "y < 256" and "x + 256 * a = y + 256 * (b :: nat)"
  shows "x = y \<and> a = b"
proof -
  have "(x + 256 * a) mod 256 = x" and "(y + 256 * b) mod 256 = y"
    using assms(1,2) by simp_all
  with assms(3) show ?thesis
    by simp
qed

lemma le_word_inj:
  assumes "length bs = length cs" and "length bs \<le> 8"
  shows "le_word bs = le_word cs \<longleftrightarrow> bs = cs"
  using assms
proof (induction bs cs rule: list_induct2)
  case (Cons b bs c cs)
  have eq: "unat (le_word (b # bs)) = unat b + 256 * unat (le_word bs)"
      "unat (le_word (c # cs)) = unat c + 256 * unat (le_word cs)"
    using unat_le_word [of bs b] unat_le_word [of cs c] Cons by simp_all
  have "le_word (b # bs) = le_word (c # cs) \<longleftrightarrow> unat (le_word (b # bs)) = unat (le_word (c # cs))"
    by (rule unat_eq_iff)
  also have "\<dots> \<longleftrightarrow> unat b = unat c \<and> unat (le_word bs) = unat (le_word cs)"
    unfolding eq by (rule iffI, erule digit_inj [OF unat_lt_8 unat_lt_8]) simp
  also have "\<dots> \<longleftrightarrow> b # bs = c # cs"
    using Cons by (simp add: unat_eq_iff [symmetric])
  finally show ?case .
qed simp

lemma le_word_load_inj:
  "t \<noteq> Pair64 \<Longrightarrow> le_word (load m l (sizeof t)) = le_word (load m r (sizeof t))
    \<longleftrightarrow> load m l (sizeof t) = load m r (sizeof t)"
  by (rule le_word_inj) (cases t; simp)+

lemma sub_multiple_of_2_32:
  assumes "unat (x :: u64) < 2 ^ 32" and "unat y < 2 ^ 32" and "(ucast (x - y) :: u32) = 0"
  shows "x = y"
proof -
  have "unat (ucast (x - y) :: u32) = 0"
    using assms(3) by simp
  then have z: "unat (x - y) mod 2 ^ 32 = 0"
    by (simp add: unsigned_ucast_eq take_bit_eq_mod)
  show ?thesis
  proof (cases "unat y \<le> unat x")
    case True
    then have "unat (x - y) = unat x - unat y"
      using unat_sub_if_size [of x y] by simp
    with z assms(1) True show ?thesis
      by (simp add: unat_eq_iff)
  next
    case False
    define d where "d = unat y - unat x"
    have "0 < d" "d < 2 ^ 32"
      using False assms(2) by (simp_all add: d_def)
    moreover have u: "unat (x - y) = 2 ^ 64 - d"
      using False unat_sub_if_size [of x y] by (simp add: word_size d_def)
    have "2 ^ 32 dvd (2 :: nat) ^ 64"
      by (rule le_imp_power_dvd) simp
    from dvd_diff_nat [OF this z [unfolded u, folded dvd_eq_mod_eq_0]] have "2 ^ 32 dvd d"
      using \<open>d < 2 ^ 32\<close> by simp
    ultimately show ?thesis
      using nat_dvd_not_less by blast
  qed
qed

lemma char_diff_zero:
  assumes "t = U8 \<or> t = U16 \<or> t = U32" and "load m l (sizeof t) \<noteq> load m r (sizeof t)"
  shows "char_diff t (le_word (load m l (sizeof t))) (le_word (load m r (sizeof t))) \<noteq> 0"
proof -
  let ?l = "le_word (load m l (sizeof t))" and ?r = "le_word (load m r (sizeof t))"
  have ne: "?l \<noteq> ?r"
    using assms le_word_load_inj [of t m l r] by auto
  show ?thesis
  proof (cases "t = U32")
    case False
    then show ?thesis
      using assms(1) ne by (auto simp: word_uint_eq_iff)
  next
    case True
    have "load m x 4 = m x # load m (x + 1) 3" for x
      by (simp add: eval_nat_numeral)
    then have "unat (le_word (load m x 4)) < 2 ^ 32" for x
      using unat_le_word [of "load m (x + 1) 3" "m x"] by simp
    then have "(ucast (?l - ?r) :: u32) \<noteq> 0"
      using sub_multiple_of_2_32 [of ?l ?r] ne True by auto
    then show ?thesis
      using True by (simp add: signed_eq_0_iff)
  qed
qed

text \<open>Where a comparison of \<open>n0\<close> bytes stands when the bytes before the last \<open>n\<close> are equal.\<close>

definition same_so_far :: "mem \<Rightarrow> u64 \<Rightarrow> u64 \<Rightarrow> nat \<Rightarrow> u64 \<times> u64 \<times> nat \<Rightarrow> bool" where
  "same_so_far m l0 r0 n0 = (\<lambda>(l, r, n). n \<le> n0 \<and> l = l0 + of_nat (n0 - n) \<and> r = r0 + of_nat (n0 - n)
     \<and> load m l0 (n0 - n) = load m r0 (n0 - n))"

lemma same_so_far_start [simp]: "same_so_far m l r n (l, r, n)"
  by (simp add: same_so_far_def)

lemma same_so_far_iff:
  assumes "same_so_far m l0 r0 n0 (l, r, n)"
  shows "load m l0 n0 = load m r0 n0 \<longleftrightarrow> load m l n = load m r n"
proof -
  have "n0 = n0 - n + n"
    using assms by (simp add: same_so_far_def)
  then have "load m x n0 = load m x (n0 - n) @ load m (x + of_nat (n0 - n)) n" for x
    using load_add [of m x "n0 - n" n] by simp
  then show ?thesis
    using assms by (simp add: same_so_far_def)
qed

lemma same_so_far_chunk:
  assumes "same_so_far m l0 r0 n0 (l, r, n)" and "k \<le> n" and "load m l k = load m r k"
  shows "same_so_far m l0 r0 n0 (l + of_nat k, r + of_nat k, n - k)"
proof -
  have e: "n0 - (n - k) = (n0 - n) + k"
    using assms(1,2) by (auto simp: same_so_far_def)
  show ?thesis
    using assms unfolding same_so_far_def case_prod_conv e load_add of_nat_add
    by (auto simp: add.assoc)
qed

lemma differ_chunk: "k \<le> n \<Longrightarrow> load m l k \<noteq> load m r k \<Longrightarrow> load m l n \<noteq> load m r n"
  using load_add [of m l k "n - k"] load_add [of m r k "n - k"] by simp

lemma memcmp_loop_cases:
  assumes "t \<noteq> Pair64" and "same_so_far m l0 r0 n0 (l, r, n)"
  shows "case memcmp_loop t m l r n of
      Inl d \<Rightarrow> load m l0 n0 \<noteq> load m r0 n0 \<and> (t \<noteq> U64 \<longrightarrow> d \<noteq> 0)
    | Inr (l', r', n') \<Rightarrow> same_so_far m l0 r0 n0 (l', r', n') \<and> n' < sizeof t"
  using assms(2)
proof (induction n arbitrary: l r rule: less_induct)
  case (less n)
  let ?k = "sizeof t"
  show ?case
  proof (cases "?k \<le> n")
    case True
    show ?thesis
    proof (cases "load m l ?k = load m r ?k")
      case eq: True
      have "n - ?k < n"
        using True sizeof_pos [of t] by linarith
      from less.IH [OF this same_so_far_chunk [OF less.prems True eq]] show ?thesis
        using True eq by (simp add: memcmp_loop.simps [of t m l])
    next
      case ne: False
      then have "le_word (load m l ?k) \<noteq> le_word (load m r ?k)"
        using le_word_load_inj [OF assms(1)] by simp
      moreover have "t \<noteq> U64 \<longrightarrow> char_diff t (le_word (load m l ?k)) (le_word (load m r ?k)) \<noteq> 0"
        using assms(1) char_diff_zero [OF _ ne] by (cases t) simp_all
      ultimately show ?thesis
        using True differ_chunk [OF True ne] same_so_far_iff [OF less.prems]
        by (simp add: memcmp_loop.simps [of t m l])
    qed
  next
    case False
    then show ?thesis
      using less.prems by (simp add: memcmp_loop.simps [of t m l])
  qed
qed

lemma memcmp_pair_loop_cases:
  assumes "same_so_far m l0 r0 n0 (l, r, n)"
  shows "case memcmp_pair_loop m l r n of
      Inl d \<Rightarrow> load m l0 n0 \<noteq> load m r0 n0
    | Inr (l', r', n') \<Rightarrow> same_so_far m l0 r0 n0 (l', r', n')"
  using assms
proof (induction n arbitrary: l r rule: less_induct)
  case (less n)
  have inj: "le_word (load m x 8) = le_word (load m y 8) \<longleftrightarrow> load m x 8 = load m y 8" for x y
    by (rule le_word_inj) simp_all
  have split: "load m x 16 = load m x 8 @ load m (x + 8) 8" for x
    using load_add [of m x 8 8] by simp
  show ?case
  proof (cases "16 \<le> n")
    case True
    show ?thesis
    proof (cases "load m l 16 = load m r 16")
      case eq: True
      from less.IH [OF _ same_so_far_chunk [OF less.prems True eq]] show ?thesis
        using True eq by (simp add: memcmp_pair_loop.simps [of m l] split Let_def inj)
    next
      case False
      then show ?thesis
        using True differ_chunk [OF True False] same_so_far_iff [OF less.prems]
        by (simp add: memcmp_pair_loop.simps [of m l] split Let_def inj)
    qed
  next
    case False
    then show ?thesis
      using less.prems by (simp add: memcmp_pair_loop.simps [of m l])
  qed
qed

text \<open>The 64-bit part: either a difference was found, or what is left decides.\<close>

lemma memcmp_uint64_cases:
  assumes "memcmp_uint64 a m l r n = (d, l', r', n')"
  shows "load m l n \<noteq> load m r n \<and> (l', r', n') = (l, r, n) \<or> d = 0 \<and> same_so_far m l r n (l', r', n')"
proof -
  have 64: "case memcmp_loop U64 m l1 r1 n1 of
      Inl d \<Rightarrow> load m l n \<noteq> load m r n
    | Inr st \<Rightarrow> same_so_far m l r n st" if "same_so_far m l r n (l1, r1, n1)" for l1 r1 n1
    using memcmp_loop_cases [OF _ that, of U64] by (simp split: sum.splits prod.splits)
  show ?thesis
  proof (cases "8 \<le> n")
    case False
    then show ?thesis
      using assms by (simp add: memcmp_uint64_def)
  next
    case True
    define p where "p = (if a = Aarch64 \<and> 16 \<le> n then memcmp_pair_loop m l r n else Inr (l, r, n))"
    have p: "case p of Inl d \<Rightarrow> load m l n \<noteq> load m r n | Inr st \<Rightarrow> same_so_far m l r n st"
      using memcmp_pair_loop_cases [OF same_so_far_start [of m l r n]]
      by (auto simp: p_def split: sum.splits)
    show ?thesis
    proof (cases p)
      case (Inl e)
      then show ?thesis
        using p True assms by (simp add: memcmp_uint64_def p_def [symmetric])
    next
      case (Inr st)
      obtain l1 r1 n1 where st: "st = (l1, r1, n1)"
        by (metis prod_cases3)
      have s1: "same_so_far m l r n (l1, r1, n1)"
        using p Inr st by simp
      show ?thesis
        using 64 [OF s1] s1 True Inr st assms
        by (cases "memcmp_loop U64 m l1 r1 n1")
          (auto simp: memcmp_uint64_def p_def [symmetric] split: if_splits prod.splits)
    qed
  qed
qed

lemma memcmp_type_cases:
  assumes "t = U8 \<or> t = U16 \<or> t = U32" and "same_so_far m l0 r0 n0 (l, r, n)"
    and "memcmp_type t m l r n = (d, l', r', n')"
  shows "(if d = 0 then same_so_far m l0 r0 n0 (l', r', n') \<and> n' < sizeof t
    else load m l0 n0 \<noteq> load m r0 n0)"
  using memcmp_loop_cases [OF _ assms(2), of t] assms(1,3)
  by (auto simp: memcmp_type_def split: sum.splits prod.splits)

lemma memcmp_tail:
  assumes "same_so_far m l0 r0 n0 (l, r, n)"
    and "memcmp_type U32 m l r n = (d1, l1, r1, n1)" and "memcmp_type U16 m l1 r1 n1 = (d2, l2, r2, n2)"
    and "memcmp_type U8 m l2 r2 n2 = (d3, l3, r3, n3)"
  shows "(if d1 \<noteq> 0 then d1 else if d2 \<noteq> 0 then d2 else d3) = 0 \<longleftrightarrow> load m l0 n0 = load m r0 n0"
proof -
  note c1 = memcmp_type_cases [OF _ assms(1,2)]
  have "d1 = 0 \<Longrightarrow> same_so_far m l0 r0 n0 (l1, r1, n1)"
    using c1 by simp
  note c2 = memcmp_type_cases [OF _ this assms(3)]
  have "d1 = 0 \<Longrightarrow> d2 = 0 \<Longrightarrow> same_so_far m l0 r0 n0 (l2, r2, n2)"
    using c2 by simp
  note c3 = memcmp_type_cases [OF _ this assms(4)]
  show ?thesis
    using c1 c2 c3 same_so_far_iff [of m l0 r0 n0 l3 r3 n3] by (auto split: if_splits)
qed

text \<open>C33: on every architecture, \<open>memcmp\<close> returns 0 exactly when the two regions hold the same
  bytes.  The sign of another result is not the order of the first bytes that differ, since
  whole little-endian words are subtracted.\<close>

theorem memcmp_zero_iff:
  "(memcmp a m l r n = 0 \<longleftrightarrow> load m l n = load m r n)
    \<and> 0 < memcmp a ((\<lambda>a. 0)(4097 := 1, 8192 := 1)) 4096 8192 4"
proof -
  obtain d l1 r1 n1 where 0: "memcmp_uint64 a m l r n = (d, l1, r1, n1)"
    by (metis prod_cases4)
  obtain d1 l2 r2 n2 where 1: "memcmp_type U32 m l1 r1 n1 = (d1, l2, r2, n2)"
    by (metis prod_cases4)
  obtain d2 l3 r3 n3 where 2: "memcmp_type U16 m l2 r2 n2 = (d2, l3, r3, n3)"
    by (metis prod_cases4)
  obtain d3 l4 r4 n4 where 3: "memcmp_type U8 m l3 r3 n3 = (d3, l4, r4, n4)"
    by (metis prod_cases4)
  have res: "memcmp a m l r n = (if d \<noteq> 0 then d else if d1 \<noteq> 0 then d1 else if d2 \<noteq> 0 then d2 else d3)"
    by (simp add: memcmp_def 0 1 2 3)
  have "memcmp a m l r n = 0 \<longleftrightarrow> load m l n = load m r n"
    using memcmp_uint64_cases [OF 0]
  proof
    assume "load m l n \<noteq> load m r n \<and> (l1, r1, n1) = (l, r, n)"
    then show ?thesis
      using memcmp_tail [OF _ 1 2 3, of l r n] by (auto simp: res)
  next
    assume "d = 0 \<and> same_so_far m l r n (l1, r1, n1)"
    then show ?thesis
      using memcmp_tail [OF _ 1 2 3, of l r n] by (auto simp: res)
  qed
  moreover have "0 < memcmp a ((\<lambda>a. 0)(4097 := 1, 8192 := 1)) 4096 8192 4"
    by (simp add: memcmp_def memcmp_uint64_def memcmp_type_def memcmp_loop.simps load_nth upt_conv_Cons)
  ultimately show ?thesis
    by blast
qed

section \<open>C strings\<close>

text \<open>The C string at an address: its bytes, none of them zero, before the terminating zero.\<close>

fun is_cstr :: "mem \<Rightarrow> u64 \<Rightarrow> u8 list \<Rightarrow> bool" where
  "is_cstr m a [] \<longleftrightarrow> m a = 0"
| "is_cstr m a (b # bs) \<longleftrightarrow> m a = b \<and> b \<noteq> 0 \<and> is_cstr m (a + 1) bs"

lemma strlen_from_cstr: "is_cstr m a bs \<Longrightarrow> strlen_from m a k = Some (k + length bs)"
  by (induction bs arbitrary: a k) (simp_all add: strlen_from.simps)

lemma strnlen_cstr: "is_cstr m a bs \<Longrightarrow> strnlen m a k = min (length bs) k"
proof (induction bs arbitrary: a k)
  case Nil
  then show ?case
    by (cases k) simp_all
next
  case (Cons b bs)
  then show ?case
    by (cases k) simp_all
qed

lemma strcmp_cstr:
  assumes "is_cstr m a bs" and "is_cstr m c cs"
  shows "\<exists>d. strcmp m a c = Some d \<and> (d < 0 \<longleftrightarrow> length bs < length cs) \<and> (d = 0 \<longleftrightarrow> length bs = length cs)"
  using assms
proof (induction bs arbitrary: a c cs)
  case Nil
  then show ?case
    by (cases cs) (auto simp: strcmp.simps [of m a] word_less_def word_neq_0_conv [symmetric]
        uint_0_iff word_gt_0 less_le)
next
  case (Cons b bs)
  then show ?case
    by (cases cs) (auto simp: strcmp.simps [of m a] uint_0_iff less_le)
qed

fun first_index :: "int \<Rightarrow> u8 list \<Rightarrow> nat option" where
  "first_index ch [] = None"
| "first_index ch (b # bs) = (if uint b = ch then Some 0 else map_option Suc (first_index ch bs))"

definition last_index :: "int \<Rightarrow> u8 list \<Rightarrow> nat option" where
  "last_index ch bs = map_option (\<lambda>i. length bs - Suc i) (first_index ch (rev bs))"

lemma strchr_cstr:
  "is_cstr m a bs \<Longrightarrow> strchr m a ch = Some (map_option (\<lambda>i. a + of_nat i) (first_index ch bs))"
  by (induction bs arbitrary: a)
    (simp_all add: strchr.simps option.map_comp comp_def add.assoc)

lemma first_index_append:
  "first_index ch (bs @ cs) = (case first_index ch bs of
     Some i \<Rightarrow> Some i | None \<Rightarrow> map_option (\<lambda>i. length bs + i) (first_index ch cs))"
  by (induction bs) (auto simp: option.map_comp comp_def split: option.splits,
      (cases "first_index ch cs"; simp)+)

lemma first_index_less: "first_index ch bs = Some i \<Longrightarrow> i < length bs"
  by (induction bs arbitrary: i) (auto split: if_splits)

lemma last_index_Cons:
  "last_index ch (b # bs) = (case last_index ch bs of
     Some i \<Rightarrow> Some (Suc i) | None \<Rightarrow> if uint b = ch then Some 0 else None)"
  by (auto simp: last_index_def first_index_append Suc_diff_Suc dest: first_index_less split: option.splits)

lemma strrchr_from_cstr:
  assumes "is_cstr m a bs"
  shows "strrchr_from m a ch r
    = Some (case last_index ch bs of Some i \<Rightarrow> Some (a + of_nat i) | None \<Rightarrow> r)"
  using assms
proof (induction bs arbitrary: a r)
  case Nil
  then show ?case
    by (simp add: strrchr_from.simps last_index_def)
next
  case (Cons b bs)
  then show ?case
    by (simp add: strrchr_from.simps [of m a] last_index_Cons add.assoc split: option.splits)
qed

lemma strncmp_first_difference:
  "if load m a k = load m c k then strncmp m a c k = 0
   else \<exists>i < k. load m a i = load m c i \<and> m (a + of_nat i) \<noteq> m (c + of_nat i)
     \<and> strncmp m a c k = uint (m (a + of_nat i)) - uint (m (c + of_nat i))"
proof (induction k arbitrary: a c)
  case (Suc k)
  show ?case
  proof (cases "m a = m c \<and> load m (a + 1) k \<noteq> load m (c + 1) k")
    case True
    then obtain i where "i < k" "load m (a + 1) i = load m (c + 1) i"
      "m (a + 1 + of_nat i) \<noteq> m (c + 1 + of_nat i)"
      "strncmp m (a + 1) (c + 1) k = uint (m (a + 1 + of_nat i)) - uint (m (c + 1 + of_nat i))"
      using Suc.IH [of "a + 1" "c + 1"] by (auto split: if_splits)
    then show ?thesis
      using True by (auto intro!: exI [of _ "Suc i"] simp: add.assoc)
  next
    case False
    then show ?thesis
      using Suc.IH [of "a + 1" "c + 1"] by (auto intro!: exI [of _ 0])
  qed
qed simp

lemma strncmp_cstr:
  assumes "is_cstr m a bs" and "is_cstr m c cs" and "bs \<noteq> cs \<or> k \<le> Suc (length bs)"
  shows "strncmp m a c k = 0 \<longleftrightarrow> take k bs = take k cs"
  using assms
proof (induction bs arbitrary: a c cs k)
  case Nil
  then show ?case
    by (cases cs; cases k) (auto simp: uint_0_iff)
next
  case (Cons b bs)
  then show ?case
    by (cases cs; cases k) (auto simp: uint_0_iff simp flip: word_uint_eq_iff)
qed

lemma cstr_no_zero: "is_cstr m a bs \<Longrightarrow> 0 \<notin> set bs"
  by (induction bs arbitrary: a) auto

lemma first_index_None: "first_index ch bs = None \<longleftrightarrow> ch \<notin> uint ` set bs"
  by (induction bs) auto

lemma last_index_None: "last_index ch bs = None \<longleftrightarrow> ch \<notin> uint ` set bs"
  by (simp add: last_index_def first_index_None)

lemma cstr_zero_index:
  assumes "is_cstr m a bs"
  shows "first_index 0 bs = None" and "last_index 0 bs = None"
  using cstr_no_zero [OF assms] by (auto simp: first_index_None last_index_None uint_0_iff)

text \<open>C34: the string functions return for every terminated string.  \<open>strlen\<close> and \<open>strnlen\<close> return its length,
  cut off at the limit; \<open>strchr\<close> and \<open>strrchr\<close> the address of the first and the last occurrence of a
  character or a null pointer, which is also their result for the character 0, where the C standard has the
  address of the terminator.  \<open>strncmp\<close> returns the difference of the first two bytes below the limit that
  differ, or 0: it does not stop at a terminator, so for two equal strings and a limit behind the terminator it
  compares what follows; otherwise it is 0 exactly when the strings agree up to the limit.  \<open>strcmp\<close> does
  not compare the strings: the sign of its result is that of the difference of the lengths.\<close>

theorem c_strings_correct:
  assumes "is_cstr m a bs" and "is_cstr m c cs"
  shows "strlen m a = Some (length bs) \<and> strnlen m a k = min (length bs) k
    \<and> strchr m a ch = Some (map_option (\<lambda>i. a + of_nat i) (first_index ch bs))
    \<and> strrchr m a ch = Some (map_option (\<lambda>i. a + of_nat i) (last_index ch bs))
    \<and> strchr m a 0 = Some None \<and> strrchr m a 0 = Some None
    \<and> (if load m a k = load m c k then strncmp m a c k = 0
       else \<exists>i < k. load m a i = load m c i \<and> m (a + of_nat i) \<noteq> m (c + of_nat i)
         \<and> strncmp m a c k = uint (m (a + of_nat i)) - uint (m (c + of_nat i)))
    \<and> (bs \<noteq> cs \<or> k \<le> Suc (length bs) \<longrightarrow> (strncmp m a c k = 0 \<longleftrightarrow> take k bs = take k cs))
    \<and> (\<exists>d. strcmp m a c = Some d \<and> (d < 0 \<longleftrightarrow> length bs < length cs) \<and> (d = 0 \<longleftrightarrow> length bs = length cs))"
proof -
  have strrchr: "strrchr m a ch = Some (map_option (\<lambda>i. a + of_nat i) (last_index ch bs))" for ch
    using strrchr_from_cstr [OF assms(1), of ch None] by (simp add: strrchr_def split: option.splits)
  have zero: "strchr m a 0 = Some None" "strrchr m a 0 = Some None"
    using strchr_cstr [OF assms(1)] strrchr cstr_zero_index [OF assms(1)] by simp_all
  show ?thesis
    using strlen_from_cstr [OF assms(1), of 0] strnlen_cstr [OF assms(1)] strchr_cstr [OF assms(1)] strrchr zero
    by (intro conjI strncmp_first_difference impI strncmp_cstr [OF assms] strcmp_cstr [OF assms])
      (simp_all add: strlen_def)
qed

theorem c_strings_correct_witness:
  "strcmp ((\<lambda>a. 0)(4096 := 97, 8192 := 98)) 4096 8192 = Some 0
    \<and> strlen ((\<lambda>a. 0)(4096 := 97, 8192 := 98)) 4096 = Some 1
    \<and> strncmp ((\<lambda>a. 0)(4096 := 97, 8192 := 98)) 4096 8192 4 \<noteq> 0"
  using c_strings_correct [of "(\<lambda>a. 0)(4096 := 97, 8192 := 98)" 4096 "[97]" 8192 "[98]" 4] by auto

end
