(* ===== verification/Ranges.thy ===== *)
theory Ranges
  imports Arith
begin

text \<open>
  \<open>lib/adt/range.h\<close> and \<open>lib/adt/range.c\<close>: a range is a start (\<open>front\<close>) and a size, both 64-bit
  words.  A range may be empty, and it may run past the end of the 64-bit space
  (\<open>range_overflows\<close>); the operations are translated with their wrap-around, and the lemmas
  say which set of locations each of them speaks about.
\<close>

record range =
  rfront :: u64
  rsize :: u64

definition RANGE_INIT :: "u64 \<Rightarrow> u64 \<Rightarrow> range" where
  "RANGE_INIT fr sz = \<lparr>rfront = fr, rsize = sz\<rparr>"

definition RANGE_EMPTY :: range where
  "RANGE_EMPTY = \<lparr>rfront = 0, rsize = 0\<rparr>"

definition range_create_and_verify :: "u64 \<Rightarrow> u64 \<Rightarrow> range res" where
  "range_create_and_verify base sz =
     (case check_add base sz of Fail \<Rightarrow> Fail | Ok _ \<Rightarrow> Ok (RANGE_INIT base sz))"

definition range_create_upto :: "u64 \<Rightarrow> range" where
  "range_create_upto sz = RANGE_INIT 0 sz"

definition range_create_end :: "u64 \<Rightarrow> u64 \<Rightarrow> range option" where
  "range_create_end fr end' =
     do { assert_that (fr \<le> end'); Some (RANGE_INIT fr (end' - fr)) }"

definition range_multiply :: "range \<Rightarrow> u64 \<Rightarrow> range res" where
  "range_multiply r mult =
     (case check_mul (rfront r) mult of
        Fail \<Rightarrow> Fail
      | Ok fr \<Rightarrow> (case check_mul (rsize r) mult of
            Fail \<Rightarrow> Fail
          | Ok sz \<Rightarrow> Ok \<lparr>rfront = fr, rsize = sz\<rparr>))"

definition range_divide :: "range \<Rightarrow> u64 \<Rightarrow> range option" where
  "range_divide r d =
     do { assert_that (d \<noteq> 0); Some (RANGE_INIT (rfront r div d) (rsize r div d)) }"

definition range_divide_out :: "range \<Rightarrow> u64 \<Rightarrow> range option" where
  "range_divide_out r d =
     do { assert_that (d \<noteq> 0); Some (RANGE_INIT (rfront r div d) (div_round_up (rsize r) d)) }"

definition range_has_index :: "range \<Rightarrow> u64 \<Rightarrow> bool" where
  "range_has_index r index \<longleftrightarrow> index_in_bounds index (rsize r)"

definition range_has_loc :: "range \<Rightarrow> u64 \<Rightarrow> bool" where
  "range_has_loc r loc \<longleftrightarrow> rfront r \<le> loc \<and> loc - rfront r < rsize r"

definition range_has_end :: "range \<Rightarrow> u64 \<Rightarrow> bool" where
  "range_has_end r end' \<longleftrightarrow> rfront r < end' \<and> end' - rfront r \<le> rsize r"

definition range_get_end :: "range \<Rightarrow> u64 res" where
  "range_get_end r = check_add (rfront r) (rsize r)"

definition range_overflows :: "range \<Rightarrow> bool" where
  "range_overflows r \<longleftrightarrow> \<not> is_ok (check_add (rfront r) (rsize r))"

definition range_is_loc_above :: "range \<Rightarrow> u64 \<Rightarrow> bool" where
  "range_is_loc_above r loc \<longleftrightarrow> rfront r \<le> loc \<and> rsize r \<le> loc - rfront r"

definition range_is_loc_below :: "range \<Rightarrow> u64 \<Rightarrow> bool" where
  "range_is_loc_below r loc \<longleftrightarrow> loc < rfront r"

definition range_above :: "range \<Rightarrow> range \<Rightarrow> bool" where
  "range_above r abv \<longleftrightarrow> range_is_loc_above r (rfront abv)"

definition range_below :: "range \<Rightarrow> range \<Rightarrow> bool" where
  "range_below r blw \<longleftrightarrow> range_is_loc_below r (rfront blw)"

definition range_empty :: "range \<Rightarrow> bool" where
  "range_empty r \<longleftrightarrow> rsize r = 0"

definition range_from_index :: "range \<Rightarrow> u64 \<Rightarrow> range option" where
  "range_from_index r index =
     do { assert_that (range_has_index r index);
          Some (RANGE_INIT (rfront r + index) (rsize r - index)) }"

definition range_from_loc :: "range \<Rightarrow> u64 \<Rightarrow> range option" where
  "range_from_loc r loc =
     do { assert_that (range_has_loc r loc);
          Some (RANGE_INIT loc (rsize r - (loc - rfront r))) }"

definition range_align_in :: "range \<Rightarrow> u64 \<Rightarrow> range res option" where
  "range_align_in r boundary =
     do { up \<leftarrow> align_up (rfront r) boundary;
          case up of
            Fail \<Rightarrow> Some Fail
          | Ok fr \<Rightarrow>
              if rsize r \<le> fr - rfront r then Some Fail
              else do { sz \<leftarrow> align_down (rsize r) boundary;
                        if sz = 0 then Some Fail else Some (Ok (RANGE_INIT fr sz)) } }"

definition range_align_out :: "range \<Rightarrow> u64 \<Rightarrow> range res option" where
  "range_align_out r boundary =
     do { up \<leftarrow> align_up (rsize r) boundary;
          case up of
            Fail \<Rightarrow> Some Fail
          | Ok sz \<Rightarrow> do { fr \<leftarrow> align_down (rfront r) boundary;
                          Some (Ok (RANGE_INIT fr sz)) } }"

definition range_round_up :: "range \<Rightarrow> u64 \<Rightarrow> range res option" where
  "range_round_up r mult =
     do { f \<leftarrow> round_up (rfront r) mult;
          case f of
            Fail \<Rightarrow> Some Fail
          | Ok fr \<Rightarrow> do { s \<leftarrow> round_up (rsize r) mult;
                          case s of
                            Fail \<Rightarrow> Some Fail
                          | Ok sz \<Rightarrow> Some (Ok \<lparr>rfront = fr, rsize = sz\<rparr>) } }"

definition range_round_up_subrange :: "range \<Rightarrow> u64 \<Rightarrow> range res option" where
  "range_round_up_subrange r mult =
     do { f \<leftarrow> round_up (rfront r) mult;
          case f of
            Fail \<Rightarrow> Some Fail
          | Ok fr \<Rightarrow>
              (let diff = fr - rfront r
               in if rsize r \<le> diff then Some Fail
                  else Some (Ok \<lparr>rfront = fr, rsize = rsize r - diff\<rparr>)) }"

definition range_has_align :: "range \<Rightarrow> u64 \<Rightarrow> bool option" where
  "range_has_align r align =
     do { a \<leftarrow> has_align (rfront r) align;
          if a then has_align (rsize r) align else Some False }"

definition range_get_end_assert :: "range \<Rightarrow> u64 option" where
  "range_get_end_assert r = assert_ok (range_get_end r)"

definition range_has_index_range :: "range \<Rightarrow> range \<Rightarrow> bool" where
  "range_has_index_range r other \<longleftrightarrow>
     range_has_index r (rfront other) \<and> rsize other \<le> rsize r - rfront other"

definition subrange_from_index :: "range \<Rightarrow> u64 \<Rightarrow> range option" where
  "subrange_from_index r index =
     do { assert_that (range_has_index r index);
          Some \<lparr>rfront = index, rsize = rsize r - index\<rparr> }"

definition subrange_to_full :: "range \<Rightarrow> range \<Rightarrow> range option" where
  "subrange_to_full r index =
     do { assert_that (range_has_index_range r index);
          Some \<lparr>rfront = rfront r + rfront index, rsize = rsize index\<rparr> }"

definition range_loc_for_index :: "range \<Rightarrow> u64 \<Rightarrow> u64 option" where
  "range_loc_for_index r index =
     do { assert_that (range_has_index r index); Some (rfront r + index) }"

definition range_index_for_loc :: "range \<Rightarrow> u64 \<Rightarrow> u64 option" where
  "range_index_for_loc r loc =
     do { assert_that (range_has_loc r loc); Some (loc - rfront r) }"

text \<open>The panic branch of \<open>range_index_for_loc\<close> cannot be reached from \<open>range_has\<close>: the call
  is guarded by the same test.\<close>

definition range_has :: "range \<Rightarrow> range \<Rightarrow> bool option" where
  "range_has r other =
     (if \<not> range_has_loc r (rfront other) then Some False
      else do { index \<leftarrow> range_index_for_loc r (rfront other);
                if \<not> range_has_index r index then Some False
                else Some (rsize other \<le> rsize r - index) })"

definition range_overlaps :: "range \<Rightarrow> range \<Rightarrow> bool" where
  "range_overlaps r other \<longleftrightarrow> range_has_loc r (rfront other) \<or> range_has_loc other (rfront r)"

text \<open>\<open>lib/util.c\<close>, the one function of it that works on ranges.\<close>

definition index_range_in_bounds :: "range \<Rightarrow> u64 \<Rightarrow> bool" where
  "index_range_in_bounds r bounds =
     (case range_get_end r of Fail \<Rightarrow> False | Ok end' \<Rightarrow> end' \<le> bounds)"

section \<open>The locations of a range\<close>

text \<open>A range stands for the locations from its front up to, and not including, its end; what
  lies past the end of the 64-bit space is not addressable.\<close>

definition locs :: "range \<Rightarrow> nat set" where
  "locs r = {unat (rfront r) ..< unat (rfront r) + unat (rsize r)}"

definition range_wf :: "range \<Rightarrow> bool" where
  "range_wf r \<longleftrightarrow> unat (rfront r) + unat (rsize r) < 2 ^ 64"

named_theorems range_defs \<open>the operations on ranges\<close>

lemmas [range_defs] = RANGE_INIT_def RANGE_EMPTY_def range_has_index_def index_in_bounds_def
  range_has_loc_def range_has_end_def range_get_end_def range_is_loc_above_def
  range_is_loc_below_def range_above_def range_below_def range_empty_def

lemma range_has_loc_iff: "range_has_loc r loc \<longleftrightarrow> unat loc \<in> locs r"
  by (auto simp: range_has_loc_def locs_def word_le_nat_alt word_less_nat_alt unat_sub_no_wrap)

lemma range_wf_iff: "range_wf r \<longleftrightarrow> \<not> range_overflows r"
  by (auto simp: range_wf_def range_overflows_def is_ok_iff check_add_def)

lemma range_get_end_assert_iff:
  "range_get_end_assert r = Some e \<longleftrightarrow> unat e = unat (rfront r) + unat (rsize r)"
  by (simp add: range_get_end_assert_def range_get_end_def check_iffs)

lemma range_get_end_assert_wf:
  assumes "range_wf r"
  obtains e where "range_get_end_assert r = Some e" and "unat e = unat (rfront r) + unat (rsize r)"
proof -
  have "range_get_end_assert r = Some (rfront r + rsize r)"
    using assms by (simp add: range_get_end_assert_def range_get_end_def check_add_def range_wf_def)
  then show thesis
    using that range_get_end_assert_iff by blast
qed

lemma range_is_loc_above_iff:
  "range_is_loc_above r loc \<longleftrightarrow> unat (rfront r) + unat (rsize r) \<le> unat loc"
  by (auto simp: range_is_loc_above_def word_le_nat_alt unat_sub_no_wrap)

lemma range_has_iff:
  "range_has r other =
     Some (unat (rfront other) \<in> locs r \<and>
           unat (rfront other) + unat (rsize other) \<le> unat (rfront r) + unat (rsize r))"
proof (cases "range_has_loc r (rfront other)")
  case True
  then have le: "rfront r \<le> rfront other" and lt: "rfront other - rfront r < rsize r"
    by (simp_all add: range_has_loc_def)
  have "unat (rsize r - (rfront other - rfront r)) = unat (rsize r) - (unat (rfront other) - unat (rfront r))"
    using le lt by (simp add: unat_sub_no_wrap less_imp_le)
  with True le lt show ?thesis
    by (auto simp: range_has_def range_index_for_loc_def range_has_index_def index_in_bounds_def
        range_has_loc_iff locs_def word_le_nat_alt word_less_nat_alt unat_sub_no_wrap)
next
  case False
  then show ?thesis
    by (simp add: range_has_def range_has_loc_iff)
qed

lemma range_overlaps_iff:
  assumes "\<not> range_empty a" and "\<not> range_empty b"
  shows "range_overlaps a b \<longleftrightarrow> locs a \<inter> locs b \<noteq> {}"
proof -
  have "0 < unat (rsize a)" and "0 < unat (rsize b)"
    using assms by (simp_all add: range_empty_def unat_pos_iff)
  then show ?thesis
    unfolding range_overlaps_def range_has_loc_iff locs_def
    by (auto simp: disjoint_iff)
qed

lemma range_has_subset:
  assumes "\<not> range_empty other"
  shows "range_has r other = Some (locs other \<subseteq> locs r)"
proof -
  have "0 < unat (rsize other)"
    using assms by (simp add: range_empty_def unat_pos_iff)
  then show ?thesis
    by (auto simp: range_has_iff locs_def)
qed

lemma range_create_end_locs:
  assumes "range_create_end a b = Some r"
  shows "locs r = {unat a ..< unat b}" and "rfront r = a" and "unat (rsize r) = unat b - unat a"
  using assms
  by (auto simp: range_create_end_def RANGE_INIT_def locs_def word_le_nat_alt unat_sub_no_wrap
      split: if_splits)

text \<open>The subrange of indices and the subrange of locations are the same cells.\<close>

lemma range_loc_index_roundtrip:
  "range_loc_for_index r i = Some loc \<Longrightarrow> range_wf r \<Longrightarrow> range_index_for_loc r loc = Some i"
  by (auto simp: range_loc_for_index_def range_index_for_loc_def range_has_index_def range_wf_def
      index_in_bounds_def range_has_loc_def word_le_nat_alt word_less_nat_alt unat_add_no_wrap
      split: if_splits)

lemma range_index_loc_roundtrip:
  "range_index_for_loc r loc = Some i \<Longrightarrow> range_loc_for_index r i = Some loc"
  by (auto simp: range_loc_for_index_def range_index_for_loc_def range_has_index_def
      index_in_bounds_def range_has_loc_def split: if_splits)

section \<open>What the alignment functions return\<close>

lemma range_align_in_Ok:
  assumes "unat b = 2 ^ k" and "range_align_in r b = Some (Ok r')"
  shows "unat (rfront r') = next_multiple (unat (rfront r)) (2 ^ k)"
    and "unat (rsize r') = unat (rsize r) - unat (rsize r) mod 2 ^ k"
    and "next_multiple (unat (rfront r)) (2 ^ k) - unat (rfront r) < unat (rsize r)"
    and "rsize r' \<noteq> 0"
proof -
  let ?m = "next_multiple (unat (rfront r)) (2 ^ k)"
  obtain sz where sz: "align_down (rsize r) b = Some sz"
      "unat sz = unat (rsize r) - unat (rsize r) mod 2 ^ k"
    using align_down_pow2 [OF assms(1)] by blast
  have lt: "?m < 2 ^ 64"
    using assms(2) by (auto simp: range_align_in_def align_up_pow2 [OF assms(1)] split: if_splits)
  then have um: "unat (of_nat ?m :: u64) = ?m"
    by (simp add: unat_of_nat_no_wrap)
  have r': "r' = RANGE_INIT (of_nat ?m) sz" and "sz \<noteq> 0"
      and d: "\<not> rsize r \<le> of_nat ?m - rfront r"
    using assms(2) lt
    by (auto simp: range_align_in_def align_up_pow2 [OF assms(1)] sz(1) split: if_splits)
  from r' \<open>sz \<noteq> 0\<close> show "rsize r' \<noteq> 0" and "unat (rfront r') = ?m"
      and "unat (rsize r') = unat (rsize r) - unat (rsize r) mod 2 ^ k"
    by (simp_all add: RANGE_INIT_def um sz(2))
  have "rfront r \<le> of_nat ?m"
    by (simp add: word_le_nat_alt um next_multiple_props(1))
  with d show "?m - unat (rfront r) < unat (rsize r)"
    by (simp add: word_le_nat_alt unat_sub_no_wrap um)
qed

lemma range_align_out_Ok:
  assumes "unat b = 2 ^ k" and "range_align_out r b = Some (Ok r')"
  shows "unat (rfront r') = unat (rfront r) - unat (rfront r) mod 2 ^ k"
    and "unat (rsize r') = next_multiple (unat (rsize r)) (2 ^ k)"
proof -
  let ?m = "next_multiple (unat (rsize r)) (2 ^ k)"
  obtain fr where fr: "align_down (rfront r) b = Some fr"
      "unat fr = unat (rfront r) - unat (rfront r) mod 2 ^ k"
    using align_down_pow2 [OF assms(1)] by blast
  have lt: "?m < 2 ^ 64"
    using assms(2) by (auto simp: range_align_out_def align_up_pow2 [OF assms(1)] split: if_splits)
  then have um: "unat (of_nat ?m :: u64) = ?m"
    by (simp add: unat_of_nat_no_wrap)
  have "r' = RANGE_INIT fr (of_nat ?m)"
    using assms(2) lt
    by (auto simp: range_align_out_def align_up_pow2 [OF assms(1)] fr(1) split: if_splits)
  then show "unat (rfront r') = unat (rfront r) - unat (rfront r) mod 2 ^ k"
      and "unat (rsize r') = ?m"
    by (simp_all add: RANGE_INIT_def um fr(2))
qed

section \<open>Properties\<close>

text \<open>C20: two nonempty ranges overlap, by \<open>range_overlaps\<close>, exactly when they have a location in
  common, and \<open>range_has\<close> never panics and says whether a nonempty range lies inside another one;
  neither test is fooled by a range that runs past the end of the 64-bit space.\<close>

theorem range_overlaps_has:
  assumes "\<not> range_empty a" and "\<not> range_empty b"
  shows "range_overlaps a b = (locs a \<inter> locs b \<noteq> {}) \<and> range_has a b = Some (locs b \<subseteq> locs a)"
  using range_overlaps_iff [OF assms] range_has_subset [OF assms(2)] by simp_all

theorem range_overlaps_has_witness:
  "range_overlaps (RANGE_INIT 5 10) (RANGE_INIT 14 3)
       = (locs (RANGE_INIT 5 10) \<inter> locs (RANGE_INIT 14 3) \<noteq> {})
   \<and> range_has (RANGE_INIT 5 10) (RANGE_INIT 14 3)
       = Some (locs (RANGE_INIT 14 3) \<subseteq> locs (RANGE_INIT 5 10))"
  by (rule range_overlaps_has) (simp_all add: range_empty_def RANGE_INIT_def)

text \<open>C21: \<open>range_align_in\<close> aligns the front up and the size down, each on its own.  Its result lies
  inside the range it was given exactly when the distance the front moved is covered by what
  was cut off the size; when it is not, the result runs past the end of the range.\<close>

theorem range_align_in_inside:
  assumes b: "unat b = 2 ^ k" and ok: "range_align_in r b = Some (Ok r')"
  shows "locs r' \<subseteq> locs r \<longleftrightarrow>
    next_multiple (unat (rfront r)) (2 ^ k) - unat (rfront r) \<le> unat (rsize r) mod 2 ^ k"
proof -
  let ?m = "next_multiple (unat (rfront r)) (2 ^ k)" and ?s = "unat (rsize r) mod 2 ^ k"
  have f: "unat (rfront r') = ?m" and s: "unat (rsize r') = unat (rsize r) - ?s"
    using range_align_in_Ok [OF assms] by simp_all
  moreover have "0 < unat (rsize r')"
    using range_align_in_Ok(4) [OF assms] by (simp add: unat_pos_iff)
  moreover have "unat (rfront r) \<le> ?m" and "?s \<le> unat (rsize r)"
    by (simp_all add: next_multiple_props)
  ultimately show ?thesis
    unfolding locs_def by (auto simp: f s)
qed

theorem range_align_in_inside_witness:
  "locs (RANGE_INIT 16 16) \<subseteq> locs (RANGE_INIT 1 31) \<longleftrightarrow> (15::nat) \<le> 15"
proof -
  have "range_align_in (RANGE_INIT 1 31) 16 = Some (Ok (RANGE_INIT 16 16))"
    by (simp add: range_align_in_def align_up_def align_down_def check_add_def RANGE_INIT_def)
  from range_align_in_inside [of 16 4, OF _ this] show ?thesis
    by (simp add: RANGE_INIT_def next_multiple_def)
qed

text \<open>C22: \<open>range_align_out\<close> aligns the front down and the size up, each on its own.  Its result covers
  a nonempty range exactly when the rounding of the size makes up for the distance the front
  moved; when it does not, the end of the range is cut off.\<close>

theorem range_align_out_covers:
  assumes b: "unat b = 2 ^ k" and ok: "range_align_out r b = Some (Ok r')" and "\<not> range_empty r"
  shows "locs r \<subseteq> locs r' \<longleftrightarrow>
    unat (rfront r) mod 2 ^ k + unat (rsize r) \<le> next_multiple (unat (rsize r)) (2 ^ k)"
proof -
  let ?m = "next_multiple (unat (rsize r)) (2 ^ k)" and ?o = "unat (rfront r) mod 2 ^ k"
  have f: "unat (rfront r') = unat (rfront r) - ?o" and s: "unat (rsize r') = ?m"
    using range_align_out_Ok [OF b ok] by simp_all
  have "0 < unat (rsize r)"
    using assms(3) by (simp add: range_empty_def unat_pos_iff)
  moreover have "?o \<le> unat (rfront r)"
    by simp
  ultimately show ?thesis
    unfolding locs_def f s by auto
qed

theorem range_align_out_covers_witness:
  "\<not> locs (RANGE_INIT 15 16) \<subseteq> locs (RANGE_INIT 0 16)"
proof -
  have "range_align_out (RANGE_INIT 15 16) 16 = Some (Ok (RANGE_INIT 0 16))"
    by (simp add: range_align_out_def align_up_def align_down_def check_add_def RANGE_INIT_def)
  from range_align_out_covers [of 16 4, OF _ this] show ?thesis
    by (simp add: RANGE_INIT_def next_multiple_def range_empty_def)
qed

text \<open>C23: indices and locations of a range that does not overflow are the same cells: the location
  of an index maps back to it, and the index of a location maps back to it.\<close>

theorem range_index_loc_inverse:
  assumes "range_wf r"
  shows "range_loc_for_index r i = Some loc \<longleftrightarrow> range_index_for_loc r loc = Some i"
  using range_loc_index_roundtrip [OF _ assms] range_index_loc_roundtrip by blast

theorem range_index_loc_inverse_witness:
  "range_loc_for_index (RANGE_INIT 4096 10) 7 = Some 4103
     \<longleftrightarrow> range_index_for_loc (RANGE_INIT 4096 10) 4103 = Some 7"
  by (rule range_index_loc_inverse) (simp add: range_wf_def RANGE_INIT_def)

end
