(* ===== verification/Bits.thy ===== *)
theory Bits
  imports Ranges
begin

text \<open>
  \<open>lib/bits.h\<close> and \<open>lib/bits.c\<close>: counting and finding bits from either end of a word, and the
  ranges of consecutive one bits.  A shift by the width of the operand or more is undefined in C;
  here it is \<open>None\<close>.  The compiler builtins \<open>ctz\<close> and \<open>clz\<close> are the numbers of zero bits below
  the lowest and above the highest one bit.
\<close>

unbundle bit_operations_syntax

section \<open>Definitions\<close>

definition ctz :: "'a::len word \<Rightarrow> nat" where
  "ctz w = length (takeWhile (\<lambda>i. \<not> bit w i) [0..<LENGTH('a)])"

definition clz :: "'a::len word \<Rightarrow> nat" where
  "clz w = length (takeWhile (\<lambda>i. \<not> bit w i) (rev [0..<LENGTH('a)]))"

definition count_lsb_zero_bits :: "'a::len word \<Rightarrow> nat \<Rightarrow> u8 option" where
  "count_lsb_zero_bits bad_number start_index =
     do { assert_that (start_index < LENGTH('a));
          let number = drop_bit start_index bad_number;
          Some (of_nat (if number \<noteq> 0 then ctz number else LENGTH('a) - start_index)) }"

definition count_lsb_one_bits :: "'a::len word \<Rightarrow> nat \<Rightarrow> u8 option" where
  "count_lsb_one_bits number start_index = count_lsb_zero_bits (NOT number) start_index"

definition count_msb_zero_bits :: "u64 \<Rightarrow> nat \<Rightarrow> u8 option" where
  "count_msb_zero_bits bad_number start_index =
     do { assert_that (start_index < 64);
          let number = push_bit start_index bad_number;
          Some (of_nat (if number \<noteq> 0 then clz number else 64 - start_index)) }"

definition count_msb_one_bits :: "u64 \<Rightarrow> nat \<Rightarrow> u8 option" where
  "count_msb_one_bits number start_index = count_msb_zero_bits (NOT number) start_index"

definition find_lsb_one_bit :: "u64 \<Rightarrow> u8 \<Rightarrow> u8 option" where
  "find_lsb_one_bit number start_index =
     do { n \<leftarrow> count_lsb_zero_bits number (unat start_index); Some (n + start_index) }"

definition find_lsb_zero_bit :: "u64 \<Rightarrow> u8 \<Rightarrow> u8 option" where
  "find_lsb_zero_bit number start_index =
     do { n \<leftarrow> count_lsb_one_bits number (unat start_index); Some (n + start_index) }"

definition find_msb_zero_bit :: "u64 \<Rightarrow> u8 \<Rightarrow> u8 option" where
  "find_msb_zero_bit number start_index =
     do { n \<leftarrow> count_msb_zero_bits number (unat start_index); Some (n + start_index) }"

definition find_msb_one_bit :: "u64 \<Rightarrow> u8 \<Rightarrow> u8 option" where
  "find_msb_one_bit number start_index =
     do { n \<leftarrow> count_msb_one_bits number (unat start_index); Some (n + start_index) }"

text \<open>The start index is passed to \<open>find_lsb_one_bit\<close> as \<open>uint8_t\<close>, and the bound of the first
  test is \<open>sizeof(number)\<close>, which is 8.\<close>

definition get_range_of_lsb_one_bits :: "u64 \<Rightarrow> u64 \<Rightarrow> u64 \<Rightarrow> range option" where
  "get_range_of_lsb_one_bits number start_index end_index =
     do { first_bit_index \<leftarrow> find_lsb_one_bit number (ucast start_index);
          if \<not> index_in_bounds (ucast first_bit_index) 8
             \<or> \<not> index_in_bounds (ucast first_bit_index) end_index
          then Some RANGE_EMPTY
          else do { one_count \<leftarrow> count_lsb_one_bits number (unat first_bit_index);
                    let result = RANGE_INIT (ucast first_bit_index) (ucast one_count);
                    Some (case range_get_end result of
                            Ok result_end \<Rightarrow>
                              if end_index < result_end
                              then result\<lparr>rsize := end_index - rfront result\<rparr>
                              else result
                          | Fail \<Rightarrow> result\<lparr>rsize := end_index - rfront result\<rparr>) } }"

definition get_range_of_lsb_zero_bits :: "u64 \<Rightarrow> u64 \<Rightarrow> u64 \<Rightarrow> range option" where
  "get_range_of_lsb_zero_bits number start_index end_index =
     get_range_of_lsb_one_bits (NOT number) start_index end_index"

definition get_next_range_of_lsb_zero_bits :: "u64 \<Rightarrow> range \<Rightarrow> u64 \<Rightarrow> range option" where
  "get_next_range_of_lsb_zero_bits number prev end_index =
     do { prev_end \<leftarrow> range_get_end_assert prev;
          if \<not> index_in_bounds prev_end 64 then Some RANGE_EMPTY
          else get_range_of_lsb_zero_bits number prev_end end_index }"

definition get_next_range_of_lsb_one_bits :: "u64 \<Rightarrow> range \<Rightarrow> u64 \<Rightarrow> range option" where
  "get_next_range_of_lsb_one_bits number prev end_index =
     do { prev_end \<leftarrow> range_get_end_assert prev;
          if \<not> index_in_bounds prev_end 64 then Some RANGE_EMPTY
          else get_range_of_lsb_one_bits number prev_end end_index }"

text \<open>The loop of \<open>count_all_one_bits\<close>; the sum is kept in a \<open>uint8_t\<close>.\<close>

partial_function (option) count_one_bits_loop :: "u64 \<Rightarrow> u64 \<Rightarrow> range \<Rightarrow> u8 \<Rightarrow> u8 option" where
  "count_one_bits_loop number end_index iter result =
     (if range_empty iter then Some result
      else do { next \<leftarrow> get_next_range_of_lsb_one_bits number iter end_index;
                count_one_bits_loop number end_index next (result + ucast (rsize iter)) })"

definition count_all_one_bits :: "u64 \<Rightarrow> u64 \<Rightarrow> u64 \<Rightarrow> u8 option" where
  "count_all_one_bits number start_index end_index =
     do { iter \<leftarrow> get_range_of_lsb_one_bits number start_index end_index;
          count_one_bits_loop number end_index iter 0 }"

text \<open>The indices visited by \<open>for_each_lsb_one_bit\<close>.  The last step of the loop may ask for the
  bits from index 64 on, an undefined shift.\<close>

partial_function (option) lsb_one_bits_from :: "u64 \<Rightarrow> u8 \<Rightarrow> nat list option" where
  "lsb_one_bits_from number start_index =
     do { i \<leftarrow> find_lsb_one_bit number start_index;
          if 64 \<le> i then Some []
          else do { is \<leftarrow> lsb_one_bits_from number (i + 1); Some (unat i # is) } }"

declare count_one_bits_loop.simps [code] lsb_one_bits_from.simps [code]

section \<open>The lowest one bit\<close>

lemma takeWhile_upt:
  assumes "m \<le> n" and "\<And>i. i < m \<Longrightarrow> P i" and "m < n \<Longrightarrow> \<not> P m"
  shows "takeWhile P [0..<n] = [0..<m]"
proof -
  have "[0..<n] = [0..<m] @ [m..<n]"
    using assms(1) by (metis le_add_diff_inverse upt_add_eq_append zero_le)
  moreover have "takeWhile P [m..<n] = []"
    using assms(1,3) by (cases "m < n") (auto simp: upt_conv_Cons)
  moreover have "takeWhile P ([0..<m] @ [m..<n]) = [0..<m] @ takeWhile P [m..<n]"
    using assms(2) by (intro takeWhile_append2) simp
  ultimately show ?thesis
    by simp
qed

lemma ctz_eq:
  fixes w :: "'a::len word"
  assumes "bit w i" and "\<And>j. j < i \<Longrightarrow> \<not> bit w j"
  shows "ctz w = i"
proof -
  have "i < LENGTH('a)"
    using assms(1) by (rule bit_imp_le_length)
  then have "takeWhile (\<lambda>i. \<not> bit w i) [0..<LENGTH('a)] = [0..<i]"
    using assms by (intro takeWhile_upt) auto
  then show ?thesis
    by (simp add: ctz_def)
qed

lemma ctz_bit:
  fixes w :: "'a::len word"
  assumes "w \<noteq> 0"
  shows "bit w (ctz w)" and "\<And>j. j < ctz w \<Longrightarrow> \<not> bit w j"
proof -
  obtain k where k: "bit w k"
    using assms bit_word_eqI [of w 0] by auto
  define i where "i = (LEAST i. bit w i)"
  have i: "bit w i" "\<And>j. j < i \<Longrightarrow> \<not> bit w j"
    unfolding i_def by (rule LeastI [of "bit w", OF k], rule not_less_Least)
  then have "ctz w = i"
    by (rule ctz_eq)
  with i show "bit w (ctz w)" and "\<And>j. j < ctz w \<Longrightarrow> \<not> bit w j"
    by auto
qed

text \<open>The index of the first one bit at or above \<open>s\<close>, or the width when there is none.\<close>

definition first_one :: "'a::len word \<Rightarrow> nat \<Rightarrow> nat \<Rightarrow> bool" where
  "first_one w s i \<longleftrightarrow> s \<le> i \<and> i \<le> LENGTH('a) \<and> (\<forall>j. s \<le> j \<longrightarrow> j < i \<longrightarrow> \<not> bit w j)
     \<and> (i < LENGTH('a) \<longrightarrow> bit w i)"

lemma first_one_unique: "first_one w s i \<Longrightarrow> first_one w s j \<Longrightarrow> i = j"
  unfolding first_one_def by (metis linorder_neqE_nat order_less_le_trans)

lemma count_lsb_zero_bits_first:
  fixes w :: "'a::len word"
  assumes "s < LENGTH('a)" and "LENGTH('a) < 256"
  shows "\<exists>n. count_lsb_zero_bits w s = Some n \<and> first_one w s (s + unat n)"
proof (cases "drop_bit s w = 0")
  case True
  define n :: u8 where "n = of_nat (LENGTH('a) - s)"
  have "\<not> bit w j" if "s \<le> j" for j
  proof -
    have "bit (drop_bit s w) (j - s) = bit w j"
      using that by (simp add: bit_drop_bit_eq)
    with True show ?thesis by simp
  qed
  moreover have "unat n = LENGTH('a) - s"
    unfolding n_def by (rule unat_of_nat_no_wrap) (use assms in simp)
  moreover have "count_lsb_zero_bits w s = Some n"
    using True assms(1) unfolding count_lsb_zero_bits_def n_def by simp
  ultimately show ?thesis
    using assms(1) by (simp add: first_one_def)
next
  case False
  let ?c = "ctz (drop_bit s w)"
  have c: "bit w (s + ?c)" "\<And>j. j < ?c \<Longrightarrow> \<not> bit w (s + j)"
    using ctz_bit [OF False] by (simp_all add: bit_drop_bit_eq)
  then have "s + ?c < LENGTH('a)"
    by (auto dest: bit_imp_le_length)
  moreover from this have "unat (of_nat ?c :: u8) = ?c"
    using assms(2) by (intro unat_of_nat_no_wrap) simp
  moreover have "\<not> bit w j" if "s \<le> j" "j < s + ?c" for j
    using c(2) [of "j - s"] that by simp
  ultimately show ?thesis
    using False assms(1) c(1) by (simp add: count_lsb_zero_bits_def first_one_def)
qed

lemma find_lsb_one_bit_first:
  assumes "unat s < 64"
  shows "\<exists>i. find_lsb_one_bit w s = Some i \<and> first_one w (unat s) (unat i)"
proof -
  obtain n where n: "count_lsb_zero_bits w (unat s) = Some n" "first_one w (unat s) (unat s + unat n)"
    using count_lsb_zero_bits_first [of "unat s" w] assms by auto
  then have "unat (n + s) = unat s + unat n"
    by (subst unat_add_no_wrap) (auto simp: first_one_def)
  with n show ?thesis
    by (simp add: find_lsb_one_bit_def)
qed

lemma find_lsb_zero_bit_alt: "find_lsb_zero_bit w s = find_lsb_one_bit (NOT w) s"
  by (simp add: find_lsb_zero_bit_def find_lsb_one_bit_def count_lsb_one_bits_def)

lemma get_range_of_lsb_one_bits_exact:
  assumes "unat s < 64" and i: "first_one w (unat s) i" and k: "i < 8 \<longrightarrow> first_one (NOT w) i k"
  shows "\<exists>r. get_range_of_lsb_one_bits w s e = Some r \<and>
    (if i < 8 \<and> i < unat e
     then unat (rfront r) = i \<and> unat (rfront r) + unat (rsize r) = min k (unat e)
     else r = RANGE_EMPTY)"
proof -
  have "unat (ucast s :: u8) = unat s"
    using assms(1) by (intro unat_ucast_u64_u8) simp
  then obtain f where f: "find_lsb_one_bit w (ucast s) = Some f" "unat f = i"
    using find_lsb_one_bit_first [of "ucast s" w] assms(1) first_one_unique [OF i] by auto
  have in8: "index_in_bounds (ucast f) 8 \<longleftrightarrow> i < 8" and ine: "index_in_bounds (ucast f) e \<longleftrightarrow> i < unat e"
    using f(2) by (simp_all add: index_in_bounds_def word_less_nat_alt)
  show ?thesis
  proof (cases "i < 8 \<and> i < unat e")
    case False
    with f in8 ine show ?thesis
      by (auto simp: get_range_of_lsb_one_bits_def)
  next
    case True
    then obtain n where n: "count_lsb_one_bits w (unat f) = Some n" "first_one (NOT w) i (i + unat n)"
      using count_lsb_zero_bits_first [of i "NOT w"] f(2) by (auto simp: count_lsb_one_bits_def)
    with k True have "k = i + unat n"
      using first_one_unique by blast
    let ?r = "RANGE_INIT (ucast f) (ucast n)"
    have "unat (rfront ?r) = i" and "unat (rsize ?r) = unat n"
      by (simp_all add: RANGE_INIT_def f(2))
    moreover have "i + unat n < 8 + 2 ^ 8"
      by (rule add_less_mono) (use True unat_lt_8 in auto)
    then have "i + unat n < 2 ^ 64"
      by simp
    ultimately have e: "range_get_end ?r = Ok (rfront ?r + rsize ?r)"
        and ue: "unat (rfront ?r + rsize ?r) = i + unat n"
      by (simp_all add: range_get_end_def check_add_def unat_add_no_wrap)
    have le: "rfront ?r \<le> e"
      using True f(2) by (simp add: RANGE_INIT_def word_le_nat_alt)
    have "get_range_of_lsb_one_bits w s e = Some (if e < rfront ?r + rsize ?r
        then ?r\<lparr>rsize := e - rfront ?r\<rparr> else ?r)"
      using f(1) in8 ine True n(1) e by (simp add: get_range_of_lsb_one_bits_def Let_def)
    then show ?thesis
      using True le ue f(2) \<open>k = i + unat n\<close>
      by (auto simp: RANGE_INIT_def word_less_nat_alt unat_sub_no_wrap)
  qed
qed

lemma filter_upt_first_one:
  fixes w :: u64
  assumes "first_one w s i"
  shows "filter (bit w) [s..<64] = (if i < 64 then i # filter (bit w) [Suc i..<64] else [])"
proof -
  have "[s..<64] = [s..<i] @ [i..<64]"
    using assms upt_add_eq_append [of s i "64 - i"] by (simp add: first_one_def)
  moreover have "filter (bit w) [s..<i] = []"
    using assms by (auto simp: filter_empty_conv first_one_def)
  ultimately show ?thesis
    using assms by (auto simp: first_one_def upt_conv_Cons)
qed

section \<open>Properties\<close>

text \<open>C14: for a start index below 64, \<open>find_lsb_one_bit\<close> and \<open>find_lsb_zero_bit\<close> return the index of
  the first one bit and of the first zero bit at or above it, and 64 when there is none.\<close>

theorem find_lsb_bit_correct:
  assumes "unat s < 64"
  shows "\<exists>i j. find_lsb_one_bit w s = Some i \<and> first_one w (unat s) (unat i)
    \<and> find_lsb_zero_bit w s = Some j \<and> first_one (NOT w) (unat s) (unat j)"
  using find_lsb_one_bit_first [OF assms, of w] find_lsb_one_bit_first [OF assms, of "NOT w"]
  by (auto simp: find_lsb_zero_bit_alt)

theorem find_lsb_bit_correct_witness:
  "\<exists>i j. find_lsb_one_bit 40 4 = Some i \<and> first_one (40 :: u64) (unat (4 :: u8)) (unat i)
    \<and> find_lsb_zero_bit 40 4 = Some j \<and> first_one (NOT 40 :: u64) (unat (4 :: u8)) (unat j)"
  by (rule find_lsb_bit_correct) simp

text \<open>C15: \<open>get_range_of_lsb_one_bits\<close> finds a range only when the first one bit at or above the start
  has an index below 8 (and below the end index); then the range runs from that bit up to the
  first zero bit after it or the end index.  Otherwise, in particular for a word whose one bits
  all have an index of 8 or more, it returns the empty range.\<close>

theorem get_range_of_lsb_one_bits_run:
  assumes "unat s < 64" and "first_one w (unat s) i" and "i < 8 \<longrightarrow> first_one (NOT w) i k"
  shows "\<exists>r. get_range_of_lsb_one_bits w s e = Some r \<and>
    (if i < 8 \<and> i < unat e
     then unat (rfront r) = i \<and> unat (rfront r) + unat (rsize r) = min k (unat e)
     else r = RANGE_EMPTY)"
  by (rule get_range_of_lsb_one_bits_exact) (use assms in auto)

theorem get_range_of_lsb_one_bits_run_witness:
  "get_range_of_lsb_one_bits 256 0 64 = Some RANGE_EMPTY"
proof -
  have "bit (2 ^ 8 :: u64) j \<longleftrightarrow> j = 8" for j
    by (subst bit_exp_iff) auto
  moreover have "(2 ^ 8 :: u64) = 256"
    by simp
  ultimately have b: "bit (256 :: u64) j \<longleftrightarrow> j = 8" for j
    by metis
  have "first_one (256 :: u64) (unat (0 :: u64)) 8"
    unfolding first_one_def b by simp
  from get_range_of_lsb_one_bits_run [of 0 256 8 0 64, OF _ this] show ?thesis
    by simp
qed

text \<open>C16: \<open>for_each_lsb_one_bit\<close> visits exactly the one bits at or above the start, in ascending
  order, unless bit 63 is set: then its last step shifts a 64-bit word by 64, which is
  undefined.\<close>

theorem lsb_one_bits_from_exact:
  assumes "unat s < 64"
  shows "lsb_one_bits_from w s = (if bit w 63 then None else Some (filter (bit w) [unat s..<64]))"
  using assms
proof (induction "64 - unat s" arbitrary: s rule: less_induct)
  case less
  obtain i where i: "find_lsb_one_bit w s = Some i" "first_one w (unat s) (unat i)"
    using find_lsb_one_bit_first [OF less.prems] by blast
  note fl = filter_upt_first_one [OF i(2)]
  show ?case
  proof (cases "unat i < 64")
    case False
    with i less.prems have "\<not> bit w 63"
      by (auto simp: first_one_def)
    with False i(1) fl show ?thesis
      by (subst lsb_one_bits_from.simps) (simp add: word_le_nat_alt)
  next
    case True
    then have u: "unat (i + 1) = Suc (unat i)"
      by (simp add: unat_add_no_wrap)
    have step: "lsb_one_bits_from w s = do { is \<leftarrow> lsb_one_bits_from w (i + 1); Some (unat i # is) }"
      using True i(1) by (subst lsb_one_bits_from.simps) (simp add: word_le_nat_alt)
    show ?thesis
    proof (cases "unat i = 63")
      case True
      have "lsb_one_bits_from w (i + 1) = None"
        using True u by (subst lsb_one_bits_from.simps)
          (simp add: find_lsb_one_bit_def count_lsb_zero_bits_def)
      moreover have "bit w 63"
        using i(2) True by (simp add: first_one_def)
      ultimately show ?thesis
        using step by simp
    next
      case False
      then have "64 - unat (i + 1) < 64 - unat s" and "unat (i + 1) < 64"
        using True u i(2) by (auto simp: first_one_def)
      from less.hyps [OF this] have "lsb_one_bits_from w (i + 1)
          = (if bit w 63 then None else Some (filter (bit w) [Suc (unat i)..<64]))"
        using u by simp
      with step fl True show ?thesis
        by simp
    qed
  qed
qed

theorem lsb_one_bits_from_exact_witness:
  "lsb_one_bits_from 40 0
     = (if bit (40 :: u64) 63 then None else Some (filter (bit (40 :: u64)) [unat (0 :: u8)..<64]))"
  by (rule lsb_one_bits_from_exact) simp

end
