(* ===== verification/Refcounts.thy ===== *)
theory Refcounts
  imports Prelude
begin

text \<open>
  \<open>lib/refcount.h\<close> and \<open>lib/refcount.c\<close>: a counter of type \<open>int32_t\<close>, kept as a 32-bit word and
  read with \<open>sint\<close>.  The atomic read-modify-write wraps around before the assertions look at the
  old value; a failed assertion is \<open>None\<close>.
\<close>

record refcount =
  rcount :: u32

definition REFCOUNT_MAX :: u32 where
  "REFCOUNT_MAX = 2147483647"

definition REFCOUNT_SATURATED :: u32 where
  "REFCOUNT_SATURATED = 1073741823"

definition REFCOUNT_EMPTY :: refcount where
  "REFCOUNT_EMPTY = \<lparr>rcount = 0\<rparr>"

definition REFCOUNT_CREATE :: "u32 \<Rightarrow> refcount" where
  "REFCOUNT_CREATE amt = \<lparr>rcount = amt\<rparr>"

definition REFCOUNT_CREATE_MAX :: refcount where
  "REFCOUNT_CREATE_MAX = \<lparr>rcount = REFCOUNT_MAX\<rparr>"

definition refcount_init :: "refcount \<Rightarrow> refcount" where
  "refcount_init ref = ref\<lparr>rcount := 1\<rparr>"

definition refcount_increment :: "u32 \<Rightarrow> refcount \<Rightarrow> refcount option" where
  "refcount_increment amount ref =
     (let old = rcount ref;
          ref = ref\<lparr>rcount := old + amount\<rparr>
      in do { assert_that (0 \<le> sint old);
              assert_that (old \<noteq> REFCOUNT_MAX);
              Some ref })"

definition refcount_decrement :: "u32 \<Rightarrow> refcount \<Rightarrow> (bool \<times> refcount) option" where
  "refcount_decrement amount ref =
     (let old = rcount ref;
          ref = ref\<lparr>rcount := old - amount\<rparr>
      in do { assert_that (sint amount \<le> sint old);
              assert_that (old \<noteq> REFCOUNT_MAX);
              Some (old = 1, ref) })"

definition ref_up :: "refcount \<Rightarrow> refcount option" where
  "ref_up ref = refcount_increment 1 ref"

definition ref_down :: "refcount \<Rightarrow> (bool \<times> refcount) option" where
  "ref_down ref = refcount_decrement 1 ref"

definition ref_get :: "refcount \<Rightarrow> u32" where
  "ref_get ref = rcount ref"

section \<open>The counter as a number\<close>

text \<open>A counter that stands for the natural number \<open>c\<close>, below the maximum.\<close>

definition counts :: "nat \<Rightarrow> refcount \<Rightarrow> bool" where
  "counts c ref \<longleftrightarrow> rcount ref = of_nat c \<and> c < 2147483647"

lemma sint_of_nat_small: "n \<le> 2147483647 \<Longrightarrow> sint (of_nat n :: u32) = int n"
  by (simp add: signed_of_nat signed_take_bit_int_eq_self)

lemma counts_of_nat:
  assumes "counts c ref"
  shows "sint (rcount ref) = int c" and "rcount ref \<noteq> REFCOUNT_MAX" and "rcount ref = 1 \<longleftrightarrow> c = 1"
proof -
  have c: "rcount ref = of_nat c" "c < 2147483647"
    using assms by (simp_all add: counts_def)
  then show s: "sint (rcount ref) = int c"
    by (simp add: sint_of_nat_small)
  have "sint REFCOUNT_MAX = 2147483647"
    using sint_of_nat_small [of 2147483647] by (simp add: REFCOUNT_MAX_def)
  with s c(2) show "rcount ref \<noteq> REFCOUNT_MAX"
    by auto
  have "sint (1 :: u32) = 1"
    using sint_of_nat_small [of 1] by simp
  with s show "rcount ref = 1 \<longleftrightarrow> c = 1"
    using c(1) by auto
qed

lemma ref_up_counts:
  assumes "counts c ref" and "c + 1 < 2147483647"
  shows "\<exists>ref'. ref_up ref = Some ref' \<and> counts (c + 1) ref'"
  using counts_of_nat [OF assms(1)] assms
  by (auto simp: ref_up_def refcount_increment_def Let_def counts_def add.commute)

lemma ref_down_counts:
  assumes "counts c ref" and "0 < c"
  shows "\<exists>ref'. ref_down ref = Some (c = 1, ref') \<and> counts (c - 1) ref'"
proof -
  have "sint (1 :: u32) = 1"
    using sint_of_nat_small [of 1] by simp
  then have "ref_down ref = Some (c = 1, ref\<lparr>rcount := rcount ref - 1\<rparr>)"
    using counts_of_nat [OF assms(1)] assms(2)
    by (simp add: ref_down_def refcount_decrement_def Let_def)
  moreover have "counts (c - 1) (ref\<lparr>rcount := rcount ref - 1\<rparr>)"
    using assms by (auto simp: counts_def of_nat_diff)
  ultimately show ?thesis
    by blast
qed

section \<open>Histories\<close>

text \<open>A history of takes and drops of a reference, as the owners of an object perform them, and
  the counter run over it; the result of each step is whether it dropped the last reference.\<close>

datatype ref_op = Take | Drop

fun run_refs :: "ref_op list \<Rightarrow> refcount \<Rightarrow> (bool list \<times> refcount) option" where
  "run_refs [] ref = Some ([], ref)"
| "run_refs (Take # ops) ref =
     do { ref \<leftarrow> ref_up ref; (bs, ref) \<leftarrow> run_refs ops ref; Some (False # bs, ref) }"
| "run_refs (Drop # ops) ref =
     do { (b, ref) \<leftarrow> ref_down ref; (bs, ref) \<leftarrow> run_refs ops ref; Some (b # bs, ref) }"

text \<open>The number of references after each step.  A history is fair when only a held reference is
  taken again or dropped, and the number stays below the maximum.\<close>

fun refs_after :: "nat \<Rightarrow> ref_op list \<Rightarrow> nat list" where
  "refs_after c [] = []"
| "refs_after c (Take # ops) = (c + 1) # refs_after (c + 1) ops"
| "refs_after c (Drop # ops) = (c - 1) # refs_after (c - 1) ops"

fun fair_refs :: "nat \<Rightarrow> ref_op list \<Rightarrow> bool" where
  "fair_refs c [] = True"
| "fair_refs c (Take # ops) = (0 < c \<and> c + 1 < 2147483647 \<and> fair_refs (c + 1) ops)"
| "fair_refs c (Drop # ops) = (0 < c \<and> fair_refs (c - 1) ops)"

lemma run_refs_counts:
  assumes "counts c ref" and "fair_refs c ops"
  shows "\<exists>ref'. run_refs ops ref = Some (map (\<lambda>n. n = 0) (refs_after c ops), ref')
    \<and> counts (last (c # refs_after c ops)) ref'"
  using assms
proof (induction ops arbitrary: c ref)
  case Nil
  then show ?case by simp
next
  case (Cons op ops)
  show ?case
  proof (cases op)
    case Take
    then obtain ref' where "ref_up ref = Some ref'" and "counts (c + 1) ref'"
      using ref_up_counts Cons.prems by auto
    with Cons.IH [of "c + 1" ref'] Cons.prems(2) Take show ?thesis
      by auto
  next
    case Drop
    then have "0 < c" using Cons.prems(2) by simp
    then obtain ref' where "ref_down ref = Some (c = 1, ref')" and "counts (c - 1) ref'"
      using ref_down_counts Cons.prems(1) by blast
    moreover have "c - 1 = 0 \<longleftrightarrow> c = 1"
      using \<open>0 < c\<close> by auto
    ultimately show ?thesis
      using Cons.IH [of "c - 1" ref'] Cons.prems(2) Drop by auto
  qed
qed

section \<open>Properties\<close>

text \<open>C13: from a fresh reference count, a fair history of takes and drops never panics, the counter
  is the number of references at the end, and a drop reports that it was the last one exactly
  when it brings the number of references to zero.\<close>

theorem refcount_history:
  assumes "fair_refs 1 ops"
  shows "\<exists>ref'. run_refs ops (refcount_init ref) = Some (map (\<lambda>n. n = 0) (refs_after 1 ops), ref')
    \<and> unat (ref_get ref') = last (1 # refs_after 1 ops)"
proof -
  have "counts 1 (refcount_init ref)"
    by (simp add: counts_def refcount_init_def)
  from run_refs_counts [OF this assms] obtain ref' where
      *: "run_refs ops (refcount_init ref) = Some (map (\<lambda>n. n = 0) (refs_after 1 ops), ref')"
      "counts (last (1 # refs_after 1 ops)) ref'"
    by blast
  have "unat (ref_get ref') = last (1 # refs_after 1 ops)"
    using *(2) by (auto simp: counts_def ref_get_def unat_of_nat_no_wrap)
  with * show ?thesis
    by blast
qed

theorem refcount_history_witness:
  "\<exists>ref'. run_refs [Take, Drop, Drop] (refcount_init REFCOUNT_EMPTY) = Some ([False, False, True], ref')
    \<and> unat (ref_get ref') = 0"
  using refcount_history [of "[Take, Drop, Drop]" REFCOUNT_EMPTY] by simp

text \<open>Dropping a reference that is not held is caught: \<open>ref_down\<close> panics on a count of zero.
  Taking one is not: \<open>ref_up\<close> on a count of zero, an object whose last reference is gone, succeeds
  and yields one.\<close>

lemma refcount_zero:
  "ref_down REFCOUNT_EMPTY = None \<and> ref_up REFCOUNT_EMPTY = Some (REFCOUNT_CREATE 1)"
  by (simp add: ref_down_def refcount_decrement_def ref_up_def refcount_increment_def
      REFCOUNT_EMPTY_def REFCOUNT_CREATE_def REFCOUNT_MAX_def)

end
