(* ===== verification/Avltree.thy ===== *)
theory Avltree
  imports Prelude "HOL-Library.Tree"
begin

text \<open>
  \<open>lib/adt/avltree.h\<close> and \<open>lib/adt/avltree.c\<close>: the intrusive AVL tree.  The C code works on
  nodes with parent, left and right pointers embedded in a client's structure; the model keeps
  that shape.  A node is a number, a pointer is a number or \<open>NULL\<close> (\<^const>\<open>None\<close>), and every
  field of \<open>struct avlnode\<close> is a function from nodes to values in the record \<open>avl_heap\<close>, which
  also holds the \<open>root\<close> field of the one \<open>struct avltree\<close> under consideration.  The record is
  extensible: a client's own fields are its extension, and the callbacks
  (\<open>comparator\<close>, \<open>update\<close>, \<open>added_node\<close>) see the whole heap.

  \<^const>\<open>None\<close> as the result of an operation means that the C code would dereference
  \<open>NULL\<close>, that a callback panics, or that a loop does not end.  \<open>avlnode_verify\<close> is empty
  outside the test build and is left out.
\<close>

record avl_heap =
  nparent :: "nat \<Rightarrow> nat option"
  nleft :: "nat \<Rightarrow> nat option"
  nright :: "nat \<Rightarrow> nat option"
  nheight :: "nat \<Rightarrow> u32"
  root :: "nat option"

text \<open>The stores \<open>x->field = v\<close>.\<close>

definition set_parent :: "nat \<Rightarrow> nat option \<Rightarrow> 'a avl_heap_scheme \<Rightarrow> 'a avl_heap_scheme" where
  "set_parent x v h = h\<lparr>nparent := (nparent h)(x := v)\<rparr>"

definition set_left :: "nat \<Rightarrow> nat option \<Rightarrow> 'a avl_heap_scheme \<Rightarrow> 'a avl_heap_scheme" where
  "set_left x v h = h\<lparr>nleft := (nleft h)(x := v)\<rparr>"

definition set_right :: "nat \<Rightarrow> nat option \<Rightarrow> 'a avl_heap_scheme \<Rightarrow> 'a avl_heap_scheme" where
  "set_right x v h = h\<lparr>nright := (nright h)(x := v)\<rparr>"

definition set_height :: "nat \<Rightarrow> u32 \<Rightarrow> 'a avl_heap_scheme \<Rightarrow> 'a avl_heap_scheme" where
  "set_height x v h = h\<lparr>nheight := (nheight h)(x := v)\<rparr>"

text \<open>\<open>if (p != NULL) p->parent = v\<close>\<close>

definition set_parent_opt ::
    "nat option \<Rightarrow> nat option \<Rightarrow> 'a avl_heap_scheme \<Rightarrow> 'a avl_heap_scheme" where
  "set_parent_opt p v h = (case p of None \<Rightarrow> h | Some x \<Rightarrow> set_parent x v h)"

text \<open>A \<open>struct avlnode **\<close>: the address of the tree's root or of a child field.\<close>

datatype link = LinkRoot | LinkLeft nat | LinkRight nat

fun set_link :: "link \<Rightarrow> nat option \<Rightarrow> 'a avl_heap_scheme \<Rightarrow> 'a avl_heap_scheme" where
  "set_link LinkRoot v h = h\<lparr>root := v\<rparr>"
| "set_link (LinkLeft x) v h = set_left x v h"
| "set_link (LinkRight x) v h = set_right x v h"

type_synonym 'a avlnode_update_t = "(nat \<Rightarrow> 'a avl_heap_scheme \<Rightarrow> 'a avl_heap_scheme option) option"
type_synonym 'a avlnode_compare_t = "'a avl_heap_scheme \<Rightarrow> nat \<Rightarrow> nat \<Rightarrow> int"

definition rotate_left :: "nat \<Rightarrow> 'a avl_heap_scheme \<Rightarrow> (nat \<times> 'a avl_heap_scheme) option" where
  "rotate_left node h =
     (case nright h node of
        None \<Rightarrow> None
      | Some new_top \<Rightarrow>
          let new_top_parent = nparent h node;
              new_top_left_right = nleft h new_top;
              h = set_right node new_top_left_right h;
              h = set_parent node (Some new_top) h;
              h = set_parent_opt new_top_left_right (Some node) h;
              h = set_parent new_top new_top_parent h;
              h = set_left new_top (Some node) h
          in Some (new_top, h))"

definition rotate_right :: "nat \<Rightarrow> 'a avl_heap_scheme \<Rightarrow> (nat \<times> 'a avl_heap_scheme) option" where
  "rotate_right node h =
     (case nleft h node of
        None \<Rightarrow> None
      | Some new_top \<Rightarrow>
          let new_top_parent = nparent h node;
              new_top_right_left = nright h new_top;
              h = set_left node new_top_right_left h;
              h = set_parent node (Some new_top) h;
              h = set_parent_opt new_top_right_left (Some node) h;
              h = set_parent new_top new_top_parent h;
              h = set_right new_top (Some node) h
          in Some (new_top, h))"

definition node_height :: "'a avl_heap_scheme \<Rightarrow> nat option \<Rightarrow> u32" where
  "node_height h p = (case p of None \<Rightarrow> 0 | Some x \<Rightarrow> nheight h x)"

definition node_balance :: "'a avl_heap_scheme \<Rightarrow> nat \<Rightarrow> int" where
  "node_balance h node = uint (node_height h (nright h node)) - uint (node_height h (nleft h node))"

definition reset_node_height :: "nat \<Rightarrow> 'a avl_heap_scheme \<Rightarrow> 'a avl_heap_scheme" where
  "reset_node_height node h =
     set_height node (1 + max (node_height h (nleft h node)) (node_height h (nright h node))) h"

definition get_node_link :: "nat \<Rightarrow> 'a avl_heap_scheme \<Rightarrow> link" where
  "get_node_link node h =
     (case nparent h node of
        Some p \<Rightarrow> if nleft h p = Some node then LinkLeft p else LinkRight p
      | None \<Rightarrow> LinkRoot)"

definition avlnode_update ::
    "'a avlnode_update_t \<Rightarrow> nat \<Rightarrow> 'a avl_heap_scheme \<Rightarrow> 'a avl_heap_scheme option" where
  "avlnode_update update node h = (case update of None \<Rightarrow> Some h | Some f \<Rightarrow> f node h)"

text \<open>The two rebalancing branches of \<open>avltree_fixup\<close>: the new top of the subtree and the
  heap.  The right-heavy branch calls \<open>update\<close> on the new top after the first rotation of a
  double rotation, the left-heavy branch does not.\<close>

definition fixup_right_heavy ::
    "'a avlnode_update_t \<Rightarrow> nat \<Rightarrow> 'a avl_heap_scheme \<Rightarrow> (nat \<times> 'a avl_heap_scheme) option" where
  "fixup_right_heavy update node h =
     (case nright h node of
        None \<Rightarrow> None
      | Some new_node \<Rightarrow>
          do { (new_node, h) \<leftarrow>
                 (if node_height h (nright h new_node) < node_height h (nleft h new_node)
                  then do { (new_node, h) \<leftarrow> rotate_right new_node h;
                            let h = set_right node (Some new_node) h;
                            let h = reset_node_height new_node h;
                            h \<leftarrow> avlnode_update update new_node h;
                            Some (new_node, h) }
                  else Some (new_node, h));
               let link = get_node_link node h;
               (top, h) \<leftarrow> rotate_left node h;
               let h = set_link link (Some top) h;
               let h = reset_node_height node h;
               h \<leftarrow> avlnode_update update node h;
               Some (new_node, h) })"

definition fixup_left_heavy ::
    "'a avlnode_update_t \<Rightarrow> nat \<Rightarrow> 'a avl_heap_scheme \<Rightarrow> (nat \<times> 'a avl_heap_scheme) option" where
  "fixup_left_heavy update node h =
     (case nleft h node of
        None \<Rightarrow> None
      | Some new_node \<Rightarrow>
          do { (new_node, h) \<leftarrow>
                 (if node_height h (nleft h new_node) < node_height h (nright h new_node)
                  then do { (new_node, h) \<leftarrow> rotate_left new_node h;
                            let h = set_left node (Some new_node) h;
                            let h = reset_node_height new_node h;
                            Some (new_node, h) }
                  else Some (new_node, h));
               let link = get_node_link node h;
               (top, h) \<leftarrow> rotate_right node h;
               let h = set_link link (Some top) h;
               let h = reset_node_height node h;
               h \<leftarrow> avlnode_update update node h;
               Some (new_node, h) })"

text \<open>One turn of the loop of \<open>avltree_fixup\<close>, up to \<open>node = node->parent\<close>.\<close>

definition fixup_step ::
    "'a avlnode_update_t \<Rightarrow> nat \<Rightarrow> 'a avl_heap_scheme \<Rightarrow> (nat \<times> 'a avl_heap_scheme) option" where
  "fixup_step update node h =
     do { (node, h) \<leftarrow>
            (if 1 < node_balance h node then fixup_right_heavy update node h
             else if node_balance h node < - 1 then fixup_left_heavy update node h
             else Some (node, reset_node_height node h));
          h \<leftarrow> avlnode_update update node h;
          Some (node, h) }"

partial_function (option) avltree_fixup ::
    "'a avlnode_update_t \<Rightarrow> nat option \<Rightarrow> 'a avl_heap_scheme \<Rightarrow> 'a avl_heap_scheme option" where
  "avltree_fixup update p h =
     (case p of
        None \<Rightarrow> Some h
      | Some node \<Rightarrow>
          do { (node, h) \<leftarrow> fixup_step update node h;
               avltree_fixup update (nparent h node) h })"

text \<open>The stores with which \<open>insert_at_loc\<close> begins.\<close>

definition attach_node ::
    "nat \<Rightarrow> nat option \<Rightarrow> link \<Rightarrow> 'a avl_heap_scheme \<Rightarrow> 'a avl_heap_scheme" where
  "attach_node node parent link h =
     (let h = set_height node 1 h;
          h = set_left node None h;
          h = set_right node None h;
          h = set_parent node parent h
      in set_link link (Some node) h)"

definition insert_at_loc ::
    "nat \<Rightarrow> nat option \<Rightarrow> link \<Rightarrow> 'a avlnode_update_t \<Rightarrow> 'a avlnode_update_t
     \<Rightarrow> 'a avl_heap_scheme \<Rightarrow> 'a avl_heap_scheme option" where
  "insert_at_loc node parent link update added_node h =
     do { let h = attach_node node parent link h;
          h \<leftarrow> avlnode_update added_node node h;
          h \<leftarrow> avlnode_update update node h;
          avltree_fixup update parent h }"

text \<open>The descent of \<open>avltree_insert\<close>: \<open>Fail\<close> when a node compares equal, else the parent and
  the link at which the node goes.\<close>

partial_function (option) insert_search ::
    "'a avlnode_compare_t \<Rightarrow> 'a avl_heap_scheme \<Rightarrow> nat \<Rightarrow> nat option \<Rightarrow> nat option \<Rightarrow> link
     \<Rightarrow> (nat option \<times> link) res option" where
  "insert_search comparator h node parent curr_node link =
     (case curr_node of
        None \<Rightarrow> Some (Ok (parent, link))
      | Some cur \<Rightarrow>
          (let compare = comparator h node cur
           in if compare = 0 then Some Fail
              else if compare < 0
              then insert_search comparator h node (Some cur) (nleft h cur) (LinkLeft cur)
              else insert_search comparator h node (Some cur) (nright h cur) (LinkRight cur)))"

definition avltree_insert ::
    "nat \<Rightarrow> 'a avlnode_compare_t \<Rightarrow> 'a avlnode_update_t \<Rightarrow> 'a avlnode_update_t
     \<Rightarrow> 'a avl_heap_scheme \<Rightarrow> (bool \<times> 'a avl_heap_scheme) option" where
  "avltree_insert node comparator update added_node h =
     do { loc \<leftarrow> insert_search comparator h node None (root h) LinkRoot;
          case loc of
            Fail \<Rightarrow> Some (False, h)
          | Ok (parent, link) \<Rightarrow>
              do { h \<leftarrow> insert_at_loc node parent link update added_node h;
                   Some (True, h) } }"

definition avltree_insert_at_loc ::
    "nat \<Rightarrow> nat option \<Rightarrow> link \<Rightarrow> 'a avlnode_update_t \<Rightarrow> 'a avl_heap_scheme
     \<Rightarrow> 'a avl_heap_scheme option" where
  "avltree_insert_at_loc node parent link update h = insert_at_loc node parent link update None h"

text \<open>The inner loop of \<open>avltree_delete_node\<close>: the leftmost node below \<open>successor\<close>, with the
  node above it.\<close>

partial_function (option) find_successor ::
    "'a avl_heap_scheme \<Rightarrow> nat \<Rightarrow> nat \<Rightarrow> (nat \<times> nat) option" where
  "find_successor h parent successor =
     (case nleft h successor of
        None \<Rightarrow> Some (parent, successor)
      | Some next \<Rightarrow> find_successor h successor next)"

text \<open>The part of \<open>avltree_delete_node\<close> that makes a node with two children trade places with
  its in-order successor; the result is the link at which the node now hangs and the node above
  it.\<close>

definition swap_with_successor ::
    "nat \<Rightarrow> nat \<Rightarrow> nat \<Rightarrow> link \<Rightarrow> 'a avl_heap_scheme
     \<Rightarrow> (link \<times> nat option \<times> 'a avl_heap_scheme) option" where
  "swap_with_successor node lchild successor node_link h =
     (case nleft h successor of
        Some next \<Rightarrow>
          do { (parent, succ) \<leftarrow> find_successor h successor next;
               let successor_link = LinkLeft parent;
               let h = set_left succ (Some lchild) h;
               let h = set_parent lchild (Some succ) h;
               let h = set_left node None h;
               let node_right = nright h node;
               let h = set_right node (nright h succ) h;
               let h = set_right succ node_right h;
               case node_right of
                 None \<Rightarrow> None
               | Some nr \<Rightarrow>
                   do { let h = set_parent nr (Some succ) h;
                        let h = set_parent_opt (nright h node) (Some node) h;
                        let h = set_link successor_link (Some node) h;
                        let h = set_link node_link (Some succ) h;
                        let h = set_parent succ (nparent h node) h;
                        let h = set_parent node (Some parent) h;
                        let node_height = nheight h node;
                        let h = set_height node (nheight h succ) h;
                        let h = set_height succ node_height h;
                        Some (successor_link, Some parent, h) } }
      | None \<Rightarrow>
          do { let h = set_left node None h;
               let h = set_right node (nright h successor) h;
               let h = set_left successor (Some lchild) h;
               let h = set_right successor (Some node) h;
               let h = set_parent lchild (Some successor) h;
               let h = set_parent_opt (nright h node) (Some node) h;
               let h = set_right successor (Some node) h;
               let h = set_parent successor (nparent h node) h;
               let h = set_parent node (Some successor) h;
               let h = set_link node_link (Some successor) h;
               let node_height = nheight h node;
               let h = set_height node (nheight h successor) h;
               let h = set_height successor node_height h;
               Some (LinkRight successor, Some successor, h) })"

definition avltree_delete_node ::
    "nat \<Rightarrow> 'a avlnode_update_t \<Rightarrow> 'a avl_heap_scheme \<Rightarrow> 'a avl_heap_scheme option" where
  "avltree_delete_node node update h =
     do { let node_link = get_node_link node h;
          let parent = nparent h node;
          (node_link, parent, h) \<leftarrow>
            (case (nleft h node, nright h node) of
               (Some lchild, Some rchild) \<Rightarrow> swap_with_successor node lchild rchild node_link h
             | _ \<Rightarrow> Some (node_link, parent, h));
          let first_child = (if nleft h node \<noteq> None then nleft h node else nright h node);
          let h = set_link node_link first_child h;
          let h = set_parent_opt first_child parent h;
          avltree_fixup update parent h }"

text \<open>\<open>avltree_delete\<close>: the descent by key, then the removal of the node found.\<close>

partial_function (option) delete_search ::
    "('a avl_heap_scheme \<Rightarrow> nat \<Rightarrow> 'k \<Rightarrow> int) \<Rightarrow> 'k \<Rightarrow> 'a avl_heap_scheme \<Rightarrow> nat option
     \<Rightarrow> nat option option" where
  "delete_search comparator key h curr_node =
     (case curr_node of
        None \<Rightarrow> Some None
      | Some cur \<Rightarrow>
          (let compare = comparator h cur key
           in if compare = 0 then Some (Some cur)
              else delete_search comparator key h
                     (if compare < 0 then nleft h cur else nright h cur)))"

definition avltree_delete ::
    "'k \<Rightarrow> ('a avl_heap_scheme \<Rightarrow> nat \<Rightarrow> 'k \<Rightarrow> int) \<Rightarrow> 'a avlnode_update_t
     \<Rightarrow> 'a avl_heap_scheme \<Rightarrow> (nat option \<times> 'a avl_heap_scheme) option" where
  "avltree_delete key comparator update h =
     do { found \<leftarrow> delete_search comparator key h (root h);
          case found of
            None \<Rightarrow> Some (None, h)
          | Some node \<Rightarrow> do { h \<leftarrow> avltree_delete_node node update h;
                               Some (Some node, h) } }"

partial_function (option) go_leftmost :: "'a avl_heap_scheme \<Rightarrow> nat \<Rightarrow> nat option" where
  "go_leftmost h node = (case nleft h node of None \<Rightarrow> Some node | Some l \<Rightarrow> go_leftmost h l)"

partial_function (option) go_rightmost :: "'a avl_heap_scheme \<Rightarrow> nat \<Rightarrow> nat option" where
  "go_rightmost h node = (case nright h node of None \<Rightarrow> Some node | Some r \<Rightarrow> go_rightmost h r)"

definition avltree_leftmost :: "'a avl_heap_scheme \<Rightarrow> nat option option" where
  "avltree_leftmost h =
     (case root h of None \<Rightarrow> Some None | Some node \<Rightarrow> map_option Some (go_leftmost h node))"

definition avltree_rightmost :: "'a avl_heap_scheme \<Rightarrow> nat option option" where
  "avltree_rightmost h =
     (case root h of None \<Rightarrow> Some None | Some node \<Rightarrow> map_option Some (go_rightmost h node))"

text \<open>The climb of \<open>avlnode_successor\<close>, which stops at the first ancestor that has a left
  child.\<close>

partial_function (option) climb_to_left_child ::
    "'a avl_heap_scheme \<Rightarrow> nat option \<Rightarrow> nat option option" where
  "climb_to_left_child h p =
     (case p of
        None \<Rightarrow> Some None
      | Some node \<Rightarrow>
          (if nleft h node \<noteq> None then Some (Some node)
           else climb_to_left_child h (nparent h node)))"

definition avlnode_successor :: "'a avl_heap_scheme \<Rightarrow> nat \<Rightarrow> nat option option" where
  "avlnode_successor h node =
     (case nright h node of
        Some r \<Rightarrow> map_option Some (go_leftmost h r)
      | None \<Rightarrow> climb_to_left_child h (nparent h node))"

text \<open>The loops are executable: their unfolding equations are code equations.\<close>

declare avltree_fixup.simps [code] insert_search.simps [code] find_successor.simps [code]
  delete_search.simps [code] go_leftmost.simps [code] go_rightmost.simps [code]
  climb_to_left_child.simps [code]

end
