(* ===== verification/Avltree_Shape.thy ===== *)
theory Avltree_Shape
  imports Avltree
begin

text \<open>
  What the heap of \<open>Avltree\<close> represents.  \<open>tree_at\<close> relates a heap to an inductive tree of node
  numbers, parent pointers included; a position inside the tree is a path of frames (a zipper),
  which is how the loops that climb towards the root are reasoned about.  The lemmas of this
  theory say that a rotation, wherever in the tree it happens, keeps the heap a well-formed
  tree with the same in-order sequence of nodes.
\<close>

section \<open>Trees and paths in the heap\<close>

fun root_of :: "nat tree \<Rightarrow> nat option" where
  "root_of Leaf = None"
| "root_of (Node l x r) = Some x"

fun tree_at :: "'a avl_heap_scheme \<Rightarrow> nat option \<Rightarrow> nat tree \<Rightarrow> bool" where
  "tree_at h p Leaf = True"
| "tree_at h p (Node l x r) =
     (nparent h x = p \<and> nleft h x = root_of l \<and> nright h x = root_of r \<and>
      tree_at h (Some x) l \<and> tree_at h (Some x) r)"

text \<open>The heap holds exactly the tree \<open>t\<close>.\<close>

definition avl_tree :: "'a avl_heap_scheme \<Rightarrow> nat tree \<Rightarrow> bool" where
  "avl_tree h t \<longleftrightarrow> root h = root_of t \<and> tree_at h None t \<and> distinct (inorder t)"

text \<open>A frame is a node with one of its subtrees left out.\<close>

datatype frame = FrameL nat "nat tree" | FrameR "nat tree" nat

fun frame_node :: "frame \<Rightarrow> nat" where
  "frame_node (FrameL x r) = x"
| "frame_node (FrameR l x) = x"

fun frame_other :: "frame \<Rightarrow> nat tree" where
  "frame_other (FrameL x r) = r"
| "frame_other (FrameR l x) = l"

fun plug :: "frame list \<Rightarrow> nat tree \<Rightarrow> nat tree" where
  "plug [] t = t"
| "plug (FrameL x r # ps) t = plug ps (Node t x r)"
| "plug (FrameR l x # ps) t = plug ps (Node l x t)"

fun path_parent :: "frame list \<Rightarrow> nat option" where
  "path_parent [] = None"
| "path_parent (f # ps) = Some (frame_node f)"

fun link_of :: "frame list \<Rightarrow> link" where
  "link_of [] = LinkRoot"
| "link_of (FrameL x r # ps) = LinkLeft x"
| "link_of (FrameR l x # ps) = LinkRight x"

fun path_before :: "frame list \<Rightarrow> nat list" where
  "path_before [] = []"
| "path_before (FrameL x r # ps) = path_before ps"
| "path_before (FrameR l x # ps) = path_before ps @ inorder l @ [x]"

fun path_after :: "frame list \<Rightarrow> nat list" where
  "path_after [] = []"
| "path_after (FrameL x r # ps) = x # inorder r @ path_after ps"
| "path_after (FrameR l x # ps) = path_after ps"

definition path_nodes :: "frame list \<Rightarrow> nat set" where
  "path_nodes ps = set (path_before ps) \<union> set (path_after ps)"

fun path_at :: "'a avl_heap_scheme \<Rightarrow> nat option \<Rightarrow> frame list \<Rightarrow> bool" where
  "path_at h c [] = (root h = c)"
| "path_at h c (FrameL x r # ps) =
     (nparent h x = path_parent ps \<and> nleft h x = c \<and> nright h x = root_of r \<and>
      tree_at h (Some x) r \<and> path_at h (Some x) ps)"
| "path_at h c (FrameR l x # ps) =
     (nparent h x = path_parent ps \<and> nleft h x = root_of l \<and> nright h x = c \<and>
      tree_at h (Some x) l \<and> path_at h (Some x) ps)"

text \<open>The heap holds the tree \<open>plug ps t\<close>, seen from the subtree \<open>t\<close>.\<close>

definition zip_at :: "'a avl_heap_scheme \<Rightarrow> frame list \<Rightarrow> nat tree \<Rightarrow> bool" where
  "zip_at h ps t \<longleftrightarrow>
     path_at h (root_of t) ps \<and> tree_at h (path_parent ps) t \<and> distinct (inorder (plug ps t))"

lemma inorder_plug: "inorder (plug ps t) = path_before ps @ inorder t @ path_after ps"
  by (induction ps t rule: plug.induct) auto

lemma path_nodes_simps [simp]:
  "path_nodes [] = {}"
  "path_nodes (FrameL x r # ps) = insert x (set_tree r \<union> path_nodes ps)"
  "path_nodes (FrameR l x # ps) = insert x (set_tree l \<union> path_nodes ps)"
  by (auto simp: path_nodes_def)

lemma set_plug: "set (inorder (plug ps t)) = path_nodes ps \<union> set_tree t"
  by (auto simp: inorder_plug path_nodes_def)

lemma avl_tree_zip: "avl_tree h (plug ps t) \<longleftrightarrow> zip_at h ps t"
  unfolding zip_at_def avl_tree_def
  by (induction ps t rule: plug.induct) auto

lemma root_of_in_set: "root_of t = Some x \<Longrightarrow> x \<in> set_tree t"
  by (cases t) auto

lemma zip_up_left: "zip_at h (FrameL x r # ps) t \<longleftrightarrow> zip_at h ps (Node t x r)"
  by (auto simp: zip_at_def)

lemma zip_up_right: "zip_at h (FrameR l x # ps) t \<longleftrightarrow> zip_at h ps (Node l x t)"
  by (auto simp: zip_at_def)

lemma zip_distinct:
  assumes "zip_at h ps t"
  shows "distinct (inorder t)" and "path_nodes ps \<inter> set_tree t = {}"
  using assms by (auto simp: zip_at_def inorder_plug path_nodes_def)

lemma zip_distinct_change:
  assumes "zip_at h ps t" and "inorder t' = inorder t"
  shows "distinct (inorder (plug ps t'))"
  using assms by (simp add: zip_at_def inorder_plug)

section \<open>Frames: what an update does not touch\<close>

definition same_links :: "nat set \<Rightarrow> 'a avl_heap_scheme \<Rightarrow> 'b avl_heap_scheme \<Rightarrow> bool" where
  "same_links S h h' \<longleftrightarrow>
     (\<forall>x\<in>S. nparent h' x = nparent h x \<and> nleft h' x = nleft h x \<and> nright h' x = nright h x)"

lemma tree_at_same: "tree_at h p t \<Longrightarrow> same_links (set_tree t) h h' \<Longrightarrow> tree_at h' p t"
  by (induction t arbitrary: p) (auto simp: same_links_def)

lemma path_at_same:
  "path_at h c ps \<Longrightarrow> same_links (path_nodes ps) h h' \<Longrightarrow> root h' = root h \<Longrightarrow> path_at h' c ps"
proof (induction ps arbitrary: c)
  case Nil
  then show ?case by simp
next
  case (Cons f ps)
  have "same_links (path_nodes ps) h h'"
    using Cons.prems(2) by (cases f) (auto simp: same_links_def)
  then have "\<And>c. path_at h c ps \<Longrightarrow> path_at h' c ps"
    using Cons.IH Cons.prems(3) by blast
  moreover have "tree_at h (Some (frame_node f)) (frame_other f)
      \<Longrightarrow> tree_at h' (Some (frame_node f)) (frame_other f)"
    using Cons.prems(2) by (cases f) (auto simp: same_links_def intro: tree_at_same)
  ultimately show ?case
    using Cons.prems(1,2) by (cases f) (auto simp: same_links_def)
qed

text \<open>Moving a subtree below another node changes the parent pointer of its root only.\<close>

lemma tree_at_reparent:
  assumes "tree_at h p t" and "distinct (inorder t)"
    and "\<And>x. x \<in> set_tree t \<Longrightarrow> nleft h' x = nleft h x \<and> nright h' x = nright h x"
    and "\<And>x. x \<in> set_tree t \<Longrightarrow> root_of t \<noteq> Some x \<Longrightarrow> nparent h' x = nparent h x"
    and "\<And>x. root_of t = Some x \<Longrightarrow> nparent h' x = q"
  shows "tree_at h' q t"
proof (cases t)
  case Leaf
  then show ?thesis by simp
next
  case (Node l x r)
  have "x \<notin> set_tree l" and "x \<notin> set_tree r"
    using assms(2) Node by auto
  then have "same_links (set_tree l) h h'" and "same_links (set_tree r) h h'"
    using assms(3,4) Node unfolding same_links_def by (metis UnI1 UnI2 insertI2 option.inject
        root_of.simps(2) tree.set(2))+
  then have "tree_at h' (Some x) l" and "tree_at h' (Some x) r"
    using assms(1) Node by (auto intro: tree_at_same)
  then show ?thesis
    using assms(1,3,5) Node by simp
qed

text \<open>Changing the link at the bottom of a path.\<close>

lemma path_at_set_link:
  assumes "path_at h c ps" and "distinct (path_before ps @ path_after ps)"
  shows "path_at (set_link (link_of ps) c' h) c' ps"
proof (cases ps)
  case Nil
  then show ?thesis by simp
next
  case (Cons f qs)
  have q: "path_at h (Some (frame_node f)) qs" and "tree_at h (Some (frame_node f)) (frame_other f)"
    using assms(1) Cons by (cases f; simp)+
  moreover have "frame_node f \<notin> path_nodes qs" and "frame_node f \<notin> set_tree (frame_other f)"
    using assms(2) Cons by (cases f; auto simp: path_nodes_def)+
  moreover have "same_links S h (set_link (link_of ps) c' h)" if "frame_node f \<notin> S" for S
    using that Cons by (cases f) (auto simp: same_links_def set_left_def set_right_def)
  moreover have "root (set_link (link_of ps) c' h) = root h"
    using Cons by (cases f) (auto simp: set_left_def set_right_def)
  ultimately have "path_at (set_link (link_of ps) c' h) (Some (frame_node f)) qs"
      and "tree_at (set_link (link_of ps) c' h) (Some (frame_node f)) (frame_other f)"
    by (blast intro: path_at_same tree_at_same)+
  with assms(1) Cons show ?thesis
    by (cases f) (auto simp: set_left_def set_right_def)
qed

lemma tree_at_set_link:
  assumes "tree_at h p t" and "path_nodes ps \<inter> set_tree t = {}"
  shows "tree_at (set_link (link_of ps) c' h) p t"
proof (rule tree_at_same [OF assms(1)])
  show "same_links (set_tree t) h (set_link (link_of ps) c' h)"
    using assms(2) by (cases ps rule: link_of.cases)
      (auto simp: same_links_def set_left_def set_right_def)
qed

lemma get_node_link_zip:
  assumes "zip_at h ps t" and "root_of t = Some x"
  shows "get_node_link x h = link_of ps"
proof (cases ps)
  case Nil
  with assms show ?thesis
    by (cases t) (auto simp: zip_at_def get_node_link_def)
next
  case (Cons f qs)
  have "x \<notin> path_nodes ps"
    using zip_distinct(2) [OF assms(1)] root_of_in_set [OF assms(2)] by blast
  with Cons assms show ?thesis
    by (cases f; cases t) (auto simp: zip_at_def get_node_link_def dest: root_of_in_set)
qed

text \<open>Heights and the client's part of the heap play no role in the shape.\<close>

lemma zip_at_cong:
  assumes "nparent h' = nparent h" and "nleft h' = nleft h" and "nright h' = nright h"
    and "root h' = root h"
  shows "zip_at h' ps t = zip_at h ps t"
proof -
  have same: "same_links S h h'" "same_links S h' h" for S
    using assms by (simp_all add: same_links_def)
  have "path_at h' c ps = path_at h c ps" for c
    using path_at_same [OF _ same(1) assms(4)] path_at_same [OF _ same(2)] assms(4) by metis
  moreover have "tree_at h' p t = tree_at h p t" for p
    using tree_at_same [OF _ same(1)] tree_at_same [OF _ same(2)] by blast
  ultimately show ?thesis
    by (simp add: zip_at_def)
qed

lemma zip_at_set_height [simp]: "zip_at (set_height x v h) ps t = zip_at h ps t"
  by (rule zip_at_cong) (simp_all add: set_height_def)

lemma zip_at_reset_height [simp]: "zip_at (reset_node_height x h) ps t = zip_at h ps t"
  by (simp add: reset_node_height_def)

lemma zip_at_more [simp]: "zip_at (h\<lparr>avl_heap.more := m\<rparr>) ps t = zip_at h ps t"
  by (rule zip_at_cong) simp_all

section \<open>Rotations\<close>

named_theorems heap_defs \<open>the stores into the heap\<close>

lemmas [heap_defs] = set_parent_def set_left_def set_right_def set_height_def set_parent_opt_def

text \<open>What a field holds after a store.\<close>

lemma heap_access:
  "nparent (set_parent n v h) = (nparent h)(n := v)"
  "nleft (set_parent n v h) = nleft h"
  "nright (set_parent n v h) = nright h"
  "nheight (set_parent n v h) = nheight h"
  "root (set_parent n v h) = root h"
  "avl_heap.more (set_parent n v h) = avl_heap.more h"
  "nparent (set_left n v h) = nparent h"
  "nleft (set_left n v h) = (nleft h)(n := v)"
  "nright (set_left n v h) = nright h"
  "nheight (set_left n v h) = nheight h"
  "root (set_left n v h) = root h"
  "avl_heap.more (set_left n v h) = avl_heap.more h"
  "nparent (set_right n v h) = nparent h"
  "nleft (set_right n v h) = nleft h"
  "nright (set_right n v h) = (nright h)(n := v)"
  "nheight (set_right n v h) = nheight h"
  "root (set_right n v h) = root h"
  "avl_heap.more (set_right n v h) = avl_heap.more h"
  "nparent (set_height n k h) = nparent h"
  "nleft (set_height n k h) = nleft h"
  "nright (set_height n k h) = nright h"
  "nheight (set_height n k h) = (nheight h)(n := k)"
  "root (set_height n k h) = root h"
  "avl_heap.more (set_height n k h) = avl_heap.more h"
  by (simp_all add: set_parent_def set_left_def set_right_def set_height_def)

lemma set_parent_opt_access:
  "nparent (set_parent_opt c v h) m = (if c = Some m then v else nparent h m)"
  "nleft (set_parent_opt c v h) = nleft h"
  "nright (set_parent_opt c v h) = nright h"
  "nheight (set_parent_opt c v h) = nheight h"
  "root (set_parent_opt c v h) = root h"
  "avl_heap.more (set_parent_opt c v h) = avl_heap.more h"
  by (auto simp: set_parent_opt_def set_parent_def split: option.splits)

lemma set_link_access:
  "nparent (set_link l v h) = nparent h"
  "nleft (set_link l v h) m = (if l = LinkLeft m then v else nleft h m)"
  "nright (set_link l v h) m = (if l = LinkRight m then v else nright h m)"
  "nheight (set_link l v h) = nheight h"
  "root (set_link l v h) = (if l = LinkRoot then v else root h)"
  "avl_heap.more (set_link l v h) = avl_heap.more h"
  by (cases l; simp add: heap_access)+

lemma rotate_left_zip:
  assumes z: "zip_at h ps (Node l x (Node rl y rr))"
  shows "\<exists>h'. rotate_left x h = Some (y, h')
    \<and> zip_at (set_link (link_of ps) (Some y) h') ps (Node (Node l x rl) y rr)
    \<and> avl_heap.more h' = avl_heap.more h"
proof -
  let ?h1 = "h\<lparr>nright := (nright h)(x := root_of rl), nleft := (nleft h)(y := Some x),
    nparent := (case root_of rl of None \<Rightarrow> (nparent h)(x := Some y)
                | Some z \<Rightarrow> (nparent h)(x := Some y, z := Some x))(y := path_parent ps)\<rparr>"
  have dist: "distinct (inorder l @ x # inorder rl @ y # inorder rr)"
    using zip_distinct(1) [OF z] by simp
  have off: "path_nodes ps \<inter> set_tree (Node l x (Node rl y rr)) = {}"
    by (rule zip_distinct(2) [OF z])
  have path: "path_at h (Some x) ps" and t: "tree_at h (path_parent ps) (Node l x (Node rl y rr))"
    using z by (simp_all add: zip_at_def)
  have rot: "rotate_left x h = Some (y, ?h1)"
    using t by (auto simp: rotate_left_def heap_defs Let_def split: option.splits)
  have rl: "root_of rl = Some z \<Longrightarrow> z \<in> set_tree rl" for z
    by (rule root_of_in_set)
  have "tree_at ?h1 (Some x) l" and "tree_at ?h1 (Some y) rr"
    using t dist rl by (auto intro!: tree_at_same [of h] simp: same_links_def split: option.splits)
  moreover have "tree_at ?h1 (Some x) rl"
    by (rule tree_at_reparent [of h "Some y"])
      (use t dist rl in \<open>auto split: option.splits\<close>)
  ultimately have "tree_at ?h1 (path_parent ps) (Node (Node l x rl) y rr)"
    using t dist rl by (auto split: option.splits)
  moreover have "path_at ?h1 (Some x) ps"
    by (rule path_at_same [OF path]) (use off rl in \<open>auto simp: same_links_def split: option.splits\<close>)
  moreover have "distinct (path_before ps @ path_after ps)"
    using z by (auto simp: zip_at_def inorder_plug)
  ultimately have "zip_at (set_link (link_of ps) (Some y) ?h1) ps (Node (Node l x rl) y rr)"
    using off zip_distinct_change [OF z, of "Node (Node l x rl) y rr"]
    by (auto simp: zip_at_def intro!: path_at_set_link tree_at_set_link simp del: tree_at.simps)
  with rot show ?thesis by auto
qed

lemma rotate_right_zip:
  assumes z: "zip_at h ps (Node (Node ll y lr) x r)"
  shows "\<exists>h'. rotate_right x h = Some (y, h')
    \<and> zip_at (set_link (link_of ps) (Some y) h') ps (Node ll y (Node lr x r))
    \<and> avl_heap.more h' = avl_heap.more h"
proof -
  let ?h1 = "h\<lparr>nleft := (nleft h)(x := root_of lr), nright := (nright h)(y := Some x),
    nparent := (case root_of lr of None \<Rightarrow> (nparent h)(x := Some y)
                | Some z \<Rightarrow> (nparent h)(x := Some y, z := Some x))(y := path_parent ps)\<rparr>"
  have dist: "distinct (inorder ll @ y # inorder lr @ x # inorder r)"
    using zip_distinct(1) [OF z] by simp
  have off: "path_nodes ps \<inter> set_tree (Node (Node ll y lr) x r) = {}"
    by (rule zip_distinct(2) [OF z])
  have path: "path_at h (Some x) ps" and t: "tree_at h (path_parent ps) (Node (Node ll y lr) x r)"
    using z by (simp_all add: zip_at_def)
  have rot: "rotate_right x h = Some (y, ?h1)"
    using t by (auto simp: rotate_right_def heap_defs Let_def split: option.splits)
  have lr: "root_of lr = Some z \<Longrightarrow> z \<in> set_tree lr" for z
    by (rule root_of_in_set)
  have "tree_at ?h1 (Some x) r" and "tree_at ?h1 (Some y) ll"
    using t dist lr by (auto intro!: tree_at_same [of h] simp: same_links_def split: option.splits)
  moreover have "tree_at ?h1 (Some x) lr"
    by (rule tree_at_reparent [of h "Some y"])
      (use t dist lr in \<open>auto split: option.splits\<close>)
  ultimately have "tree_at ?h1 (path_parent ps) (Node ll y (Node lr x r))"
    using t dist lr by (auto split: option.splits)
  moreover have "path_at ?h1 (Some x) ps"
    by (rule path_at_same [OF path]) (use off lr in \<open>auto simp: same_links_def split: option.splits\<close>)
  moreover have "distinct (path_before ps @ path_after ps)"
    using z by (auto simp: zip_at_def inorder_plug)
  ultimately have "zip_at (set_link (link_of ps) (Some y) ?h1) ps (Node ll y (Node lr x r))"
    using off zip_distinct_change [OF z, of "Node ll y (Node lr x r)"]
    by (auto simp: zip_at_def intro!: path_at_set_link tree_at_set_link simp del: tree_at.simps)
  with rot show ?thesis by auto
qed

end
