(* ===== verification/Avltree_Correct.thy ===== *)
theory Avltree_Correct
  imports Avltree_Shape
begin

text \<open>
  Functional correctness of \<open>lib/adt/avltree.c\<close>: insertion and removal end, never dereference
  \<open>NULL\<close>, keep every parent and child pointer consistent, and change the in-order sequence of
  nodes by exactly the node in question.  The callback \<open>update\<close> is an interface: the locale
  \<open>avl_update\<close> states what the tree relies on, and the lemmas about the operations are proved
  once inside it.
\<close>

section \<open>The contract of the update callback\<close>

text \<open>On a heap whose client part satisfies the client's invariant, the callback returns, writes
  only the client's part of the heap, and keeps the invariant.  \<open>S\<close> is the set of nodes that
  belong to the tree.\<close>

locale avl_update =
  fixes update :: "'a avlnode_update_t" and I :: "nat set \<Rightarrow> 'a \<Rightarrow> bool"
  assumes update_ok: "\<lbrakk>I S (avl_heap.more h); n \<in> S\<rbrakk>
    \<Longrightarrow> \<exists>m. avlnode_update update n h = Some (h\<lparr>avl_heap.more := m\<rparr>) \<and> I S m"
begin

lemma update_zip:
  assumes "I S (avl_heap.more h)" and "n \<in> S"
  obtains h' where "avlnode_update update n h = Some h'" and "I S (avl_heap.more h')"
    and "\<And>ps t. zip_at h' ps t = zip_at h ps t"
proof -
  obtain m where "avlnode_update update n h = Some (h\<lparr>avl_heap.more := m\<rparr>)" and "I S m"
    using update_ok [OF assms] by blast
  then show thesis
    using that [of "h\<lparr>avl_heap.more := m\<rparr>"] by simp
qed

lemma single_left:
  assumes z: "zip_at h ps (Node l x (Node rl y rr))" and I: "I S (avl_heap.more h)" and "x \<in> S"
  shows "\<exists>h'. (do { let link = get_node_link x h;
                    (top, h) \<leftarrow> rotate_left x h;
                    let h = set_link link (Some top) h;
                    let h = reset_node_height x h;
                    h \<leftarrow> avlnode_update update x h;
                    Some (y, h) }) = Some (y, h')
     \<and> zip_at h' ps (Node (Node l x rl) y rr) \<and> I S (avl_heap.more h')"
proof -
  obtain h1 where rot: "rotate_left x h = Some (y, h1)"
      and z1: "zip_at (set_link (link_of ps) (Some y) h1) ps (Node (Node l x rl) y rr)"
      and m1: "avl_heap.more h1 = avl_heap.more h"
    using rotate_left_zip [OF z] by blast
  let ?h2 = "reset_node_height x (set_link (link_of ps) (Some y) h1)"
  have "avl_heap.more ?h2 = avl_heap.more h"
    using m1 by (cases ps rule: link_of.cases) (simp_all add: reset_node_height_def heap_defs)
  then obtain h3 where "avlnode_update update x ?h2 = Some h3" and "I S (avl_heap.more h3)"
      and "\<And>ps t. zip_at h3 ps t = zip_at ?h2 ps t"
    using update_zip [of S ?h2 x] I \<open>x \<in> S\<close> by metis
  with rot z1 get_node_link_zip [OF z] show ?thesis
    by simp
qed

lemma single_right:
  assumes z: "zip_at h ps (Node (Node ll y lr) x r)" and I: "I S (avl_heap.more h)" and "x \<in> S"
  shows "\<exists>h'. (do { let link = get_node_link x h;
                    (top, h) \<leftarrow> rotate_right x h;
                    let h = set_link link (Some top) h;
                    let h = reset_node_height x h;
                    h \<leftarrow> avlnode_update update x h;
                    Some (y, h) }) = Some (y, h')
     \<and> zip_at h' ps (Node ll y (Node lr x r)) \<and> I S (avl_heap.more h')"
proof -
  obtain h1 where rot: "rotate_right x h = Some (y, h1)"
      and z1: "zip_at (set_link (link_of ps) (Some y) h1) ps (Node ll y (Node lr x r))"
      and m1: "avl_heap.more h1 = avl_heap.more h"
    using rotate_right_zip [OF z] by blast
  let ?h2 = "reset_node_height x (set_link (link_of ps) (Some y) h1)"
  have "avl_heap.more ?h2 = avl_heap.more h"
    using m1 by (cases ps rule: link_of.cases) (simp_all add: reset_node_height_def heap_defs)
  then obtain h3 where "avlnode_update update x ?h2 = Some h3" and "I S (avl_heap.more h3)"
      and "\<And>ps t. zip_at h3 ps t = zip_at ?h2 ps t"
    using update_zip [of S ?h2 x] I \<open>x \<in> S\<close> by metis
  with rot z1 get_node_link_zip [OF z] show ?thesis
    by simp
qed

section \<open>Rebalancing\<close>

lemma fixup_right_heavy_zip:
  assumes z: "zip_at h ps (Node l x (Node rl y rr))" and I: "I S (avl_heap.more h)"
    and S: "set_tree (Node l x (Node rl y rr)) \<subseteq> S"
  shows "\<exists>n h' t. fixup_right_heavy update x h = Some (n, h') \<and> zip_at h' ps t
    \<and> root_of t = Some n \<and> inorder t = inorder (Node l x (Node rl y rr)) \<and> I S (avl_heap.more h')"
proof -
  have right: "nright h x = Some y" and "nleft h y = root_of rl"
    using z by (auto simp: zip_at_def)
  show ?thesis
  proof (cases "node_height h (nright h y) < node_height h (nleft h y)")
    case False
    have "x \<in> S"
      using S by simp
    with single_left [OF z I] False right show ?thesis
      unfolding fixup_right_heavy_def by fastforce
  next
    case True
    then obtain rll w rlr where rl: "rl = Node rll w rlr"
      using \<open>nleft h y = root_of rl\<close> by (cases rl) (auto simp: node_height_def)
    have "zip_at h (FrameR l x # ps) (Node (Node rll w rlr) y rr)"
      using z rl by (simp add: zip_up_right)
    from rotate_right_zip [OF this] obtain h1 where rot: "rotate_right y h = Some (w, h1)"
        and z1: "zip_at (set_right x (Some w) h1) ps (Node l x (Node rll w (Node rlr y rr)))"
        and m1: "avl_heap.more h1 = avl_heap.more h"
      by (auto simp: zip_up_right)
    let ?h2 = "reset_node_height w (set_right x (Some w) h1)"
    have "avl_heap.more ?h2 = avl_heap.more h"
      using m1 by (simp add: reset_node_height_def heap_defs)
    then obtain h3 where u: "avlnode_update update w ?h2 = Some h3" and I3: "I S (avl_heap.more h3)"
        and "\<And>ps t. zip_at h3 ps t = zip_at ?h2 ps t"
      using update_zip [of S ?h2 w] I S rl by (metis UnCI insertI1 insertI2 subsetD tree.set(2))
    with z1 have z3: "zip_at h3 ps (Node l x (Node rll w (Node rlr y rr)))"
      by simp
    have "x \<in> S"
      using S by simp
    with single_left [OF z3 I3] True right rot u rl show ?thesis
      unfolding fixup_right_heavy_def by fastforce
  qed
qed

lemma fixup_left_heavy_zip:
  assumes z: "zip_at h ps (Node (Node ll y lr) x r)" and I: "I S (avl_heap.more h)"
    and S: "set_tree (Node (Node ll y lr) x r) \<subseteq> S"
  shows "\<exists>n h' t. fixup_left_heavy update x h = Some (n, h') \<and> zip_at h' ps t
    \<and> root_of t = Some n \<and> inorder t = inorder (Node (Node ll y lr) x r) \<and> I S (avl_heap.more h')"
proof -
  have left: "nleft h x = Some y" and "nright h y = root_of lr"
    using z by (auto simp: zip_at_def)
  show ?thesis
  proof (cases "node_height h (nleft h y) < node_height h (nright h y)")
    case False
    have "x \<in> S"
      using S by simp
    with single_right [OF z I] False left show ?thesis
      unfolding fixup_left_heavy_def by fastforce
  next
    case True
    then obtain lrl w lrr where lr: "lr = Node lrl w lrr"
      using \<open>nright h y = root_of lr\<close> by (cases lr) (auto simp: node_height_def)
    have "zip_at h (FrameL x r # ps) (Node ll y (Node lrl w lrr))"
      using z lr by (simp add: zip_up_left)
    from rotate_left_zip [OF this] obtain h1 where rot: "rotate_left y h = Some (w, h1)"
        and z1: "zip_at (set_left x (Some w) h1) ps (Node (Node (Node ll y lrl) w lrr) x r)"
        and m1: "avl_heap.more h1 = avl_heap.more h"
      by (auto simp: zip_up_left)
    let ?h2 = "reset_node_height w (set_left x (Some w) h1)"
    have "I S (avl_heap.more ?h2)"
      using m1 I by (simp add: reset_node_height_def heap_defs)
    moreover have "zip_at ?h2 ps (Node (Node (Node ll y lrl) w lrr) x r)"
      using z1 by simp
    moreover have "x \<in> S"
      using S by simp
    ultimately show ?thesis
      using single_right [of ?h2 ps "Node ll y lrl" w lrr x r S] True left rot lr
      unfolding fixup_left_heavy_def by fastforce
  qed
qed

lemma fixup_step_zip:
  assumes z: "zip_at h ps (Node l x r)" and I: "I S (avl_heap.more h)"
    and S: "set_tree (Node l x r) \<subseteq> S"
  shows "\<exists>n h' t. fixup_step update x h = Some (n, h') \<and> zip_at h' ps t
    \<and> root_of t = Some n \<and> inorder t = inorder (Node l x r) \<and> I S (avl_heap.more h')"
proof -
  let ?branch = "if 1 < node_balance h x then fixup_right_heavy update x h
     else if node_balance h x < - 1 then fixup_left_heavy update x h
     else Some (x, reset_node_height x h)"
  have "\<exists>n h' t. ?branch = Some (n, h') \<and> zip_at h' ps t
    \<and> root_of t = Some n \<and> inorder t = inorder (Node l x r) \<and> I S (avl_heap.more h')"
  proof -
    have ptrs: "nleft h x = root_of l" "nright h x = root_of r"
      using z by (simp_all add: zip_at_def)
    consider "1 < node_balance h x" | "node_balance h x < - 1" | "\<bar>node_balance h x\<bar> \<le> 1"
      by linarith
    then show ?thesis
    proof cases
      case 1
      then have "0 < uint (node_height h (nright h x))"
        using uint_ge_0 [of "node_height h (nleft h x)"]
        unfolding node_balance_def by linarith
      with ptrs obtain rl y rr where "r = Node rl y rr"
        by (cases r) (auto simp: node_height_def)
      with 1 fixup_right_heavy_zip z I S show ?thesis
        by simp
    next
      case 2
      then have "0 < uint (node_height h (nleft h x))"
        using uint_ge_0 [of "node_height h (nright h x)"]
        unfolding node_balance_def by linarith
      with ptrs obtain ll y lr where "l = Node ll y lr"
        by (cases l) (auto simp: node_height_def)
      with 2 fixup_left_heavy_zip z I S show ?thesis
        by simp
    next
      case 3
      have "avl_heap.more (reset_node_height x h) = avl_heap.more h"
        by (simp add: reset_node_height_def heap_defs)
      with 3 z I show ?thesis
        by (intro exI [of _ x] exI [of _ "reset_node_height x h"] exI [of _ "Node l x r"]) auto
    qed
  qed
  then obtain n h1 t where b: "?branch = Some (n, h1)" and z1: "zip_at h1 ps t"
      and t: "root_of t = Some n" "inorder t = inorder (Node l x r)" and I1: "I S (avl_heap.more h1)"
    by blast
  have "n \<in> S"
    using root_of_in_set [OF t(1)] t(2) S by (metis set_inorder subsetD)
  then obtain h2 where "avlnode_update update n h1 = Some h2" and "I S (avl_heap.more h2)"
      and "\<And>ps t. zip_at h2 ps t = zip_at h1 ps t"
    using update_zip [OF I1] by metis
  with b z1 t show ?thesis
    unfolding fixup_step_def by fastforce
qed

text \<open>The climb to the root ends, and what it leaves behind is a tree with the same nodes in the
  same order.\<close>

lemma avltree_fixup_zip:
  assumes "zip_at h ps t" and "I S (avl_heap.more h)" and "set_tree (plug ps t) \<subseteq> S"
  shows "\<exists>h' t'. avltree_fixup update (path_parent ps) h = Some h' \<and> avl_tree h' t'
    \<and> inorder t' = inorder (plug ps t) \<and> I S (avl_heap.more h')"
  using assms
proof (induction ps arbitrary: h t)
  case Nil
  then show ?case
    by (subst avltree_fixup.simps) (auto simp: avl_tree_zip [of h "[]", simplified])
next
  case (Cons f ps)
  obtain l r where up: "zip_at h ps (Node l (frame_node f) r)"
      and pl: "plug (f # ps) t = plug ps (Node l (frame_node f) r)"
    using Cons.prems(1) by (cases f) (auto simp: zip_up_left zip_up_right)
  have sub: "set_tree (Node l (frame_node f) r) \<subseteq> S"
    using Cons.prems(3) pl set_plug [of ps] by (metis Un_subset_iff set_inorder)
  obtain n h1 t1 where step: "fixup_step update (frame_node f) h = Some (n, h1)"
      and z1: "zip_at h1 ps t1" and t1: "root_of t1 = Some n"
        "inorder t1 = inorder (Node l (frame_node f) r)" and I1: "I S (avl_heap.more h1)"
    using fixup_step_zip [OF up Cons.prems(2) sub] by blast
  have par: "nparent h1 n = path_parent ps"
    using z1 t1(1) by (cases t1) (auto simp: zip_at_def)
  have eq: "inorder (plug ps t1) = inorder (plug (f # ps) t)"
    using t1(2) pl by (simp add: inorder_plug)
  then have "set_tree (plug ps t1) \<subseteq> S"
    using Cons.prems(3) by (metis set_inorder)
  then obtain h' t' where "avltree_fixup update (path_parent ps) h1 = Some h'" and "avl_tree h' t'"
      and "inorder t' = inorder (plug ps t1)" and "I S (avl_heap.more h')"
    using Cons.IH [OF z1 I1] by blast
  with step par eq show ?case
    by (subst avltree_fixup.simps) auto
qed

end

section \<open>Insertion\<close>

text \<open>The descent finds the gap between the nodes that compare below and those that compare above
  the new one, or a node that compares equal.\<close>

lemma insert_search_Some:
  "cmp h x y = 0 \<Longrightarrow> insert_search cmp h x q (Some y) link = Some Fail"
  "cmp h x y < 0 \<Longrightarrow> insert_search cmp h x q (Some y) link
     = insert_search cmp h x (Some y) (nleft h y) (LinkLeft y)"
  "0 < cmp h x y \<Longrightarrow> insert_search cmp h x q (Some y) link
     = insert_search cmp h x (Some y) (nright h y) (LinkRight y)"
  by (subst insert_search.simps, simp)+

lemma insert_search_gap:
  assumes "zip_at h ps t" and "inorder t = as @ bs"
    and "\<And>a. a \<in> set as \<Longrightarrow> 0 < cmp h x a" and "\<And>b. b \<in> set bs \<Longrightarrow> cmp h x b < 0"
  shows "\<exists>qs. insert_search cmp h x (path_parent ps) (root_of t) (link_of ps)
        = Some (Ok (path_parent qs, link_of qs))
    \<and> zip_at h qs Leaf \<and> path_before qs = path_before ps @ as \<and> path_after qs = bs @ path_after ps"
  using assms
proof (induction t arbitrary: ps as bs)
  case Leaf
  then show ?case
    by (intro exI [of _ ps]) (simp add: insert_search.simps [of _ _ _ _ None])
next
  case (Node l y r)
  have ptrs: "nleft h y = root_of l" "nright h y = root_of r"
    using Node.prems(1) by (simp_all add: zip_at_def)
  have "y \<in> set as \<union> set bs"
    using Node.prems(2) by (metis Un_iff in_set_conv_decomp inorder.simps(2) set_append)
  then consider "cmp h x y < 0" | "0 < cmp h x y"
    using Node.prems(3,4) by blast
  then show ?case
  proof cases
    case 1
    obtain bs' where "inorder l = as @ bs'" and bs: "bs = bs' @ y # inorder r"
    proof (rule append_split_right [where P = "\<lambda>z. cmp h x z < 0"])
      show "inorder l @ y # inorder r = as @ bs"
        using Node.prems(2) by simp
    qed (use Node.prems(3) 1 in force)+
    then show ?thesis
      using Node.IH(1) [of "FrameL y r # ps" as bs'] Node.prems(1,3,4) ptrs
      by (simp add: insert_search_Some(2) [where cmp = cmp, OF 1] zip_up_left)
  next
    case 2
    obtain as' where as: "as = inorder l @ y # as'" and "inorder r = as' @ bs"
    proof (rule append_split_left [where P = "\<lambda>z. 0 < cmp h x z"])
      show "inorder l @ y # inorder r = as @ bs"
        using Node.prems(2) by simp
    qed (use Node.prems(4) 2 in force)+
    then show ?thesis
      using Node.IH(2) [of "FrameR l y # ps" as' bs] Node.prems(1,3,4) ptrs
      by (simp add: insert_search_Some(3) [where cmp = cmp, OF 2] zip_up_right)
  qed
qed

lemma insert_search_equal:
  assumes "tree_at h p t" and "inorder t = as @ cs @ bs" and "cs \<noteq> []"
    and "\<And>a. a \<in> set as \<Longrightarrow> 0 < cmp h x a" and "\<And>c. c \<in> set cs \<Longrightarrow> cmp h x c = 0"
    and "\<And>b. b \<in> set bs \<Longrightarrow> cmp h x b < 0"
  shows "insert_search cmp h x q (root_of t) link = Some Fail"
  using assms
proof (induction t arbitrary: p q link as bs cs)
  case Leaf
  then show ?case by simp
next
  case (Node l y r)
  have "y \<in> set as \<union> set cs \<union> set bs"
    using Node.prems(2) by (metis Un_iff in_set_conv_decomp inorder.simps(2) set_append)
  then consider "cmp h x y = 0" | "cmp h x y < 0" | "0 < cmp h x y"
    using Node.prems(4-6) by blast
  then show ?case
  proof cases
    case 1
    then show ?thesis
      by (simp add: insert_search_Some(1))
  next
    case 2
    obtain bs' where "inorder l = as @ cs @ bs'" and "bs = bs' @ y # inorder r"
    proof (rule append_split_right [where P = "\<lambda>z. cmp h x z < 0"])
      show "inorder l @ y # inorder r = (as @ cs) @ bs"
        using Node.prems(2) by simp
    qed (use Node.prems(4,5) 2 in force)+
    then show ?thesis
      using Node.IH(1) [of "Some y" as cs bs'] Node.prems(1,3-6)
      by (simp add: insert_search_Some(2) [where cmp = cmp, OF 2])
  next
    case 3
    obtain as' where "as = inorder l @ y # as'" and "inorder r = as' @ cs @ bs"
    proof (rule append_split_left [where P = "\<lambda>z. 0 < cmp h x z"])
      show "inorder l @ y # inorder r = as @ cs @ bs"
        using Node.prems(2) by simp
    qed (use Node.prems(5,6) 3 in force)+
    then show ?thesis
      using Node.IH(2) [of "Some y" as' cs bs] Node.prems(1,3-6)
      by (simp add: insert_search_Some(3) [where cmp = cmp, OF 3])
  qed
qed

lemma attach_node_zip:
  assumes z: "zip_at h ps Leaf" and "x \<notin> path_nodes ps"
  shows "zip_at (attach_node x (path_parent ps) (link_of ps) h) ps (Node Leaf x Leaf)"
    and "avl_heap.more (attach_node x (path_parent ps) (link_of ps) h) = avl_heap.more h"
proof -
  let ?h1 = "set_parent x (path_parent ps) (set_right x None (set_left x None (set_height x 1 h)))"
  have a: "attach_node x (path_parent ps) (link_of ps) h = set_link (link_of ps) (Some x) ?h1"
    by (simp add: attach_node_def)
  then show "avl_heap.more (attach_node x (path_parent ps) (link_of ps) h) = avl_heap.more h"
    by (cases ps rule: link_of.cases) (simp_all add: heap_defs)
  have "path_at h None ps" and d: "distinct (path_before ps @ path_after ps)"
    using z by (simp_all add: zip_at_def inorder_plug)
  then have "path_at ?h1 None ps"
    using assms(2) by (auto intro!: path_at_same [of h] simp: same_links_def heap_defs)
  then have "path_at (set_link (link_of ps) (Some x) ?h1) (Some x) ps"
    using d by (rule path_at_set_link)
  moreover have "tree_at ?h1 (path_parent ps) (Node Leaf x Leaf)"
    by (simp add: heap_defs)
  then have "tree_at (set_link (link_of ps) (Some x) ?h1) (path_parent ps) (Node Leaf x Leaf)"
    by (rule tree_at_set_link) (use assms(2) in simp)
  ultimately show "zip_at (attach_node x (path_parent ps) (link_of ps) h) ps (Node Leaf x Leaf)"
    using a d assms(2) by (simp add: zip_at_def inorder_plug path_nodes_def)
qed

context avl_update
begin

text \<open>The callback \<open>added_node\<close> runs once, on the heap in which the new node has just been linked
  in; it may change the client's part of the heap.\<close>

lemma insert_at_loc_zip:
  assumes z: "zip_at h ps Leaf" and "x \<notin> path_nodes ps"
    and "insert x (path_nodes ps) \<subseteq> S"
    and added: "\<exists>m. avlnode_update added x (attach_node x (path_parent ps) (link_of ps) h)
      = Some ((attach_node x (path_parent ps) (link_of ps) h)\<lparr>avl_heap.more := m\<rparr>) \<and> I S m"
  shows "\<exists>h' t'. insert_at_loc x (path_parent ps) (link_of ps) update added h = Some h'
    \<and> avl_tree h' t' \<and> inorder t' = path_before ps @ x # path_after ps \<and> I S (avl_heap.more h')"
proof -
  let ?a = "attach_node x (path_parent ps) (link_of ps) h"
  obtain m where m: "avlnode_update added x ?a = Some (?a\<lparr>avl_heap.more := m\<rparr>)" and "I S m"
    using added by blast
  let ?h1 = "?a\<lparr>avl_heap.more := m\<rparr>"
  have "I S (avl_heap.more ?h1)" and "x \<in> S"
    using \<open>I S m\<close> assms(3) by simp_all
  then obtain h2 where u: "avlnode_update update x ?h1 = Some h2" and I2: "I S (avl_heap.more h2)"
      and "\<And>ps t. zip_at h2 ps t = zip_at ?h1 ps t"
    by (rule update_zip) blast
  with attach_node_zip(1) [OF assms(1,2)] have "zip_at h2 ps (Node Leaf x Leaf)"
    by simp
  moreover have "set_tree (plug ps (Node Leaf x Leaf)) \<subseteq> S"
    using assms(3) set_plug [of ps "Node Leaf x Leaf"] by auto
  ultimately obtain h' t' where "avltree_fixup update (path_parent ps) h2 = Some h'"
      and "avl_tree h' t'" and "inorder t' = inorder (plug ps (Node Leaf x Leaf))"
      and "I S (avl_heap.more h')"
    using avltree_fixup_zip I2 by blast
  with m u show ?thesis
    by (auto simp: insert_at_loc_def inorder_plug)
qed

end

end
