(* ===== verification/Avltree_Delete.thy ===== *)
theory Avltree_Delete
  imports Avltree_Correct
begin

text \<open>
  Removal from the tree of \<open>lib/adt/avltree.c\<close>.  A node with two children first trades places
  with its in-order successor; the heap after the exchange is the heap before it with the two
  node numbers renamed, which is how the exchange is proved.  What is left is a node with at
  most one child, whose child takes its place.
\<close>

section \<open>Local consistency of the links\<close>

lemma tree_at_children:
  assumes "tree_at h p t" and "distinct (inorder t)" and "n \<in> set_tree t"
  shows "nleft h n = Some c \<Longrightarrow> c \<in> set_tree t \<and> nparent h c = Some n \<and> nright h n \<noteq> Some c"
    and "nright h n = Some c \<Longrightarrow> c \<in> set_tree t \<and> nparent h c = Some n \<and> nleft h n \<noteq> Some c"
proof -
  have "(nleft h n = Some c \<longrightarrow> c \<in> set_tree t \<and> nparent h c = Some n \<and> nright h n \<noteq> Some c)
      \<and> (nright h n = Some c \<longrightarrow> c \<in> set_tree t \<and> nparent h c = Some n \<and> nleft h n \<noteq> Some c)"
    using assms
  proof (induction t arbitrary: p)
    case Leaf
    then show ?case by simp
  next
    case (Node l x r)
    have child: "root_of u = Some c \<Longrightarrow> tree_at h q u \<Longrightarrow> c \<in> set_tree u \<and> nparent h c = q" for u q
      by (cases u) auto
    have "root_of l = Some c \<Longrightarrow> root_of r \<noteq> Some c"
      using Node.prems(2) by (auto dest!: root_of_in_set)
    with Node child show ?case
      by auto
  qed
  then show "nleft h n = Some c \<Longrightarrow> c \<in> set_tree t \<and> nparent h c = Some n \<and> nright h n \<noteq> Some c"
    and "nright h n = Some c \<Longrightarrow> c \<in> set_tree t \<and> nparent h c = Some n \<and> nleft h n \<noteq> Some c"
    by blast+
qed

lemma tree_at_parent:
  assumes "tree_at h p t" and "n \<in> set_tree t"
  shows "(root_of t = Some n \<and> nparent h n = p)
    \<or> (\<exists>q\<in>set_tree t. nparent h n = Some q \<and> (nleft h q = Some n \<or> nright h q = Some n))"
  using assms
proof (induction t arbitrary: p)
  case Leaf
  then show ?case by simp
next
  case (Node l x r)
  then show ?case by fastforce
qed

section \<open>Renaming\<close>

definition exchange :: "nat \<Rightarrow> nat \<Rightarrow> nat \<Rightarrow> nat" where
  "exchange a b n = (if n = a then b else if n = b then a else n)"

lemma exchange_simps [simp]:
  "exchange a b a = b" "exchange a b b = a" "n \<noteq> a \<Longrightarrow> n \<noteq> b \<Longrightarrow> exchange a b n = n"
  by (simp_all add: exchange_def)

lemma map_option_exchange [simp]:
  "c \<noteq> Some a \<Longrightarrow> c \<noteq> Some b \<Longrightarrow> map_option (exchange a b) c = c"
  by (cases c) auto

lemma inj_exchange: "inj (exchange a b)"
  by (auto simp: inj_def exchange_def split: if_splits)

lemma inorder_map_tree: "inorder (map_tree f t) = map f (inorder t)"
  by (induction t) auto

lemma root_of_map_tree: "root_of (map_tree f t) = map_option f (root_of t)"
  by (cases t) auto

lemma tree_at_rename:
  assumes "tree_at h p t"
    and "\<And>n. n \<in> set_tree t \<Longrightarrow> nparent h' (f n) = map_option f (nparent h n)
      \<and> nleft h' (f n) = map_option f (nleft h n) \<and> nright h' (f n) = map_option f (nright h n)"
  shows "tree_at h' (map_option f p) (map_tree f t)"
  using assms
proof (induction t arbitrary: p)
  case Leaf
  then show ?case by simp
next
  case (Node l x r)
  have "tree_at h' (map_option f (Some x)) (map_tree f l)"
    using Node.prems by (intro Node.IH) auto
  moreover have "tree_at h' (map_option f (Some x)) (map_tree f r)"
    using Node.prems by (intro Node.IH) auto
  ultimately show ?case
    using Node.prems by (simp add: root_of_map_tree)
qed

lemma avl_tree_rename:
  assumes "avl_tree h t" and "inj f" and "root h' = map_option f (root h)"
    and "\<And>n. n \<in> set_tree t \<Longrightarrow> nparent h' (f n) = map_option f (nparent h n)
      \<and> nleft h' (f n) = map_option f (nleft h n) \<and> nright h' (f n) = map_option f (nright h n)"
  shows "avl_tree h' (map_tree f t)"
  using assms tree_at_rename [of h None t h' f]
  by (auto simp: avl_tree_def root_of_map_tree inorder_map_tree distinct_map inj_on_def inj_def)

lemma map_tree_idle: "(\<And>n. n \<in> set_tree t \<Longrightarrow> f n = n) \<Longrightarrow> map_tree f t = t"
  by (induction t) auto

fun map_frame :: "(nat \<Rightarrow> nat) \<Rightarrow> frame \<Rightarrow> frame" where
  "map_frame f (FrameL x r) = FrameL (f x) (map_tree f r)"
| "map_frame f (FrameR l x) = FrameR (map_tree f l) (f x)"

lemma map_tree_plug: "map_tree f (plug ps t) = plug (map (map_frame f) ps) (map_tree f t)"
  by (induction ps t rule: plug.induct) auto

lemma map_frames_idle:
  "(\<And>n. n \<in> path_nodes ps \<Longrightarrow> f n = n) \<Longrightarrow> map (map_frame f) ps = ps"
proof (induction ps)
  case Nil
  then show ?case by simp
next
  case (Cons a ps)
  then show ?case by (cases a) (auto intro: map_tree_idle)
qed

lemma plug_append: "plug (ps @ qs) t = plug qs (plug ps t)"
  by (induction ps t rule: plug.induct) auto

lemma path_append:
  "path_before (ps @ qs) = path_before qs @ path_before ps"
  "path_after (ps @ qs) = path_after ps @ path_after qs"
  by (induction ps rule: path_before.induct) simp_all

lemma map_tree_exchange:
  assumes "distinct (inorder (plug ps (Node l x (plug qs (Node Leaf s sr)))))"
  shows "map_tree (exchange x s) (plug ps (Node l x (plug qs (Node Leaf s sr))))
    = plug ps (Node l s (plug qs (Node Leaf x sr)))"
proof -
  let ?f = "exchange x s"
  have "x \<notin> path_nodes ps" "s \<notin> path_nodes ps" "x \<notin> path_nodes qs" "s \<notin> path_nodes qs"
      "x \<notin> set_tree l" "s \<notin> set_tree l" "x \<notin> set_tree sr" "s \<notin> set_tree sr"
    using assms by (auto simp: inorder_plug path_nodes_def)
  then have "map (map_frame ?f) ps = ps" "map (map_frame ?f) qs = qs"
      "map_tree ?f l = l" "map_tree ?f sr = sr"
    by (metis exchange_simps(3) map_frames_idle map_tree_idle)+
  then show ?thesis
    by (simp add: map_tree_plug)
qed

lemma set_tree_plug: "set_tree (plug ps t) = path_nodes ps \<union> set_tree t"
  using set_plug [of ps t] by simp

section \<open>The in-order successor\<close>

lemma find_successor_plug:
  assumes "tree_at h (Some q) u" and "root_of u = Some y"
  shows "\<exists>qs s sr par. find_successor h q y = Some (par, s) \<and> u = plug qs (Node Leaf s sr)
    \<and> path_before qs = [] \<and> nparent h s = Some par
    \<and> (nleft h y = None \<and> s = y \<and> par = q \<and> qs = [] \<or> nleft h y \<noteq> None \<and> nleft h par = Some s \<and> par \<in> set_tree u)"
  using assms
proof (induction u arbitrary: q y)
  case Leaf
  then show ?case by simp
next
  case (Node l x r)
  show ?case
  proof (cases l)
    case Leaf
    with Node.prems show ?thesis
      by (subst find_successor.simps) (auto intro!: exI [of _ "[]"])
  next
    case (Node ll z lr)
    then have "tree_at h (Some x) l" and "root_of l = Some z"
      using Node.prems by simp_all
    from Node.IH(1) [OF this] obtain qs s sr par where
      *: "find_successor h x z = Some (par, s)" "l = plug qs (Node Leaf s sr)"
        "path_before qs = []" "nparent h s = Some par"
        "nleft h z = None \<and> s = z \<and> par = x \<and> qs = [] \<or> nleft h z \<noteq> None \<and> nleft h par = Some s \<and> par \<in> set_tree l"
      by blast
    have "find_successor h q y = find_successor h x z" and y: "y = x" "nleft h x = Some z"
      using Node.prems Node by (simp_all add: find_successor.simps [of h q])
    moreover have "Node l x r = plug (qs @ [FrameL x r]) (Node Leaf s sr)"
      using * by (simp add: plug_append)
    moreover have "path_before (qs @ [FrameL x r]) = []"
      using \<open>path_before qs = []\<close> by (simp add: path_append)
    moreover have "nleft h par = Some s \<and> par \<in> set_tree (Node l x r)"
      using * y by auto
    ultimately show ?thesis
      using * by (intro exI [of _ "qs @ [FrameL x r]"] exI) auto
  qed
qed

section \<open>The exchange\<close>

text \<open>The links into a node of the tree come from its neighbours only.\<close>

lemma parent_is_iff:
  assumes "avl_tree h t" and "n \<in> set_tree t" and "m \<in> set_tree t"
  shows "nparent h n = Some m \<longleftrightarrow> nleft h m = Some n \<or> nright h m = Some n"
proof -
  have t: "tree_at h None t" "distinct (inorder t)"
    using assms(1) by (simp_all add: avl_tree_def)
  show ?thesis
    using tree_at_children [OF t assms(3)] tree_at_parent [OF t(1) assms(2)] by auto
qed

lemma link_is_iff:
  assumes "avl_tree h t" and x: "x \<in> set_tree t" and n: "n \<in> set_tree t"
  shows "nleft h n = Some x \<longleftrightarrow> get_node_link x h = LinkLeft n"
    and "nright h n = Some x \<longleftrightarrow> get_node_link x h = LinkRight n"
    and "root h = Some x \<longleftrightarrow> get_node_link x h = LinkRoot"
proof -
  have t: "tree_at h None t" "distinct (inorder t)" and "root h = root_of t"
    using assms(1) by (simp_all add: avl_tree_def)
  moreover have "root_of t = Some x \<longleftrightarrow> nparent h x = None"
    using t x tree_at_parent [OF t(1) x] by (cases t) auto
  ultimately show "nleft h n = Some x \<longleftrightarrow> get_node_link x h = LinkLeft n"
    and "nright h n = Some x \<longleftrightarrow> get_node_link x h = LinkRight n"
    and "root h = Some x \<longleftrightarrow> get_node_link x h = LinkRoot"
    using tree_at_children [OF t n] tree_at_parent [OF t(1) x]
    by (auto simp: get_node_link_def split: option.splits)
qed

lemma swap_shallow:
  assumes t: "avl_tree h T" "T = plug ps (Node l x (Node Leaf s sr))" and a: "nleft h x = Some a"
  shows "\<exists>h'. swap_with_successor x a s (get_node_link x h) h = Some (LinkRight s, Some s, h')
    \<and> avl_tree h' (map_tree (exchange x s) T) \<and> avl_heap.more h' = avl_heap.more h
    \<and> nparent h' x = Some s \<and> get_node_link x h' = LinkRight s"
proof -
  have z: "zip_at h ps (Node l x (Node Leaf s sr))"
    using t by (simp add: avl_tree_zip)
  have ptrs: "nleft h s = None" "nright h x = Some s" "nparent h s = Some x"
    using z by (simp_all add: zip_at_def)
  have in_T: "x \<in> set_tree T" "s \<in> set_tree T" "a \<in> set_tree T"
      and ne: "x \<noteq> s" "a \<noteq> x" "a \<noteq> s"
      and sr: "nright h s \<noteq> Some x" "nright h s \<noteq> Some s" "nright h s \<noteq> Some a"
    using a z t(2) root_of_in_set [of l a] root_of_in_set [of sr]
    by (auto simp: zip_at_def inorder_plug set_tree_plug)
  note link = link_is_iff [OF t(1) in_T(1)]
  have ls: "get_node_link s h = LinkRight x"
    using link_is_iff(2) [OF t(1) in_T(2,1)] ptrs by simp
  have off: "get_node_link x h \<noteq> LinkLeft x" "get_node_link x h \<noteq> LinkRight x"
      "get_node_link x h \<noteq> LinkLeft s" "get_node_link x h \<noteq> LinkRight s"
    using ptrs ne a sr link in_T by fastforce+
  define h' where "h' = snd (snd (the (swap_with_successor x a s (get_node_link x h) h)))"
  have h': "swap_with_successor x a s (get_node_link x h) h = Some (LinkRight s, Some s, h')"
    using ptrs by (simp add: h'_def swap_with_successor_def Let_def)
  have more: "avl_heap.more h' = avl_heap.more h"
    and rt: "root h' = (if get_node_link x h = LinkRoot then Some s else root h)"
    and lf: "nleft h' m = (if get_node_link x h = LinkLeft m then Some s
      else if m = s then Some a else if m = x then None else nleft h m)"
    and rg: "nright h' m = (if get_node_link x h = LinkRight m then Some s
      else if m = s then Some x else if m = x then nright h s else nright h m)"
    and pr: "nparent h' m = (if m = x then Some s else if m = s then nparent h x
      else if nright h s = Some m then Some x else if m = a then Some s else nparent h m)" for m
    unfolding h'_def using ptrs(1) ne sr
    by (auto simp: swap_with_successor_def Let_def heap_access set_parent_opt_access set_link_access)
  have "avl_tree h' (map_tree (exchange x s) T)"
  proof (rule avl_tree_rename [OF t(1) inj_exchange])
    show "root h' = map_option (exchange x s) (root h)"
      using rt link(3) [OF in_T(1)] link_is_iff(3) [OF t(1) in_T(2,1)] ls
      by (cases "root h") (auto simp: exchange_def)
  next
    fix n assume n: "n \<in> set_tree T"
    show "nparent h' (exchange x s n) = map_option (exchange x s) (nparent h n)
      \<and> nleft h' (exchange x s n) = map_option (exchange x s) (nleft h n)
      \<and> nright h' (exchange x s n) = map_option (exchange x s) (nright h n)"
    proof (intro conjI)
      show "nparent h' (exchange x s n) = map_option (exchange x s) (nparent h n)"
        using pr [of "exchange x s n"] parent_is_iff [OF t(1) n in_T(1)] parent_is_iff [OF t(1) n in_T(2)]
          ne ptrs a sr
        by (cases "nparent h n") (auto simp: exchange_def)
      show "nleft h' (exchange x s n) = map_option (exchange x s) (nleft h n)"
        using lf [of "exchange x s n"] link(1) [OF n] link_is_iff(1) [OF t(1) in_T(2) n] ls ptrs ne off a
        by (cases "nleft h n") (auto simp: exchange_def)
      show "nright h' (exchange x s n) = map_option (exchange x s) (nright h n)"
        using rg [of "exchange x s n"] link(2) [OF n] link_is_iff(2) [OF t(1) in_T(2) n] ls ptrs ne off a
        by (cases "nright h n") (auto simp: exchange_def)
    qed
  qed
  moreover have "get_node_link x h' = LinkRight s"
    using lf pr rg ne off by (auto simp: get_node_link_def)
  ultimately show ?thesis
    using h' more pr by simp
qed

lemma swap_deep:
  assumes t: "avl_tree h T" "T = plug ps (Node l x (plug qs (Node Leaf s sr)))"
    and a: "nleft h x = Some a" and r: "nright h x = Some r"
    and b: "nleft h r = Some b" "find_successor h r b = Some (p, s)"
    and p: "nleft h p = Some s" "p \<in> set_tree (plug qs (Node Leaf s sr))"
  shows "\<exists>h'. swap_with_successor x a r (get_node_link x h) h = Some (LinkLeft p, Some p, h')
    \<and> avl_tree h' (map_tree (exchange x s) T) \<and> avl_heap.more h' = avl_heap.more h
    \<and> nparent h' x = Some p \<and> get_node_link x h' = LinkLeft p"
proof -
  have "zip_at h ps (Node l x (plug qs (Node Leaf s sr)))"
      and "zip_at h (qs @ FrameR l x # ps) (Node Leaf s sr)"
    using t by (simp_all flip: avl_tree_zip add: plug_append)
  then have s: "nleft h s = None" "nright h s = root_of sr" and rl: "nleft h x = root_of l"
      and rr: "nright h x = root_of (plug qs (Node Leaf s sr))" and d: "distinct (inorder T)"
    by (simp_all add: zip_at_def t(2))
  have in_T: "x \<in> set_tree T" "s \<in> set_tree T" "a \<in> set_tree T" "p \<in> set_tree T" "r \<in> set_tree T"
      and ne: "x \<noteq> s" "a \<noteq> x" "a \<noteq> s" "p \<noteq> x" "p \<noteq> s" "a \<noteq> r" "r \<noteq> x" "r \<noteq> s"
      and sr: "nright h s \<noteq> Some x" "nright h s \<noteq> Some s" "nright h s \<noteq> Some a"
    using a b p s r rl rr d t(2) root_of_in_set [of l a] root_of_in_set [of sr]
      root_of_in_set [of "plug qs (Node Leaf s sr)" r]
    by (auto simp: inorder_plug set_tree_plug path_nodes_def)
  note link = link_is_iff [OF t(1) in_T(1)]
  have ls: "get_node_link s h = LinkLeft p"
    using link_is_iff(1) [OF t(1) in_T(2,4)] p by simp
  have sx: "nright h s \<noteq> Some r"
    using parent_is_iff [OF t(1) in_T(5,1)] parent_is_iff [OF t(1) in_T(5,2)] r ne by auto
  have off: "get_node_link x h \<noteq> LinkLeft x" "get_node_link x h \<noteq> LinkRight x"
      "get_node_link x h \<noteq> LinkLeft s" "get_node_link x h \<noteq> LinkRight s"
      "get_node_link x h \<noteq> LinkLeft p"
    using s ne a r sr p link in_T by fastforce+
  define h' where "h' = snd (snd (the (swap_with_successor x a r (get_node_link x h) h)))"
  have h': "swap_with_successor x a r (get_node_link x h) h = Some (LinkLeft p, Some p, h')"
    using b r ne by (simp add: h'_def swap_with_successor_def Let_def heap_access)
  have more: "avl_heap.more h' = avl_heap.more h"
    and rt: "root h' = (if get_node_link x h = LinkRoot then Some s else root h)"
    and lf: "nleft h' m = (if get_node_link x h = LinkLeft m then Some s else if m = p then Some x
      else if m = s then Some a else if m = x then None else nleft h m)"
    and rg: "nright h' m = (if get_node_link x h = LinkRight m then Some s
      else if m = s then Some r else if m = x then nright h s else nright h m)"
    and pr: "nparent h' m = (if m = x then Some p else if m = s then nparent h x
      else if nright h s = Some m then Some x else if m = a \<or> m = r then Some s else nparent h m)" for m
    unfolding h'_def using b r ne sr sx
    by (auto simp: swap_with_successor_def Let_def heap_access set_parent_opt_access set_link_access)
  have "avl_tree h' (map_tree (exchange x s) T)"
  proof (rule avl_tree_rename [OF t(1) inj_exchange])
    show "root h' = map_option (exchange x s) (root h)"
      using rt link(3) [OF in_T(1)] link_is_iff(3) [OF t(1) in_T(2,1)] ls
      by (cases "root h") (auto simp: exchange_def)
  next
    fix n assume n: "n \<in> set_tree T"
    show "nparent h' (exchange x s n) = map_option (exchange x s) (nparent h n)
      \<and> nleft h' (exchange x s n) = map_option (exchange x s) (nleft h n)
      \<and> nright h' (exchange x s n) = map_option (exchange x s) (nright h n)"
    proof (cases "n = x \<or> n = s")
      case True
      have "nparent h x \<noteq> Some x" "nparent h x \<noteq> Some s" "nparent h s = Some p"
        using parent_is_iff [OF t(1) in_T(1,1)] parent_is_iff [OF t(1) in_T(1,2)]
          parent_is_iff [OF t(1) in_T(2,4)] a r s(1) p(1) ne sr by simp_all
      with True show ?thesis
        using ne off s(1) a r sr
        by (elim disjE) (simp_all add: lf rg pr)
    next
      case False
      then have "exchange x s n = n" by simp
      moreover have "nparent h' n = map_option (exchange x s) (nparent h n)"
        using parent_is_iff [OF t(1) n in_T(1)] parent_is_iff [OF t(1) n in_T(2)] False s(1) r a ne
        by (cases "nparent h n") (auto simp add: pr exchange_def)
      moreover have "nleft h' n = map_option (exchange x s) (nleft h n)"
        using link(1) [OF n] link_is_iff(1) [OF t(1) in_T(2) n] ls False p(1)
        by (cases "nleft h n") (auto simp add: lf exchange_def)
      moreover have "nright h' n = map_option (exchange x s) (nright h n)"
        using link(2) [OF n] link_is_iff(2) [OF t(1) in_T(2) n] ls False
        by (cases "nright h n") (auto simp add: rg exchange_def)
      ultimately show ?thesis by simp
    qed
  qed
  moreover have "get_node_link x h' = LinkLeft p"
    using lf pr ne off by (auto simp: get_node_link_def)
  ultimately show ?thesis
    using h' more pr by simp
qed

section \<open>Removal\<close>

text \<open>A node with at most one child is replaced by that child.\<close>

lemma remove_zip:
  assumes z: "zip_at h ps (Node l x r)" and "l = Leaf \<or> r = Leaf" and t: "t = (if l = Leaf then r else l)"
  shows "zip_at (set_parent_opt (root_of t) (path_parent ps) (set_link (link_of ps) (root_of t) h)) ps t"
proof -
  let ?h1 = "set_link (link_of ps) (root_of t) h"
  let ?h2 = "set_parent_opt (root_of t) (path_parent ps) ?h1"
  have d: "distinct (path_before ps @ path_after ps)" and off: "path_nodes ps \<inter> set_tree t = {}"
      and dt: "distinct (inorder t)"
    using z t by (auto simp: zip_at_def inorder_plug path_nodes_def)
  have "path_at ?h1 (root_of t) ps"
    using z d by (auto simp: zip_at_def intro: path_at_set_link)
  then have "path_at ?h2 (root_of t) ps"
    by (rule path_at_same)
      (use off root_of_in_set [of t] in \<open>auto simp: same_links_def set_parent_opt_access\<close>)
  moreover have "tree_at ?h1 (Some x) t"
    using z t off by (intro tree_at_set_link) (auto simp: zip_at_def)
  then have "tree_at ?h2 (path_parent ps) t"
    by (rule tree_at_reparent [OF _ dt]) (auto simp: set_parent_opt_access)
  moreover have "distinct (inorder (plug ps t))"
    using z t assms(2) by (auto simp: zip_at_def inorder_plug)
  ultimately show ?thesis
    by (simp add: zip_at_def)
qed

text \<open>What \<open>avltree_delete_node\<close> does once the node has at most one child.\<close>

definition unlink_node :: "nat \<Rightarrow> link \<Rightarrow> nat option \<Rightarrow> 'a avl_heap_scheme \<Rightarrow> 'a avl_heap_scheme" where
  "unlink_node x link p h =
     (let c = if nleft h x \<noteq> None then nleft h x else nright h x
      in set_parent_opt c p (set_link link c h))"

lemma avltree_delete_node_alt:
  "avltree_delete_node x update h =
     do { (link, p, h) \<leftarrow>
            (case (nleft h x, nright h x) of
               (Some lchild, Some rchild) \<Rightarrow> swap_with_successor x lchild rchild (get_node_link x h) h
             | _ \<Rightarrow> Some (get_node_link x h, nparent h x, h));
          avltree_fixup update p (unlink_node x link p h) }"
  by (simp add: avltree_delete_node_def unlink_node_def Let_def)

lemma unlink_node_zip:
  assumes "zip_at h ps (Node l x r)" and "l = Leaf \<or> r = Leaf"
  shows "\<exists>t. zip_at (unlink_node x (link_of ps) (path_parent ps) h) ps t \<and> inorder t = inorder l @ inorder r"
    and "avl_heap.more (unlink_node x (link_of ps) (path_parent ps) h) = avl_heap.more h"
proof -
  have "root_of (if l = Leaf then r else l) = (if nleft h x \<noteq> None then nleft h x else nright h x)"
    using assms by (cases l) (auto simp: zip_at_def)
  with remove_zip [OF assms refl]
  have "zip_at (unlink_node x (link_of ps) (path_parent ps) h) ps (if l = Leaf then r else l)"
    unfolding unlink_node_def Let_def by simp
  then show "\<exists>t. zip_at (unlink_node x (link_of ps) (path_parent ps) h) ps t \<and> inorder t = inorder l @ inorder r"
    using assms(2) by (auto intro!: exI [of _ "if l = Leaf then r else l"])
  show "avl_heap.more (unlink_node x (link_of ps) (path_parent ps) h) = avl_heap.more h"
    by (simp add: unlink_node_def Let_def set_parent_opt_access set_link_access)
qed

text \<open>A node with two children: after the exchange it has at most one, and the nodes before and
  after it in order are those before and after it at the start.\<close>

lemma swap_with_successor_zip:
  assumes z: "zip_at h ps (Node l x r)" and l: "nleft h x = Some a" and r: "nright h x = Some b"
  shows "\<exists>h' qs sr. swap_with_successor x a b (get_node_link x h) h = Some (link_of qs, path_parent qs, h')
    \<and> zip_at h' qs (Node Leaf x sr) \<and> avl_heap.more h' = avl_heap.more h
    \<and> path_before qs @ inorder sr @ path_after qs = path_before ps @ inorder l @ inorder r @ path_after ps"
proof -
  have r': "tree_at h (Some x) r" "root_of r = Some b"
    using z r by (simp_all add: zip_at_def)
  obtain qs s sr par where fs: "find_successor h x b = Some (par, s)" "r = plug qs (Node Leaf s sr)"
      "path_before qs = []"
      "nleft h b = None \<and> s = b \<and> par = x \<and> qs = [] \<or> nleft h b \<noteq> None \<and> nleft h par = Some s \<and> par \<in> set_tree r"
    using find_successor_plug [OF r'] by blast
  let ?T = "plug ps (Node l x (plug qs (Node Leaf s sr)))"
  let ?qs = "qs @ FrameR l s # ps"
  have t: "avl_tree h ?T"
    using z fs(2) by (simp add: avl_tree_zip)
  obtain link p h' where h': "swap_with_successor x a b (get_node_link x h) h = Some (link, p, h')"
      "avl_tree h' (map_tree (exchange x s) ?T)" "avl_heap.more h' = avl_heap.more h"
      "nparent h' x = p" "get_node_link x h' = link"
  proof (cases "nleft h b")
    case None
    with fs(4) have "qs = []" and "s = b"
      by simp_all
    then show thesis
      using swap_shallow [of h ?T ps l x s sr a] t l that by auto
  next
    case (Some c)
    then have "find_successor h b c = Some (par, s)"
      using fs(1) by (simp add: find_successor.simps [of h x])
    then show thesis
      using swap_deep [OF t refl l r Some] fs(2,4) Some that by auto
  qed
  have "zip_at h' ?qs (Node Leaf x sr)"
    using h'(2) map_tree_exchange t by (simp add: avl_tree_def plug_append flip: avl_tree_zip)
  moreover from this have "link = link_of ?qs" and "p = path_parent ?qs"
    using get_node_link_zip [of h' ?qs "Node Leaf x sr" x] h'(4,5) by (simp_all add: zip_at_def)
  moreover have "path_before ?qs @ inorder sr @ path_after ?qs
      = path_before ps @ inorder l @ inorder r @ path_after ps"
    using fs(2,3) by (simp add: path_append inorder_plug)
  ultimately show ?thesis
    using h'(1,3) by metis
qed

context avl_update
begin

lemma delete_node_zip:
  assumes z: "zip_at h ps (Node l x r)" and I: "I S (avl_heap.more h)"
    and S: "set (path_before ps @ inorder l @ inorder r @ path_after ps) \<subseteq> S"
  shows "\<exists>h' t'. avltree_delete_node x update h = Some h' \<and> avl_tree h' t'
    \<and> inorder t' = path_before ps @ inorder l @ inorder r @ path_after ps \<and> I S (avl_heap.more h')"
proof -
  have "\<exists>h1 qs ll rr. (case (nleft h x, nright h x) of
               (Some lchild, Some rchild) \<Rightarrow> swap_with_successor x lchild rchild (get_node_link x h) h
             | _ \<Rightarrow> Some (get_node_link x h, nparent h x, h)) = Some (link_of qs, path_parent qs, h1)
      \<and> zip_at h1 qs (Node ll x rr) \<and> (ll = Leaf \<or> rr = Leaf) \<and> avl_heap.more h1 = avl_heap.more h
      \<and> path_before qs @ inorder ll @ inorder rr @ path_after qs
         = path_before ps @ inorder l @ inorder r @ path_after ps"
  proof (cases "\<exists>a b. nleft h x = Some a \<and> nright h x = Some b")
    case True
    then obtain a b where ab: "nleft h x = Some a" "nright h x = Some b"
      by blast
    from swap_with_successor_zip [OF z ab] show ?thesis
      using ab by (simp, metis append_Nil inorder.simps(1))
  next
    case False
    moreover from this have "l = Leaf \<or> r = Leaf"
      using z by (cases l; cases r) (auto simp: zip_at_def)
    moreover have "get_node_link x h = link_of ps" and "nparent h x = path_parent ps"
      using get_node_link_zip [OF z] z by (simp_all add: zip_at_def)
    ultimately show ?thesis
      using z by (intro exI [of _ h] exI [of _ ps] exI [of _ l] exI [of _ r]) (auto split: option.splits)
  qed
  then obtain h1 qs ll rr where 1: "avltree_delete_node x update h
        = avltree_fixup update (path_parent qs) (unlink_node x (link_of qs) (path_parent qs) h1)"
      and z1: "zip_at h1 qs (Node ll x rr)" "ll = Leaf \<or> rr = Leaf"
      and m1: "avl_heap.more h1 = avl_heap.more h"
      and o1: "path_before qs @ inorder ll @ inorder rr @ path_after qs
         = path_before ps @ inorder l @ inorder r @ path_after ps"
    unfolding avltree_delete_node_alt by auto
  let ?h2 = "unlink_node x (link_of qs) (path_parent qs) h1"
  obtain t where z2: "zip_at ?h2 qs t" and t: "inorder t = inorder ll @ inorder rr"
    using unlink_node_zip(1) [OF z1] by blast
  have io: "inorder (plug qs t) = path_before ps @ inorder l @ inorder r @ path_after ps"
    using t o1 by (simp add: inorder_plug)
  then have "set_tree (plug qs t) \<subseteq> S"
    using S by (metis set_inorder)
  moreover have "I S (avl_heap.more ?h2)"
    using I m1 unlink_node_zip(2) [OF z1] by simp
  ultimately show ?thesis
    using avltree_fixup_zip [OF z2] 1 io by metis
qed

end

end
