(* ===== verification/Avltree_Set.thy ===== *)
theory Avltree_Set
  imports Avltree_Delete
begin

text \<open>
  What the tree of \<open>lib/adt/avltree.c\<close> promises to its clients: with a comparator that agrees
  with an order on keys, the heap is a search tree for a set of nodes, insertion refuses a key
  that is present and otherwise adds the node, removal by key takes out the node with that key,
  and the ends of the tree are the least and the greatest key.  The same lemmas hold for every
  update callback that meets the contract \<open>avl_update\<close>; they are instantiated here for the
  \<open>NULL\<close> callback.
\<close>

section \<open>Search trees\<close>

definition bst :: "(nat \<Rightarrow> 'k::linorder) \<Rightarrow> 'a avl_heap_scheme \<Rightarrow> nat set \<Rightarrow> bool" where
  "bst key h N \<longleftrightarrow>
     (\<exists>t. avl_tree h t \<and> set_tree t = N \<and> sorted_wrt (\<lambda>a b. key a < key b) (inorder t))"

text \<open>The sequence of nodes splits at a key.\<close>

lemma sorted_split:
  fixes key :: "nat \<Rightarrow> 'k::linorder"
  assumes "sorted_wrt (\<lambda>a b. key a < key b) xs"
  obtains as cs bs where "xs = as @ cs @ bs" and "\<And>a. a \<in> set as \<Longrightarrow> key a < k"
    and "\<And>c. c \<in> set cs \<Longrightarrow> key c = k" and "\<And>b. b \<in> set bs \<Longrightarrow> k < key b"
proof -
  have "\<exists>as cs bs. xs = as @ cs @ bs \<and> (\<forall>a\<in>set as. key a < k) \<and> (\<forall>c\<in>set cs. key c = k)
    \<and> (\<forall>b\<in>set bs. k < key b)"
    using assms
  proof (induction xs)
    case Nil
    then show ?case by simp
  next
    case (Cons x xs)
    then obtain as cs bs where s: "xs = as @ cs @ bs" "\<forall>a\<in>set as. key a < k"
        "\<forall>c\<in>set cs. key c = k" "\<forall>b\<in>set bs. k < key b"
      by auto
    have lt: "\<And>y. y \<in> set xs \<Longrightarrow> key x < key y"
      using Cons.prems by simp
    consider "key x < k" | "key x = k" | "k < key x"
      using linorder_less_linear by blast
    then show ?case
    proof cases
      case 1
      with s show ?thesis
        by (intro exI [of _ "x # as"] exI [of _ cs] exI [of _ bs]) auto
    next
      case 2
      have "a \<notin> set as" for a
        using 2 s(1,2) lt [of a] by auto
      then have "as = []"
        by (cases as) auto
      with 2 s show ?thesis
        by (intro exI [of _ "[]"] exI [of _ "x # cs"] exI [of _ bs]) auto
    next
      case 3
      have "a \<notin> set as" and "a \<notin> set cs" for a
        using 3 s(1-3) lt [of a] by auto
      then have "as = []" and "cs = []"
        by (cases as; cases cs; auto)+
      with 3 s show ?thesis
        by (intro exI [of _ "[]"] exI [of _ "[]"] exI [of _ "x # bs"]) auto
    qed
  qed
  then show thesis
    using that by blast
qed

lemma delete_search_tree:
  assumes "tree_at h p t" and "inorder t = as @ cs @ bs"
    and "\<And>a. a \<in> set as \<Longrightarrow> 0 < cmp h a k" and "\<And>c. c \<in> set cs \<Longrightarrow> cmp h c k = 0"
    and "\<And>b. b \<in> set bs \<Longrightarrow> cmp h b k < 0"
  shows "\<exists>c. delete_search cmp k h (root_of t) = Some c
    \<and> (case c of None \<Rightarrow> cs = [] | Some n \<Rightarrow> n \<in> set cs)"
  using assms
proof (induction t arbitrary: p as bs cs)
  case Leaf
  then show ?case by (simp add: delete_search.simps [of _ _ _ None])
next
  case (Node l y r)
  have step: "delete_search cmp k h (Some y) = (if cmp h y k = 0 then Some (Some y)
      else delete_search cmp k h (if cmp h y k < 0 then root_of l else root_of r))"
    using Node.prems(1) by (simp add: delete_search.simps [of _ _ _ "Some y"] Let_def)
  have "y \<in> set as \<union> set cs \<union> set bs"
    using Node.prems(2) by (metis Un_iff in_set_conv_decomp inorder.simps(2) set_append)
  then consider "cmp h y k = 0" "y \<in> set cs" | "cmp h y k < 0" | "0 < cmp h y k"
    using Node.prems(3-5) by fastforce
  then show ?case
  proof cases
    case 1
    then show ?thesis
      using step by simp
  next
    case 2
    obtain bs' where "inorder l = (as @ cs) @ bs'" and "bs = bs' @ y # inorder r"
    proof (rule append_split_right [where P = "\<lambda>z. cmp h z k < 0"])
      show "inorder l @ y # inorder r = (as @ cs) @ bs"
        using Node.prems(2) by simp
    qed (use Node.prems(3,4) 2 in force)+
    then show ?thesis
      using Node.IH(1) [of "Some y" as cs bs'] Node.prems(1,3-5) step 2 by simp
  next
    case 3
    obtain as' where "as = inorder l @ y # as'" and "inorder r = as' @ cs @ bs"
    proof (rule append_split_left [where P = "\<lambda>z. 0 < cmp h z k"])
      show "inorder l @ y # inorder r = as @ cs @ bs"
        using Node.prems(2) by simp
    qed (use Node.prems(4,5) 3 in force)+
    then show ?thesis
      using Node.IH(2) [of "Some y" as' cs bs] Node.prems(1,3-5) step 3 by simp
  qed
qed

text \<open>Every node of a tree is at the focus of some path.\<close>

lemma node_path:
  assumes "x \<in> set_tree t"
  obtains ps l r where "t = plug ps (Node l x r)"
proof -
  have "\<exists>ps l r. t = plug ps (Node l x r)"
    using assms
  proof (induction t)
    case Leaf
    then show ?case by simp
  next
    case (Node l y r)
    then consider "x = y" | ps l' r' where "l = plug ps (Node l' x r')"
      | ps l' r' where "r = plug ps (Node l' x r')"
      by auto
    then show ?case
    proof cases
      case 1
      then show ?thesis by (intro exI [of _ "[]"] exI) simp
    next
      case 2
      then show ?thesis by (intro exI [of _ "ps @ [FrameL y r]"] exI) (simp add: plug_append)
    next
      case 3
      then show ?thesis by (intro exI [of _ "ps @ [FrameR l y]"] exI) (simp add: plug_append)
    qed
  qed
  then show thesis using that by blast
qed

section \<open>The operations on the set of nodes\<close>

text \<open>A comparator of two nodes, and one of a node with a key, that agree with the order of the
  keys.  \<open>avltree_insert\<close> goes left when the new node compares below the one it meets,
  \<open>avltree_delete\<close> when the comparison of the node it meets with the key is negative.\<close>

definition agrees :: "(nat \<Rightarrow> 'k::linorder) \<Rightarrow> 'a avlnode_compare_t \<Rightarrow> bool" where
  "agrees key cmp \<longleftrightarrow>
     (\<forall>h a b. (cmp h a b < 0 \<longleftrightarrow> key a < key b) \<and> (cmp h a b = 0 \<longleftrightarrow> key a = key b))"

definition key_agrees ::
    "(nat \<Rightarrow> 'k::linorder) \<Rightarrow> ('a avl_heap_scheme \<Rightarrow> nat \<Rightarrow> 'k \<Rightarrow> int) \<Rightarrow> bool" where
  "key_agrees key cmp \<longleftrightarrow>
     (\<forall>h a k. (cmp h a k < 0 \<longleftrightarrow> k < key a) \<and> (cmp h a k = 0 \<longleftrightarrow> key a = k))"

lemma agrees_signs:
  assumes "agrees key cmp"
  shows "key a < key b \<Longrightarrow> cmp h a b < 0" and "key a = key b \<Longrightarrow> cmp h a b = 0"
    and "key b < key a \<Longrightarrow> 0 < cmp h a b"
proof -
  have *: "(cmp h a b < 0 \<longleftrightarrow> key a < key b) \<and> (cmp h a b = 0 \<longleftrightarrow> key a = key b)"
    using assms by (simp add: agrees_def)
  then show "key a < key b \<Longrightarrow> cmp h a b < 0" and "key a = key b \<Longrightarrow> cmp h a b = 0"
    by simp_all
  show "key b < key a \<Longrightarrow> 0 < cmp h a b"
    using * linorder_less_linear [of "cmp h a b" 0] by auto
qed

lemma key_agrees_signs:
  assumes "key_agrees key cmp"
  shows "k < key a \<Longrightarrow> cmp h a k < 0" and "key a = k \<Longrightarrow> cmp h a k = 0"
    and "key a < k \<Longrightarrow> 0 < cmp h a k"
proof -
  have *: "(cmp h a k < 0 \<longleftrightarrow> k < key a) \<and> (cmp h a k = 0 \<longleftrightarrow> key a = k)"
    using assms by (simp add: key_agrees_def)
  then show "k < key a \<Longrightarrow> cmp h a k < 0" and "key a = k \<Longrightarrow> cmp h a k = 0"
    by simp_all
  show "key a < k \<Longrightarrow> 0 < cmp h a k"
    using * linorder_less_linear [of "cmp h a k" 0] by auto
qed

text \<open>A refused insertion leaves the heap as it was.\<close>

lemma avltree_insert_refused:
  assumes b: "bst key h N" and a: "agrees key cmp" and "\<exists>n\<in>N. key n = key x"
  shows "avltree_insert x cmp update added h = Some (False, h)"
proof -
  obtain t where t: "avl_tree h t" "set_tree t = N" "sorted_wrt (\<lambda>a b. key a < key b) (inorder t)"
    using b by (auto simp: bst_def)
  obtain as cs bs where s: "inorder t = as @ cs @ bs" "\<And>a. a \<in> set as \<Longrightarrow> key a < key x"
      "\<And>c. c \<in> set cs \<Longrightarrow> key c = key x" "\<And>b. b \<in> set bs \<Longrightarrow> key x < key b"
    using sorted_split [OF t(3)] by blast
  have "set as \<union> set cs \<union> set bs = N"
    using s(1) t(2) by (metis set_append set_inorder sup_assoc)
  with assms(3) s(2-4) have "cs \<noteq> []"
    by fastforce
  then have "insert_search cmp h x None (root_of t) LinkRoot = Some Fail"
    using t(1) s by (intro insert_search_equal [of h None t as cs bs])
      (auto simp: avl_tree_def agrees_signs [OF a])
  with t(1) show ?thesis
    by (simp add: avltree_insert_def avl_tree_def)
qed

text \<open>Where a new node goes.\<close>

lemma insert_search_bst:
  assumes b: "bst key h N" and a: "agrees key cmp" and new: "\<forall>n\<in>N. key n \<noteq> key x"
  shows "\<exists>qs. insert_search cmp h x None (root h) LinkRoot = Some (Ok (path_parent qs, link_of qs))
    \<and> zip_at h qs Leaf \<and> path_nodes qs = N
    \<and> sorted_wrt (\<lambda>a b. key a < key b) (path_before qs @ x # path_after qs)"
proof -
  obtain t where t: "avl_tree h t" "set_tree t = N" "sorted_wrt (\<lambda>a b. key a < key b) (inorder t)"
    using b by (auto simp: bst_def)
  obtain as cs bs where s: "inorder t = as @ cs @ bs" "\<And>a. a \<in> set as \<Longrightarrow> key a < key x"
      "\<And>c. c \<in> set cs \<Longrightarrow> key c = key x" "\<And>b. b \<in> set bs \<Longrightarrow> key x < key b"
    using sorted_split [OF t(3)] by blast
  have N: "set as \<union> set cs \<union> set bs = N"
    using s(1) t(2) by (metis set_append set_inorder sup_assoc)
  with new s(3) have "cs = []"
    by (cases cs) auto
  moreover have "zip_at h [] t"
    using t(1) by (simp flip: avl_tree_zip)
  ultimately obtain qs where qs: "insert_search cmp h x None (root_of t) LinkRoot
        = Some (Ok (path_parent qs, link_of qs))"
      "zip_at h qs Leaf" "path_before qs = as" "path_after qs = bs"
    using insert_search_gap [of h "[]" t as bs cmp x] s agrees_signs [OF a] by auto
  moreover have "sorted_wrt (\<lambda>a b. key a < key b) (as @ x # bs)"
    using t(3) s \<open>cs = []\<close> by (auto simp: sorted_wrt_append)
  ultimately show ?thesis
    using t(1) N \<open>cs = []\<close> by (auto simp: path_nodes_def avl_tree_def)
qed

lemma delete_search_bst:
  assumes b: "bst key h N" and a: "key_agrees key cmp"
  shows "(\<exists>n\<in>N. key n = k \<and> delete_search cmp k h (root h) = Some (Some n))
    \<or> ((\<forall>n\<in>N. key n \<noteq> k) \<and> delete_search cmp k h (root h) = Some None)"
proof -
  obtain t where t: "avl_tree h t" "set_tree t = N" "sorted_wrt (\<lambda>a b. key a < key b) (inorder t)"
    using b by (auto simp: bst_def)
  obtain as cs bs where s: "inorder t = as @ cs @ bs" "\<And>a. a \<in> set as \<Longrightarrow> key a < k"
      "\<And>c. c \<in> set cs \<Longrightarrow> key c = k" "\<And>b. b \<in> set bs \<Longrightarrow> k < key b"
    using sorted_split [OF t(3)] by blast
  have N: "set as \<union> set cs \<union> set bs = N"
    using s(1) t(2) by (metis set_append set_inorder sup_assoc)
  obtain c where c: "delete_search cmp k h (root_of t) = Some c"
      "case c of None \<Rightarrow> cs = [] | Some n \<Rightarrow> n \<in> set cs"
    using delete_search_tree [of h None t as cs bs cmp k] t(1) s key_agrees_signs [OF a]
    by (auto simp: avl_tree_def)
  show ?thesis
  proof (cases c)
    case None
    with c s(2,4) N have "\<forall>n\<in>N. key n \<noteq> k"
      by fastforce
    with c None t(1) show ?thesis
      by (simp add: avl_tree_def)
  next
    case (Some n)
    with c s(3) N t(1) show ?thesis
      by (auto simp: avl_tree_def)
  qed
qed

context avl_update
begin

lemma insert_bst:
  assumes "bst key h N" and "agrees key cmp" and "\<forall>n\<in>N. key n \<noteq> key x"
    and "I (insert x N) (avl_heap.more h)"
  shows "\<exists>h'. avltree_insert x cmp update None h = Some (True, h') \<and> bst key h' (insert x N)
    \<and> I (insert x N) (avl_heap.more h')"
proof -
  obtain qs where qs: "insert_search cmp h x None (root h) LinkRoot = Some (Ok (path_parent qs, link_of qs))"
      "zip_at h qs Leaf" "path_nodes qs = N"
      "sorted_wrt (\<lambda>a b. key a < key b) (path_before qs @ x # path_after qs)"
    using insert_search_bst [OF assms(1-3)] by blast
  have "x \<notin> path_nodes qs"
    using assms(3) qs(3) by auto
  with qs(2,3) assms(4) obtain h' t' where h': "insert_at_loc x (path_parent qs) (link_of qs) update None h = Some h'"
      "avl_tree h' t'" "inorder t' = path_before qs @ x # path_after qs" "I (insert x N) (avl_heap.more h')"
    using insert_at_loc_zip [of h qs x "insert x N" None] attach_node_zip(2)
    by (fastforce simp: avlnode_update_def)
  moreover have "set_tree t' = insert x N"
    using h'(3) qs(3) by (metis Un_insert_right path_nodes_def list.set(2) set_append set_inorder)
  ultimately have "bst key h' (insert x N)"
    using qs(4) unfolding bst_def by metis
  with qs(1) h' show ?thesis
    by (simp add: avltree_insert_def)
qed

lemma delete_node_bst:
  assumes "bst key h N" and "n \<in> N" and "I (N - {n}) (avl_heap.more h)"
  shows "\<exists>h'. avltree_delete_node n update h = Some h' \<and> bst key h' (N - {n})
    \<and> I (N - {n}) (avl_heap.more h')"
proof -
  obtain t where t: "avl_tree h t" "set_tree t = N" "sorted_wrt (\<lambda>a b. key a < key b) (inorder t)"
    using assms(1) by (auto simp: bst_def)
  obtain ps l r where p: "t = plug ps (Node l n r)"
    using node_path assms(2) t(2) by metis
  let ?xs = "path_before ps @ inorder l @ inorder r @ path_after ps"
  have io: "inorder t = path_before ps @ inorder l @ n # inorder r @ path_after ps"
    using p by (simp add: inorder_plug)
  have N: "set ?xs = N - {n}"
    using t(1) unfolding avl_tree_def t(2) [symmetric] set_inorder [symmetric] io by auto
  obtain h' t' where h': "avltree_delete_node n update h = Some h'" "avl_tree h' t'"
      "inorder t' = ?xs" "I (N - {n}) (avl_heap.more h')"
    using delete_node_zip [of h ps l n r "N - {n}"] t(1) p N assms(3) by (auto simp: avl_tree_zip)
  moreover have "sorted_wrt (\<lambda>a b. key a < key b) ?xs"
    using t(3) io by (auto simp: sorted_wrt_append)
  moreover have "set_tree t' = N - {n}"
    using h'(3) N by (metis set_inorder)
  ultimately show ?thesis
    unfolding bst_def by metis
qed

end

text \<open>The \<open>NULL\<close> callback.\<close>

lemma avl_heap_more_idle: "\<exists>m. h = h\<lparr>avl_heap.more := m\<rparr>"
  by (rule exI [of _ "avl_heap.more h"]) simp

interpretation no_update: avl_update None "\<lambda>_ _. True"
  by unfold_locales (simp add: avlnode_update_def avl_heap_more_idle)

section \<open>Properties\<close>

text \<open>The ends of a tree.\<close>

lemma go_leftmost_tree:
  "tree_at h p t \<Longrightarrow> root_of t = Some x \<Longrightarrow> go_leftmost h x = Some (hd (inorder t))"
proof (induction t arbitrary: p x)
  case Leaf
  then show ?case by simp
next
  case (Node l y r)
  moreover have "l = Leaf \<longleftrightarrow> root_of l = None"
    by (cases l) auto
  moreover have "inorder l = [] \<longleftrightarrow> l = Leaf"
    by (cases l) auto
  ultimately show ?case
    by (subst go_leftmost.simps) (cases "root_of l"; auto)
qed

lemma go_rightmost_tree:
  "tree_at h p t \<Longrightarrow> root_of t = Some x \<Longrightarrow> go_rightmost h x = Some (last (inorder t))"
proof (induction t arbitrary: p x)
  case Leaf
  then show ?case by simp
next
  case (Node l y r)
  moreover have "r = Leaf \<longleftrightarrow> root_of r = None"
    by (cases r) auto
  ultimately show ?case
    by (subst go_rightmost.simps) (cases "root_of r"; auto)
qed

text \<open>Example data for the witnesses: the search tree of the nodes 1, 3 and 5, each node its own
  key.\<close>

definition sample_heap :: "avl_heap" where
  "sample_heap =
     \<lparr>nparent = Map.empty(1 \<mapsto> 3, 5 \<mapsto> 3), nleft = Map.empty(3 \<mapsto> 1), nright = Map.empty(3 \<mapsto> 5),
      nheight = (\<lambda>n. if n = 3 then 2 else 1), root = Some 3\<rparr>"

definition node_compare :: "unit avlnode_compare_t" where
  "node_compare h a b = int a - int b"

definition node_key_compare :: "avl_heap \<Rightarrow> nat \<Rightarrow> nat \<Rightarrow> int" where
  "node_key_compare h a k = int k - int a"

lemma sample_bst: "bst id sample_heap {1, 3, 5}"
  unfolding bst_def
  by (rule exI [of _ "Node (Node Leaf 1 Leaf) 3 (Node Leaf 5 Leaf)"])
    (auto simp: avl_tree_def sample_heap_def)

lemma sample_compare: "agrees id node_compare" "key_agrees id node_key_compare"
  by (auto simp: agrees_def node_compare_def key_agrees_def node_key_compare_def)

text \<open>C1: \<open>avltree_insert\<close> without callbacks, on a search tree for the set of nodes \<open>N\<close> and with a
  comparator that agrees with the keys, always returns.  If the key of the new node is present
  it returns false and leaves the heap unchanged; otherwise it returns true and the heap is a
  search tree for \<open>N\<close> with the new node, with all parent and child pointers consistent.\<close>

theorem avltree_insert_set:
  assumes "bst key h N" and "agrees key cmp"
  shows "if \<exists>n\<in>N. key n = key x
    then avltree_insert x cmp None None h = Some (False, h)
    else (\<exists>h'. avltree_insert x cmp None None h = Some (True, h') \<and> bst key h' (insert x N))"
  using no_update.insert_bst [OF assms] avltree_insert_refused [OF assms] by auto

theorem avltree_insert_set_witness:
  "\<exists>h'. avltree_insert 4 node_compare None None sample_heap = Some (True, h')
     \<and> bst id h' {1, 3, 4, 5}"
  using avltree_insert_set [OF sample_bst sample_compare(1), of 4] by (simp add: insert_commute)

text \<open>C2: \<open>avltree_delete\<close> by key, without callback, always returns.  If a node of the search tree
  has the key, that node is returned and the heap is a search tree for the remaining nodes, with
  all pointers consistent (whether the node had zero, one or two children); otherwise \<open>NULL\<close> is
  returned and the heap is unchanged.\<close>

theorem avltree_delete_set:
  assumes "bst key h N" and "key_agrees key cmp"
  shows "if \<exists>n\<in>N. key n = k
    then (\<exists>n h'. n \<in> N \<and> key n = k \<and> avltree_delete k cmp None h = Some (Some n, h')
           \<and> bst key h' (N - {n}))
    else avltree_delete k cmp None h = Some (None, h)"
  using delete_search_bst [OF assms, of k] no_update.delete_node_bst [OF assms(1)]
  by (fastforce simp: avltree_delete_def)

theorem avltree_delete_set_witness:
  "\<exists>h'. avltree_delete 3 node_key_compare None sample_heap = Some (Some 3, h') \<and> bst id h' {1, 5}"
  using avltree_delete_set [OF sample_bst sample_compare(2), of 3] by (auto simp: insert_Diff_if)

text \<open>C3: \<open>avltree_leftmost\<close> and \<open>avltree_rightmost\<close> return the nodes with the least and the
  greatest key of a nonempty search tree.\<close>

theorem avltree_ends:
  assumes "bst key h N" and "N \<noteq> {}"
  shows "\<exists>a b. avltree_leftmost h = Some (Some a) \<and> avltree_rightmost h = Some (Some b)
    \<and> a \<in> N \<and> b \<in> N \<and> (\<forall>n\<in>N. key a \<le> key n \<and> key n \<le> key b)"
proof -
  obtain t where t: "avl_tree h t" "set_tree t = N" "sorted_wrt (\<lambda>a b. key a < key b) (inorder t)"
    using assms(1) by (auto simp: bst_def)
  obtain x where x: "root_of t = Some x"
    using assms(2) t(2) by (cases t) auto
  have ne: "inorder t \<noteq> []"
    using assms(2) t(2) by (metis list.set(1) set_inorder)
  obtain xs a where a: "inorder t = a # xs"
    using ne by (cases "inorder t") auto
  obtain ys b where b: "inorder t = ys @ [b]"
    using ne by (cases "inorder t" rule: rev_cases) auto
  have "go_leftmost h x = Some a"
    using go_leftmost_tree [OF _ x, of h None] t(1) a by (simp add: avl_tree_def)
  moreover have "go_rightmost h x = Some b"
    using go_rightmost_tree [OF _ x, of h None] t(1) b by (simp add: avl_tree_def)
  ultimately have "avltree_leftmost h = Some (Some a)" and "avltree_rightmost h = Some (Some b)"
    using t(1) x by (simp_all add: avltree_leftmost_def avltree_rightmost_def avl_tree_def)
  moreover have "\<forall>n\<in>set (inorder t). key a \<le> key n"
    using t(3) unfolding a by auto
  moreover have "\<forall>n\<in>set (inorder t). key n \<le> key b"
    using t(3) unfolding b by (auto simp: sorted_wrt_append)
  moreover have "a \<in> N"
    using t(2) a by (metis list.set_intros(1) set_inorder)
  moreover have "b \<in> N"
    using t(2) b by (metis in_set_conv_decomp set_inorder)
  ultimately show ?thesis
    using t(2) by (metis set_inorder)
qed

theorem avltree_ends_witness:
  "\<exists>a b. avltree_leftmost sample_heap = Some (Some a) \<and> avltree_rightmost sample_heap = Some (Some b)
     \<and> a \<in> {1, 3, 5} \<and> b \<in> {1, 3, 5} \<and> (\<forall>n\<in>{1, 3, 5}. a \<le> n \<and> n \<le> b)"
  using avltree_ends [OF sample_bst] by simp

end
