(* ===== verification/Lists.thy ===== *)
theory Lists
  imports Prelude
begin

text \<open>
  \<open>lib/list.h\<close>: circular doubly linked lists threaded through the objects they link.  A heap of
  links maps the number of an object to its \<open>prev\<close> and \<open>next\<close> pointers, \<open>None\<close> being \<open>NULL\<close>; an
  operation that follows a \<open>NULL\<close> pointer returns \<open>None\<close>.  The macros that turn a link into the
  object around it (\<open>container_of\<close>) are the identity on object numbers.
\<close>

record list_heap =
  lprev :: "nat \<Rightarrow> nat option"
  lnext :: "nat \<Rightarrow> nat option"

definition set_prev :: "nat \<Rightarrow> nat option \<Rightarrow> list_heap \<Rightarrow> list_heap" where
  "set_prev x v l = l\<lparr>lprev := (lprev l)(x := v)\<rparr>"

definition set_next :: "nat \<Rightarrow> nat option \<Rightarrow> list_heap \<Rightarrow> list_heap" where
  "set_next x v l = l\<lparr>lnext := (lnext l)(x := v)\<rparr>"

definition list_init :: "nat \<Rightarrow> list_heap \<Rightarrow> list_heap" where
  "list_init head l = set_next head (Some head) (set_prev head (Some head) l)"

definition list_add_common :: "nat \<Rightarrow> nat option \<Rightarrow> nat option \<Rightarrow> list_heap \<Rightarrow> list_heap option" where
  "list_add_common elem prev next l =
     do { let l = set_prev elem prev l;
          let l = set_next elem next l;
          p \<leftarrow> prev;
          let l = set_next p (Some elem) l;
          n \<leftarrow> next;
          Some (set_prev n (Some elem) l) }"

definition list_add :: "nat \<Rightarrow> nat \<Rightarrow> list_heap \<Rightarrow> list_heap option" where
  "list_add head item l = list_add_common item (Some head) (lnext l head) l"

text \<open>The search of \<open>list_add_inorder\<close>: the last element before the first one that compares
  below the item, or the head.\<close>

partial_function (option) inorder_prev ::
    "(nat \<Rightarrow> nat \<Rightarrow> int) \<Rightarrow> list_heap \<Rightarrow> nat \<Rightarrow> nat \<Rightarrow> nat \<Rightarrow> nat option \<Rightarrow> nat option" where
  "inorder_prev compare l head item prev it =
     do { i \<leftarrow> it;
          if i = head then Some prev
          else if compare i item < 0 then Some prev
          else inorder_prev compare l head item i (lnext l i) }"

definition list_add_inorder ::
    "nat \<Rightarrow> nat \<Rightarrow> (nat \<Rightarrow> nat \<Rightarrow> int) \<Rightarrow> list_heap \<Rightarrow> list_heap option" where
  "list_add_inorder head item compare l =
     do { prev \<leftarrow> inorder_prev compare l head item head (lnext l head);
          list_add prev item l }"

definition list_radd :: "nat \<Rightarrow> nat \<Rightarrow> list_heap \<Rightarrow> list_heap option" where
  "list_radd head item l = list_add_common item (lprev l head) (Some head) l"

definition list_empty :: "nat \<Rightarrow> list_heap \<Rightarrow> bool" where
  "list_empty list l \<longleftrightarrow> lprev l list = Some list"

definition list_unlink :: "nat \<Rightarrow> list_heap \<Rightarrow> list_heap option" where
  "list_unlink elem l =
     do { n \<leftarrow> lnext l elem;
          let l = set_prev n (lprev l elem) l;
          p \<leftarrow> lprev l elem;
          Some (set_next p (lnext l elem) l) }"

definition list_remove :: "nat \<Rightarrow> list_heap \<Rightarrow> list_heap option" where
  "list_remove elem l =
     do { l \<leftarrow> list_unlink elem l;
          Some (set_next elem (Some elem) (set_prev elem (Some elem) l)) }"

definition list_deinit :: "nat \<Rightarrow> list_heap \<Rightarrow> list_heap option" where
  "list_deinit elem l =
     do { l \<leftarrow> list_unlink elem l;
          Some (set_next elem None (set_prev elem None l)) }"

text \<open>The objects visited by \<open>list_foreach\<close> and by \<open>list_foreach_reverse\<close>, and \<open>list_count\<close>.\<close>

partial_function (option) foreach_from :: "list_heap \<Rightarrow> nat \<Rightarrow> nat option \<Rightarrow> nat list option" where
  "foreach_from l head it =
     do { i \<leftarrow> it;
          if i = head then Some []
          else do { is \<leftarrow> foreach_from l head (lnext l i); Some (i # is) } }"

definition list_foreach :: "nat \<Rightarrow> list_heap \<Rightarrow> nat list option" where
  "list_foreach head l = foreach_from l head (lnext l head)"

partial_function (option) foreach_reverse_from :: "list_heap \<Rightarrow> nat \<Rightarrow> nat option \<Rightarrow> nat list option" where
  "foreach_reverse_from l head it =
     do { i \<leftarrow> it;
          if i = head then Some []
          else do { is \<leftarrow> foreach_reverse_from l head (lprev l i); Some (i # is) } }"

definition list_foreach_reverse :: "nat \<Rightarrow> list_heap \<Rightarrow> nat list option" where
  "list_foreach_reverse head l = foreach_reverse_from l head (lprev l head)"

definition list_count :: "nat \<Rightarrow> list_heap \<Rightarrow> u64 option" where
  "list_count head l = do { is \<leftarrow> list_foreach head l; Some (of_nat (length is)) }"

text \<open>\<open>list_prev_safe\<close> and \<open>list_next_safe\<close> return \<open>NULL\<close> at the ends of the list.\<close>

definition list_prev_safe :: "nat \<Rightarrow> nat \<Rightarrow> list_heap \<Rightarrow> nat option" where
  "list_prev_safe ob list l = (if lprev l ob \<noteq> Some list then lprev l ob else None)"

definition list_next_safe :: "nat \<Rightarrow> nat \<Rightarrow> list_heap \<Rightarrow> nat option" where
  "list_next_safe ob list l = (if lnext l ob \<noteq> Some list then lnext l ob else None)"

definition list_head :: "nat \<Rightarrow> list_heap \<Rightarrow> nat option" where
  "list_head list l = lnext l list"

definition list_tail :: "nat \<Rightarrow> list_heap \<Rightarrow> nat option" where
  "list_tail list l = lprev l list"

text \<open>\<open>list_verify\<close> asserts that every element points back to the one before it.\<close>

partial_function (option) list_verify_from :: "list_heap \<Rightarrow> nat \<Rightarrow> nat \<Rightarrow> nat option \<Rightarrow> unit option" where
  "list_verify_from l head prev it =
     do { i \<leftarrow> it;
          if i = head then Some ()
          else do { assert_that (lprev l i = Some prev);
                    list_verify_from l head i (lnext l i) } }"

definition list_verify :: "nat \<Rightarrow> list_heap \<Rightarrow> unit option" where
  "list_verify head l = list_verify_from l head head (lnext l head)"

declare inorder_prev.simps [code] foreach_from.simps [code] foreach_reverse_from.simps [code]
  list_verify_from.simps [code]

section \<open>Lists in the heap\<close>

text \<open>\<open>linked l xs\<close>: each object of \<open>xs\<close> and the next one point to each other.  \<open>list_at l h xs\<close>: the
  objects \<open>xs\<close>, in this order, are the list with head \<open>h\<close>.\<close>

fun linked :: "list_heap \<Rightarrow> nat list \<Rightarrow> bool" where
  "linked l (x # y # zs) = (lnext l x = Some y \<and> lprev l y = Some x \<and> linked l (y # zs))"
| "linked l xs = True"

definition list_at :: "list_heap \<Rightarrow> nat \<Rightarrow> nat list \<Rightarrow> bool" where
  "list_at l h xs \<longleftrightarrow> distinct (h # xs) \<and> linked l (h # xs @ [h])"

lemma linked_append: "linked l (xs @ y # ys) \<longleftrightarrow> linked l (xs @ [y]) \<and> linked l (y # ys)"
  by (induction l xs rule: linked.induct) auto

lemma linked_cong:
  assumes "linked l xs"
    and "\<And>x. x \<in> set (butlast xs) \<Longrightarrow> lnext l' x = lnext l x"
    and "\<And>x. x \<in> set (tl xs) \<Longrightarrow> lprev l' x = lprev l x"
  shows "linked l' xs"
  using assms
proof (induction l xs rule: linked.induct)
  case (1 l x y zs)
  have "linked l' (y # zs)"
    using "1.prems" by (intro "1.IH") (auto split: if_splits)
  with "1.prems" show ?case
    by auto
qed auto

lemma list_heap_access [simp]:
  "lprev (set_prev x v l) = (lprev l)(x := v)" "lnext (set_prev x v l) = lnext l"
  "lnext (set_next x v l) = (lnext l)(x := v)" "lprev (set_next x v l) = lprev l"
  by (simp_all add: set_prev_def set_next_def)

text \<open>A circular list cut between two neighbours \<open>p\<close> and \<open>n\<close>: \<open>us\<close> and \<open>vs\<close> are what precedes \<open>p\<close>
  from the head on and what follows \<open>n\<close> up to the head.\<close>

definition cut_at :: "nat \<Rightarrow> nat list \<Rightarrow> nat list \<Rightarrow> nat list \<Rightarrow> nat \<Rightarrow> nat \<Rightarrow> nat list \<Rightarrow> bool" where
  "cut_at h as bs us p n vs \<longleftrightarrow> h # as = us @ [p] \<and> bs @ [h] = n # vs"

lemma cut_exists: "\<exists>us vs. cut_at h as bs us (last (h # as)) (hd (bs @ [h])) vs"
  unfolding cut_at_def
  by (intro exI [of _ "butlast (h # as)"] exI [of _ "tl (bs @ [h])"]) (cases bs; simp)

lemma list_at_cut:
  assumes "cut_at h as bs us p n vs"
  shows "list_at l h (as @ bs) \<longleftrightarrow> distinct (h # as @ bs) \<and> linked l (us @ [p]) \<and> linked l (n # vs)
    \<and> lnext l p = Some n \<and> lprev l n = Some p"
proof -
  have "h # (as @ bs) @ [h] = us @ p # n # vs"
    using assms by (simp add: cut_at_def)
  then have "list_at l h (as @ bs) \<longleftrightarrow> distinct (h # as @ bs) \<and> linked l (us @ p # n # vs)"
    unfolding list_at_def by metis
  then show ?thesis
    using linked_append [of l us p "n # vs"] by auto
qed

lemma cut_distinct:
  assumes "cut_at h as bs us p n vs" and "distinct (h # as @ bs)"
  shows "p \<notin> set us" and "p \<notin> set bs" and "n \<notin> set as" and "n \<notin> set vs"
    and "set us \<subseteq> set (h # as)" and "set vs \<subseteq> set (h # bs)" and "p \<in> set (h # as)" and "n \<in> set (h # bs)"
    and "butlast (n # vs) = bs" and "tl (us @ [p]) = as"
proof -
  have 1: "h # as = us @ [p]" and 2: "bs @ [h] = n # vs"
    using assms(1) by (simp_all add: cut_at_def)
  have "distinct (us @ [p])" and "distinct (n # vs)"
    using assms(2) unfolding 1 [symmetric] 2 [symmetric] by auto
  then show "p \<notin> set us" and "n \<notin> set vs"
    by simp_all
  have s: "set (h # as) = insert p (set us)" "set (h # bs) = insert n (set vs)"
    using arg_cong [OF 1, of set] arg_cong [OF 2, of set] by simp_all
  then show "set us \<subseteq> set (h # as)" and "set vs \<subseteq> set (h # bs)"
      and p: "p \<in> set (h # as)" and n: "n \<in> set (h # bs)"
    by blast+
  show "p \<notin> set bs" and "n \<notin> set as"
    using p n assms(2) by auto
  show "butlast (n # vs) = bs" and "tl (us @ [p]) = as"
    using 1 2 by (metis butlast_snoc) (metis 1 list.sel(3))
qed

section \<open>The operations on the sequence of objects\<close>

lemma list_init_at: "list_at (list_init h l) h []"
  by (simp add: list_at_def list_init_def)

lemma list_at_link:
  assumes "list_at l h (as @ bs)"
  shows "lnext l (last (h # as)) = Some (hd (bs @ [h]))" and "lprev l (hd (bs @ [h])) = Some (last (h # as))"
  using cut_exists [of h as bs] list_at_cut assms by blast+

lemma list_empty_iff:
  assumes "list_at l h xs"
  shows "list_empty h l \<longleftrightarrow> xs = []"
proof -
  have "lprev l h = Some (last (h # xs))" and "h \<notin> set xs"
    using list_at_link(2) [of l h xs "[]"] assms by (simp_all add: list_at_def)
  moreover have "xs \<noteq> [] \<Longrightarrow> last xs \<noteq> h"
    using \<open>h \<notin> set xs\<close> by (metis last_in_set)
  ultimately show ?thesis
    by (auto simp: list_empty_def)
qed

lemma list_ends:
  assumes "list_at l h xs"
  shows "list_head h l = Some (hd (xs @ [h]))" and "list_tail h l = Some (last (h # xs))"
  using list_at_link(1) [of l h "[]" xs] list_at_link(2) [of l h xs "[]"] assms
  by (simp_all add: list_head_def list_tail_def)

lemma list_neighbours:
  assumes "list_at l h (as @ x # bs)"
  shows "lprev l x = Some (last (h # as))" and "lnext l x = Some (hd (bs @ [h]))"
  using list_at_link(2) [of l h as "x # bs"] list_at_link(1) [of l h "as @ [x]" bs] assms by simp_all

lemma list_add_common_at:
  assumes l: "list_at l h (as @ bs)" and e: "e \<notin> set (h # as @ bs)"
  shows "\<exists>l'. list_add_common e (Some (last (h # as))) (Some (hd (bs @ [h]))) l = Some l'
    \<and> list_at l' h (as @ e # bs)"
proof -
  let ?p = "last (h # as)" and ?n = "hd (bs @ [h])"
  let ?l = "set_prev ?n (Some e) (set_next ?p (Some e) (set_next e (Some ?n) (set_prev e (Some ?p) l)))"
  obtain us vs where c: "cut_at h as bs us ?p ?n vs"
    using cut_exists by blast
  have d: "distinct (h # as @ bs)" and lu: "linked l (us @ [?p])" and lv: "linked l (?n # vs)"
    using l list_at_cut [OF c] by blast+
  note cd = cut_distinct [OF c d]
  have ne: "?p \<noteq> e" "?n \<noteq> e"
    using cd(7,8) e by auto
  have 1: "linked ?l (us @ [?p])"
    using lu by (rule linked_cong) (use cd e in \<open>auto simp: butlast_append\<close>)
  have 2: "linked ?l (?n # vs)"
    using lv by (rule linked_cong) (use cd e in auto)
  have c': "cut_at h (as @ [e]) bs (us @ [?p]) e ?n vs"
    using c by (simp add: cut_at_def)
  have "linked ?l ((us @ [?p]) @ [e])"
    using 1 linked_append [of ?l us ?p "[e]"] ne by auto
  then have "list_at ?l h ((as @ [e]) @ bs)"
    using list_at_cut [OF c', of ?l] 2 d e ne by auto
  then show ?thesis
    by (simp add: list_add_common_def Let_def)
qed

lemma list_add_at:
  assumes "list_at l h (as @ bs)" and "e \<notin> set (h # as @ bs)"
  shows "\<exists>l'. list_add (last (h # as)) e l = Some l' \<and> list_at l' h (as @ e # bs)"
  using list_add_common_at [OF assms] list_at_link(1) [OF assms(1)] by (simp add: list_add_def)

lemma list_radd_at:
  assumes "list_at l h xs" and "e \<notin> set (h # xs)"
  shows "\<exists>l'. list_radd h e l = Some l' \<and> list_at l' h (xs @ [e])"
  using list_add_common_at [of l h xs "[]" e] list_at_link(2) [of l h xs "[]"] assms
  by (simp add: list_radd_def)

lemma list_unlink_at:
  assumes l: "list_at l h (as @ e # bs)"
  shows "\<exists>l'. list_unlink e l = Some l' \<and> list_at l' h (as @ bs)
    \<and> lprev l' e = lprev l e \<and> lnext l' e = lnext l e"
proof -
  let ?p = "last (h # as)" and ?n = "hd (bs @ [h])"
  let ?l = "set_next ?p (Some ?n) (set_prev ?n (Some ?p) l)"
  obtain us vs where c: "cut_at h as bs us ?p ?n vs"
    using cut_exists by blast
  have d: "distinct (h # as @ bs)" and e: "e \<notin> set (h # as @ bs)"
    using l by (auto simp: list_at_def)
  note cd = cut_distinct [OF c d]
  have ne: "?p \<noteq> e" "?n \<noteq> e"
    using cd(7,8) e by auto
  have c': "cut_at h (as @ [e]) bs (us @ [?p]) e ?n vs"
    using c by (simp add: cut_at_def)
  have "linked l ((us @ [?p]) @ [e])" and lv: "linked l (?n # vs)"
    using l list_at_cut [OF c', of l] by auto
  then have lu: "linked l (us @ [?p])"
    using linked_append [of l us ?p "[e]"] by simp
  have "linked ?l (us @ [?p])"
    using lu by (rule linked_cong) (use cd in \<open>auto simp: butlast_append\<close>)
  moreover have "linked ?l (?n # vs)"
    using lv by (rule linked_cong) (use cd in auto)
  ultimately have "list_at ?l h (as @ bs)"
    using list_at_cut [OF c, of ?l] d by simp
  moreover have "list_unlink e l = Some ?l"
    using list_neighbours [OF l] ne by (simp add: list_unlink_def Let_def)
  ultimately show ?thesis
    using ne by auto
qed

text \<open>A store into a link that is not part of a list leaves the list alone.\<close>

lemma list_at_other:
  assumes "list_at l h xs" and "e \<notin> set (h # xs)"
  shows "list_at (set_next e v (set_prev e w l)) h xs"
  using assms unfolding list_at_def by (auto intro!: linked_cong [of l] dest: in_set_butlastD)

lemma list_remove_at:
  assumes l: "list_at l h (as @ e # bs)"
  shows "\<exists>l'. list_remove e l = Some l' \<and> list_at l' h (as @ bs) \<and> list_at l' e []"
proof -
  obtain l1 where l1: "list_unlink e l = Some l1" "list_at l1 h (as @ bs)"
    using list_unlink_at [OF l] by blast
  have "e \<notin> set (h # as @ bs)"
    using l by (auto simp: list_at_def)
  with l1 show ?thesis
    using list_at_other [of l1 h "as @ bs" e] by (simp add: list_remove_def list_at_def)
qed

lemma list_deinit_at:
  assumes l: "list_at l h (as @ e # bs)"
  shows "\<exists>l'. list_deinit e l = Some l' \<and> list_at l' h (as @ bs) \<and> lprev l' e = None \<and> lnext l' e = None"
proof -
  obtain l1 where l1: "list_unlink e l = Some l1" "list_at l1 h (as @ bs)"
    using list_unlink_at [OF l] by blast
  have "e \<notin> set (h # as @ bs)"
    using l by (auto simp: list_at_def)
  with l1 show ?thesis
    using list_at_other [of l1 h "as @ bs" e] by (simp add: list_deinit_def)
qed

text \<open>Frames: what an operation on a list changes lies in the list, so the lists next to it stay.\<close>

definition agree_outside :: "nat set \<Rightarrow> list_heap \<Rightarrow> list_heap \<Rightarrow> bool" where
  "agree_outside N l l' \<longleftrightarrow> (\<forall>x. x \<notin> N \<longrightarrow> lprev l' x = lprev l x \<and> lnext l' x = lnext l x)"

lemma agree_outside_refl: "agree_outside N l l"
  by (simp add: agree_outside_def)

lemma agree_outside_trans:
  "agree_outside M l l' \<Longrightarrow> agree_outside N l' l'' \<Longrightarrow> agree_outside (M \<union> N) l l''"
  by (simp add: agree_outside_def)

lemma agree_outside_mono: "agree_outside M l l' \<Longrightarrow> M \<subseteq> N \<Longrightarrow> agree_outside N l l'"
  unfolding agree_outside_def by blast

lemma agree_outsideD:
  assumes "agree_outside N l l'" and "x \<notin> N"
  shows "lprev l' x = lprev l x" and "lnext l' x = lnext l x"
  using assms by (simp_all add: agree_outside_def)

lemma list_at_frame:
  assumes "list_at l h xs" and "agree_outside N l l'" and "set (h # xs) \<inter> N = {}"
  shows "list_at l' h xs"
proof -
  have out: "x \<notin> N" if "x \<in> set (h # xs)" for x
    using assms(3) that by blast
  have "linked l' (h # xs @ [h])"
  proof (rule linked_cong [of l])
    show "linked l (h # xs @ [h])"
      using assms(1) by (simp add: list_at_def)
    show "lnext l' x = lnext l x" if "x \<in> set (butlast (h # xs @ [h]))" for x
      using agree_outsideD(2) [OF assms(2) out] in_set_butlastD [OF that] by simp
    show "lprev l' x = lprev l x" if "x \<in> set (tl (h # xs @ [h]))" for x
      using agree_outsideD(1) [OF assms(2) out] that by simp
  qed
  then show ?thesis
    using assms(1) by (simp add: list_at_def)
qed

lemma list_init_agree: "agree_outside {x} l (list_init x l)"
  by (simp add: agree_outside_def list_init_def)

lemma list_add_agree:
  assumes "list_at l h xs" and "list_add h e l = Some l'"
  shows "agree_outside (insert e (set (h # xs))) l l'"
proof -
  define n where "n = hd (xs @ [h])"
  have "lnext l h = Some n"
    using list_at_link(1) [of l h "[]" xs] assms(1) by (simp add: n_def)
  then have "l' = set_prev n (Some e) (set_next h (Some e) (set_next e (Some n) (set_prev e (Some h) l)))"
    using assms(2) by (simp add: list_add_def list_add_common_def Let_def)
  moreover have "n \<in> set (h # xs)"
    using hd_in_set [of "xs @ [h]"] by (simp add: n_def)
  ultimately show ?thesis
    unfolding agree_outside_def by auto
qed

lemma list_deinit_agree:
  assumes "list_at l h (as @ e # bs)" and "list_deinit e l = Some l'"
  shows "agree_outside (set (h # as @ e # bs)) l l'"
proof -
  define p n where "p = last (h # as)" and "n = hd (bs @ [h])"
  have link: "lprev l e = Some p" "lnext l e = Some n"
    using list_neighbours [OF assms(1)] by (simp_all only: p_def n_def)
  have mem: "p \<in> set (h # as)" "n \<in> set (h # bs)"
    using last_in_set [of "h # as"] hd_in_set [of "bs @ [h]"] by (simp_all only: p_def n_def) simp_all
  have "e \<notin> set (h # as)" "e \<notin> set (h # bs)"
    using assms(1) by (simp_all add: list_at_def)
  then have "p \<noteq> e" "n \<noteq> e"
    using mem by metis+
  then have l': "l' = set_next e None (set_prev e None (set_next p (Some n) (set_prev n (Some p) l)))"
    using assms(2) link by (simp add: list_deinit_def list_unlink_def Let_def)
  have "agree_outside {p, n, e} l l'"
    unfolding agree_outside_def l' by simp
  moreover have "{p, n, e} \<subseteq> set (h # as @ e # bs)"
    using mem by auto
  ultimately show ?thesis
    by (rule agree_outside_mono)
qed

lemma foreach_from_at:
  assumes "list_at l h (as @ bs)"
  shows "foreach_from l h (Some (hd (bs @ [h]))) = Some bs"
  using assms
proof (induction bs arbitrary: as)
  case Nil
  then show ?case by (simp add: foreach_from.simps)
next
  case (Cons b bs)
  then have "b \<noteq> h"
    by (auto simp: list_at_def)
  moreover have "lnext l b = Some (hd (bs @ [h]))"
    by (rule list_neighbours(2) [OF Cons.prems])
  moreover have "foreach_from l h (Some (hd (bs @ [h]))) = Some bs"
    using Cons.IH [of "as @ [b]"] Cons.prems by simp
  ultimately show ?case
    by (subst foreach_from.simps) simp
qed

lemma foreach_reverse_from_at:
  assumes "list_at l h (as @ bs)"
  shows "foreach_reverse_from l h (Some (last (h # as))) = Some (rev as)"
  using assms
proof (induction as arbitrary: bs rule: rev_induct)
  case Nil
  then show ?case by (simp add: foreach_reverse_from.simps)
next
  case (snoc a as)
  then have "a \<noteq> h"
    by (auto simp: list_at_def)
  moreover have "lprev l a = Some (last (h # as))"
    using list_neighbours(1) [of l h as a bs] snoc.prems by simp
  moreover have "foreach_reverse_from l h (Some (last (h # as))) = Some (rev as)"
    using snoc.IH [of "a # bs"] snoc.prems by simp
  ultimately show ?case
    by (subst foreach_reverse_from.simps) simp
qed

lemma inorder_prev_at:
  assumes "list_at l h (as @ bs)"
  shows "inorder_prev cmp l h e (last (h # as)) (Some (hd (bs @ [h])))
    = Some (last (h # as @ takeWhile (\<lambda>i. 0 \<le> cmp i e) bs))"
  using assms
proof (induction bs arbitrary: as)
  case Nil
  then show ?case by (simp add: inorder_prev.simps)
next
  case (Cons b bs)
  then have "b \<noteq> h"
    by (auto simp: list_at_def)
  moreover have "lnext l b = Some (hd (bs @ [h]))"
    by (rule list_neighbours(2) [OF Cons.prems])
  moreover have "inorder_prev cmp l h e b (Some (hd (bs @ [h])))
      = Some (last (h # (as @ [b]) @ takeWhile (\<lambda>i. 0 \<le> cmp i e) bs))"
    using Cons.IH [of "as @ [b]"] Cons.prems by simp
  ultimately show ?case
    by (subst inorder_prev.simps) auto
qed

lemma list_add_inorder_at:
  assumes l: "list_at l h xs" and "e \<notin> set (h # xs)"
  shows "\<exists>l'. list_add_inorder h e cmp l = Some l'
    \<and> list_at l' h (takeWhile (\<lambda>i. 0 \<le> cmp i e) xs @ e # dropWhile (\<lambda>i. 0 \<le> cmp i e) xs)"
proof -
  let ?as = "takeWhile (\<lambda>i. 0 \<le> cmp i e) xs" and ?bs = "dropWhile (\<lambda>i. 0 \<le> cmp i e) xs"
  have "list_at l h (?as @ ?bs)" and "e \<notin> set (h # ?as @ ?bs)"
    using assms by simp_all
  from list_add_at [OF this] show ?thesis
    using inorder_prev_at [of l h "[]" xs cmp e] list_at_link(1) [of l h "[]" xs] l
    by (simp add: list_add_inorder_def)
qed

lemma list_verify_from_at:
  assumes "list_at l h (as @ bs)"
  shows "list_verify_from l h (last (h # as)) (Some (hd (bs @ [h]))) = Some ()"
  using assms
proof (induction bs arbitrary: as)
  case Nil
  then show ?case by (simp add: list_verify_from.simps)
next
  case (Cons b bs)
  then have "b \<noteq> h"
    by (auto simp: list_at_def)
  moreover have "lnext l b = Some (hd (bs @ [h]))" "lprev l b = Some (last (h # as))"
    by (rule list_neighbours [OF Cons.prems])+
  moreover have "list_verify_from l h b (Some (hd (bs @ [h]))) = Some ()"
    using Cons.IH [of "as @ [b]"] Cons.prems by simp
  ultimately show ?case
    by (subst list_verify_from.simps) simp
qed

section \<open>Properties\<close>

text \<open>Example data for the witnesses: the list with head 0 and the elements 1 and 2.\<close>

definition sample_list :: list_heap where
  "sample_list = \<lparr>lprev = Map.empty(0 \<mapsto> 2, 1 \<mapsto> 0, 2 \<mapsto> 1), lnext = Map.empty(0 \<mapsto> 1, 1 \<mapsto> 2, 2 \<mapsto> 0)\<rparr>"

lemma sample_list_at: "list_at sample_list 0 [1, 2]"
  by (simp add: list_at_def sample_list_def)

text \<open>C9: \<open>list_add\<close> and \<open>list_radd\<close> put an object that is not yet linked at the front and at the back
  of a circular list: the heap then holds the extended sequence, with all links consistent in
  both directions, and nothing is dereferenced that is \<open>NULL\<close>.\<close>

theorem list_add_radd_ends:
  assumes "list_at l h xs" and "e \<notin> set (h # xs)"
  shows "(\<exists>l'. list_add h e l = Some l' \<and> list_at l' h (e # xs))
    \<and> (\<exists>l'. list_radd h e l = Some l' \<and> list_at l' h (xs @ [e]))"
  using list_add_at [of l h "[]" xs e] list_radd_at assms by simp

theorem list_add_radd_ends_witness:
  "(\<exists>l'. list_add 0 3 sample_list = Some l' \<and> list_at l' 0 [3, 1, 2])
    \<and> (\<exists>l'. list_radd 0 3 sample_list = Some l' \<and> list_at l' 0 [1, 2, 3])"
  using list_add_radd_ends [OF sample_list_at, of 3] by simp

text \<open>C10: \<open>list_remove\<close> and \<open>list_deinit\<close> take an element out of a list wherever it is; the rest of
  the list keeps its order.  After \<open>list_remove\<close> the element is an empty list of its own, after
  \<open>list_deinit\<close> its pointers are \<open>NULL\<close>.\<close>

theorem list_remove_deinit:
  assumes "list_at l h (as @ e # bs)"
  shows "(\<exists>l'. list_remove e l = Some l' \<and> list_at l' h (as @ bs) \<and> list_at l' e [])
    \<and> (\<exists>l'. list_deinit e l = Some l' \<and> list_at l' h (as @ bs) \<and> lprev l' e = None \<and> lnext l' e = None)"
  using list_remove_at [OF assms] list_deinit_at [OF assms] by blast

theorem list_remove_deinit_witness:
  "(\<exists>l'. list_remove 1 sample_list = Some l' \<and> list_at l' 0 [2] \<and> list_at l' 1 [])
    \<and> (\<exists>l'. list_deinit 1 sample_list = Some l' \<and> list_at l' 0 [2] \<and> lprev l' 1 = None \<and> lnext l' 1 = None)"
  using list_remove_deinit [of sample_list 0 "[]" 1 "[2]"] sample_list_at by simp

text \<open>C11: \<open>list_add_inorder\<close>, with a comparison that is negative exactly when the element's key is
  greater than the item's, keeps a list sorted by key: the item goes after the elements whose
  key is not greater.\<close>

theorem list_add_inorder_sorted:
  fixes key :: "nat \<Rightarrow> 'k::linorder"
  assumes "list_at l h xs" and "e \<notin> set (h # xs)" and "sorted (map key xs)"
    and cmp: "\<forall>i\<in>set xs. cmp i e < (0::int) \<longleftrightarrow> key e < key i"
  shows "\<exists>l' as bs. list_add_inorder h e cmp l = Some l' \<and> xs = as @ bs \<and> list_at l' h (as @ e # bs)
    \<and> sorted (map key (as @ e # bs)) \<and> (\<forall>a\<in>set as. key a \<le> key e) \<and> (\<forall>b\<in>set bs. key e < key b)"
proof -
  let ?as = "takeWhile (\<lambda>i. 0 \<le> cmp i e) xs" and ?bs = "dropWhile (\<lambda>i. 0 \<le> cmp i e) xs"
  have xs: "xs = ?as @ ?bs"
    by simp
  have a: "\<forall>a\<in>set ?as. key a \<le> key e"
  proof
    fix a assume "a \<in> set ?as"
    then have "a \<in> set xs" and "0 \<le> cmp a e"
      by (auto dest: set_takeWhileD)
    then show "key a \<le> key e"
      using cmp by (meson leI not_less)
  qed
  have s: "sorted (map key (?as @ ?bs))"
    using assms(3) by simp
  have b: "\<forall>b\<in>set ?bs. key e < key b"
  proof (cases ?bs)
    case Nil
    then show ?thesis by (metis empty_iff empty_set)
  next
    case (Cons b bs)
    then have "b \<in> set xs" and "cmp b e < 0"
      using hd_dropWhile [of "\<lambda>i. 0 \<le> cmp i e" xs] set_dropWhileD [of b "\<lambda>i. 0 \<le> cmp i e" xs] by auto
    with cmp have "key e < key b"
      by simp
    moreover have "sorted (map key (b # bs))"
      using s Cons by (metis map_append sorted_append)
    ultimately show ?thesis
      using Cons by auto
  qed
  have "sorted (map key (?as @ e # ?bs))"
    using s a b by (force simp: sorted_append simp del: takeWhile_dropWhile_id)
  then show ?thesis
    using list_add_inorder_at [OF assms(1,2), of cmp] xs a b by blast
qed

theorem list_add_inorder_sorted_witness:
  "\<exists>l' as bs. list_add_inorder 0 3 (\<lambda>i j. int j - int i) sample_list = Some l' \<and> [1, 2] = as @ bs
    \<and> list_at l' 0 (as @ 3 # bs) \<and> sorted (map id (as @ 3 # bs))
    \<and> (\<forall>a\<in>set as. id a \<le> id 3) \<and> (\<forall>b\<in>set bs. id 3 < id b)"
  by (rule list_add_inorder_sorted [OF sample_list_at]) auto

text \<open>C12: traversals end and see exactly the elements: \<open>list_foreach\<close> in order,
  \<open>list_foreach_reverse\<close> in reverse order; \<open>list_count\<close> is the length and \<open>list_verify\<close> does not
  panic.\<close>

theorem list_traversal:
  assumes "list_at l h xs"
  shows "list_foreach h l = Some xs \<and> list_foreach_reverse h l = Some (rev xs)
    \<and> list_count h l = Some (of_nat (length xs)) \<and> list_verify h l = Some ()"
  using foreach_from_at [of l h "[]" xs] foreach_reverse_from_at [of l h xs "[]"]
    list_verify_from_at [of l h "[]" xs] list_at_link(1) [of l h "[]" xs]
    list_at_link(2) [of l h xs "[]"] assms
  by (simp add: list_foreach_def list_foreach_reverse_def list_count_def list_verify_def)

theorem list_traversal_witness:
  "list_foreach 0 sample_list = Some [1, 2] \<and> list_foreach_reverse 0 sample_list = Some [2, 1]
    \<and> list_count 0 sample_list = Some 2 \<and> list_verify 0 sample_list = Some ()"
  using list_traversal [OF sample_list_at] by simp

end
