(* ===== verification/Addrspace.thy ===== *)
theory Addrspace
  imports Ranges Avltree_Set Lists
begin

text \<open>
  \<open>lib/adt/addrspace.h\<close> and \<open>lib/adt/addrspace.c\<close>: an address space is an AVL tree of nodes and a
  list of the same nodes, both ordered by the range of addresses a node covers.  One heap holds
  the tree links of \<open>Avltree\<close> and, in its extension, the list links of \<open>Lists\<close> and the two other
  fields of \<open>struct addrspace_node\<close>.  The three embedded structs of a node have the number of the
  node; the number 0 is the list head inside \<open>struct address_space\<close>.
\<close>

unbundle bit_operations_syntax

section \<open>Definitions\<close>

record addr_heap = avl_heap +
  links :: list_heap
  ranges :: "nat \<Rightarrow> range"
  largest_free_to_prev :: "nat \<Rightarrow> u64"

definition addrspace_list :: nat where
  "addrspace_list = 0"

definition ADDRSPACE_INVALID_ADDR :: u64 where
  "ADDRSPACE_INVALID_ADDR = UINT64_MAX"

definition addrspace_node_prev :: "'a addr_heap_scheme \<Rightarrow> nat \<Rightarrow> nat option option" where
  "addrspace_node_prev h node =
     do { prev \<leftarrow> lprev (links h) node;
          Some (if prev = addrspace_list then None else Some prev) }"

definition addrspace_node_next :: "'a addr_heap_scheme \<Rightarrow> nat \<Rightarrow> nat option" where
  "addrspace_node_next h node =
     (if lprev (links h) node = Some addrspace_list then None else lnext (links h) node)"

text \<open>\<open>prev != NULL ? range_get_end_assert(prev->range) : 0\<close>\<close>

definition prev_end_of :: "'a addr_heap_scheme \<Rightarrow> nat option \<Rightarrow> u64 option" where
  "prev_end_of h prev =
     (case prev of None \<Rightarrow> Some 0 | Some p \<Rightarrow> range_get_end_assert (ranges h p))"

definition avltree_update :: "nat \<Rightarrow> 'a addr_heap_scheme \<Rightarrow> 'a addr_heap_scheme option" where
  "avltree_update node h =
     do { prev \<leftarrow> addrspace_node_prev h node;
          prev_end \<leftarrow> prev_end_of h prev;
          let largest = distance prev_end (rfront (ranges h node));
          let largest = (case nleft h node of
                           None \<Rightarrow> largest
                         | Some lnode \<Rightarrow> max largest (largest_free_to_prev h lnode));
          let largest = (case nright h node of
                           None \<Rightarrow> largest
                         | Some rnode \<Rightarrow> max largest (largest_free_to_prev h rnode));
          Some (h\<lparr>largest_free_to_prev := (largest_free_to_prev h)(node := largest)\<rparr>) }"

definition avltree_compare :: "'a addr_heap_scheme \<Rightarrow> nat \<Rightarrow> nat \<Rightarrow> int" where
  "avltree_compare h our_node their_node =
     (if range_overlaps (ranges h our_node) (ranges h their_node) then 0
      else if range_above (ranges h our_node) (ranges h their_node) then - 1 else 1)"

text \<open>The results of \<open>traverse_tree\<close> with its out parameters: the address and \<open>prev_out\<close> when it is
  done, the node to go on from otherwise.\<close>

datatype traversal_result = TRAVERSAL_DONE u64 "nat option" | TRAVERSAL_CONTINUE nat

text \<open>The inner loop of \<open>traverse_tree\<close>: up to the parent of the first left child on the way, or to
  the root.\<close>

partial_function (option) climb_from_right :: "'a addr_heap_scheme \<Rightarrow> nat \<Rightarrow> nat option option" where
  "climb_from_right h node =
     (case nparent h node of
        None \<Rightarrow> Some None
      | Some parent \<Rightarrow>
          if nleft h parent = Some node then Some (Some parent)
          else climb_from_right h parent)"

text \<open>The space after the last node.\<close>

definition space_at_end ::
    "'a addr_heap_scheme \<Rightarrow> range \<Rightarrow> u64 \<Rightarrow> u64 \<Rightarrow> nat option \<Rightarrow> traversal_result option" where
  "space_at_end h in_range sz align prev_out =
     do { rightmost \<leftarrow> lprev (links h) addrspace_list;
          aligned_result \<leftarrow> range_get_end_assert (ranges h rightmost);
          in_end \<leftarrow> range_get_end_assert in_range;
          if in_end \<le> aligned_result then Some (TRAVERSAL_DONE ADDRSPACE_INVALID_ADDR prev_out)
          else do { up \<leftarrow> align_up aligned_result align;
                    case up of
                      Fail \<Rightarrow> Some (TRAVERSAL_DONE ADDRSPACE_INVALID_ADDR prev_out)
                    | Ok aligned_result \<Rightarrow>
                        (case check_add aligned_result sz of
                           Fail \<Rightarrow> Some (TRAVERSAL_DONE ADDRSPACE_INVALID_ADDR prev_out)
                         | Ok _ \<Rightarrow> Some (TRAVERSAL_DONE aligned_result (Some rightmost))) } }"

partial_function (option) traverse_tree ::
    "'a addr_heap_scheme \<Rightarrow> range \<Rightarrow> u64 \<Rightarrow> u64 \<Rightarrow> nat option \<Rightarrow> nat \<Rightarrow> traversal_result option" where
  "traverse_tree h in_range sz align prev_out node =
     do { prev \<leftarrow> addrspace_node_prev h node;
          prev_end \<leftarrow> prev_end_of h prev;
          if range_is_loc_above in_range prev_end
          then Some (TRAVERSAL_DONE ADDRSPACE_INVALID_ADDR prev_out)
          else do {
            up \<leftarrow> align_up prev_end align;
            case up of
              Fail \<Rightarrow> Some (TRAVERSAL_DONE ADDRSPACE_INVALID_ADDR prev_out)
            | Ok aligned_front \<Rightarrow>
                do { hole_range \<leftarrow> range_create_end prev_end (rfront (ranges h node));
                     let aligned_range = RANGE_INIT aligned_front sz;
                     in_hole \<leftarrow> range_has hole_range aligned_range;
                     in_in \<leftarrow> range_has in_range aligned_range;
                     if in_hole \<and> in_in then Some (TRAVERSAL_DONE aligned_front prev)
                     else if (case nright h node of
                                None \<Rightarrow> False
                              | Some rnode \<Rightarrow> sz \<le> largest_free_to_prev h rnode)
                     then Some (TRAVERSAL_CONTINUE (the (nright h node)))
                     else do { up \<leftarrow> climb_from_right h node;
                               case up of
                                 None \<Rightarrow> space_at_end h in_range sz align prev_out
                               | Some parent \<Rightarrow> traverse_tree h in_range sz align prev_out parent } } } }"

text \<open>The loop of \<open>find_from_start\<close>.\<close>

partial_function (option) find_loop ::
    "'a addr_heap_scheme \<Rightarrow> range \<Rightarrow> u64 \<Rightarrow> u64 \<Rightarrow> nat option \<Rightarrow> nat \<Rightarrow> (u64 \<times> nat option) option" where
  "find_loop h in_range sz align prev_out node =
     (case nleft h node of
        Some lnode \<Rightarrow>
          if range_is_loc_above in_range (rfront (ranges h node)) \<and> sz \<le> largest_free_to_prev h lnode
          then find_loop h in_range sz align prev_out lnode
          else do { r \<leftarrow> traverse_tree h in_range sz align prev_out node;
                    case r of
                      TRAVERSAL_DONE result prev_out \<Rightarrow> Some (result, prev_out)
                    | TRAVERSAL_CONTINUE node \<Rightarrow> find_loop h in_range sz align prev_out node }
      | None \<Rightarrow>
          do { r \<leftarrow> traverse_tree h in_range sz align prev_out node;
               case r of
                 TRAVERSAL_DONE result prev_out \<Rightarrow> Some (result, prev_out)
               | TRAVERSAL_CONTINUE node \<Rightarrow> find_loop h in_range sz align prev_out node })"

definition find_from_start ::
    "'a addr_heap_scheme \<Rightarrow> range \<Rightarrow> u64 \<Rightarrow> u8 \<Rightarrow> nat option \<Rightarrow> (u64 \<times> nat option) option" where
  "find_from_start h in_range sz pagesize_order prev_out =
     do { assert_that (unat pagesize_order < 64);
          let align = push_bit (unat pagesize_order) PAGE_SIZE;
          case root h of
            None \<Rightarrow>
              do { aligned_front \<leftarrow> align_up_assert (rfront in_range) align;
                   has \<leftarrow> range_has in_range (RANGE_INIT aligned_front sz);
                   Some (if has then (aligned_front, None)
                         else (ADDRSPACE_INVALID_ADDR, prev_out)) }
          | Some node \<Rightarrow> find_loop h in_range sz align prev_out node }"

definition addrspace_find_space_and_add_node ::
    "range \<Rightarrow> nat \<Rightarrow> u8 \<Rightarrow> 'a addr_heap_scheme \<Rightarrow> (u64 \<times> 'a addr_heap_scheme) option" where
  "addrspace_find_space_and_add_node in_range node pagesize_order h =
     do { (addr, prev) \<leftarrow> find_from_start h in_range (rsize (ranges h node)) pagesize_order None;
          if addr = ADDRSPACE_INVALID_ADDR then Some (ADDRSPACE_INVALID_ADDR, h)
          else do {
            let h = h\<lparr>ranges := (ranges h)(node := (ranges h node)\<lparr>rfront := addr\<rparr>)\<rparr>;
            case prev of
              Some p \<Rightarrow>
                do { ls \<leftarrow> list_add p node (links h);
                     let h = h\<lparr>links := ls\<rparr>;
                     h \<leftarrow> avltree_insert_at_loc node (Some p) (LinkRight p) (Some avltree_update) h;
                     Some (addr, h) }
            | None \<Rightarrow>
                do { (result, h) \<leftarrow>
                       avltree_insert node avltree_compare (Some avltree_update) None h;
                     assert_that result;
                     ls \<leftarrow> list_add addrspace_list node (links h);
                     Some (addr, h\<lparr>links := ls\<rparr>) } } }"

definition add_node_cb :: "nat \<Rightarrow> 'a addr_heap_scheme \<Rightarrow> 'a addr_heap_scheme option" where
  "add_node_cb node h =
     (case nparent h node of
        None \<Rightarrow> do { ls \<leftarrow> list_add addrspace_list node (links h); Some (h\<lparr>links := ls\<rparr>) }
      | Some parent \<Rightarrow>
          if nright h parent = Some node
          then do { ls \<leftarrow> list_add parent node (links h); Some (h\<lparr>links := ls\<rparr>) }
          else do { prev \<leftarrow> addrspace_node_prev h parent;
                    p \<leftarrow> prev;
                    ls \<leftarrow> list_add p node (links h);
                    Some (h\<lparr>links := ls\<rparr>) })"

definition addrspace_add_node :: "nat \<Rightarrow> 'a addr_heap_scheme \<Rightarrow> (bool \<times> 'a addr_heap_scheme) option" where
  "addrspace_add_node node h =
     avltree_insert node avltree_compare (Some avltree_update) (Some add_node_cb) h"

definition addrspace_remove_node :: "nat \<Rightarrow> 'a addr_heap_scheme \<Rightarrow> 'a addr_heap_scheme option" where
  "addrspace_remove_node node h =
     do { h \<leftarrow> avltree_delete_node node (Some avltree_update) h;
          ls \<leftarrow> list_deinit node (links h);
          Some (h\<lparr>links := ls\<rparr>) }"

declare climb_from_right.simps [code] traverse_tree.simps [code] find_loop.simps [code]

section \<open>The update callback meets its contract\<close>

text \<open>The part of the heap that belongs to the address space, seen as a heap of its own.\<close>

definition client :: "'a addr_heap_ext \<Rightarrow> 'a addr_heap_scheme" where
  "client m = \<lparr>nparent = Map.empty, nleft = Map.empty, nright = Map.empty, nheight = (\<lambda>_. 0),
     root = None, \<dots> = m\<rparr>"

lemma client_more [simp]:
  "links (client (avl_heap.more h)) = links h"
  "ranges (client (avl_heap.more h)) = ranges h"
  "largest_free_to_prev (client (avl_heap.more h)) = largest_free_to_prev h"
  by (cases h; simp add: client_def)+

lemma more_same:
  assumes "avl_heap.more h' = avl_heap.more h"
  shows "links h' = links h" and "ranges h' = ranges h" and "largest_free_to_prev h' = largest_free_to_prev h"
  using assms client_more [of h] client_more [of h'] by simp_all

lemma largest_as_more:
  "h\<lparr>largest_free_to_prev := f\<rparr> = h\<lparr>avl_heap.more := avl_heap.more (h\<lparr>largest_free_to_prev := f\<rparr>)\<rparr>"
  by (cases h) simp

lemma links_as_more:
  "h\<lparr>links := l\<rparr> = h\<lparr>avl_heap.more := avl_heap.more (h\<lparr>links := l\<rparr>)\<rparr>"
  by (cases h) simp

text \<open>The list links and the ranges are \<open>L\<close> and \<open>R\<close>, and every node of \<open>S\<close> has a predecessor in the list
  that is the list head or has a range that does not overflow.\<close>

definition prev_ok :: "list_heap \<Rightarrow> (nat \<Rightarrow> range) \<Rightarrow> nat \<Rightarrow> bool" where
  "prev_ok L R n \<longleftrightarrow> (\<exists>p. lprev L n = Some p \<and> (p = addrspace_list \<or> range_wf (R p)))"

definition update_inv :: "list_heap \<Rightarrow> (nat \<Rightarrow> range) \<Rightarrow> nat set \<Rightarrow> 'a addr_heap_ext \<Rightarrow> bool" where
  "update_inv L R S m \<longleftrightarrow> links (client m) = L \<and> ranges (client m) = R \<and> (\<forall>n\<in>S. prev_ok L R n)"

lemma update_inv_more:
  "update_inv L R S (avl_heap.more h) \<longleftrightarrow> links h = L \<and> ranges h = R \<and> (\<forall>n\<in>S. prev_ok L R n)"
  by (simp add: update_inv_def)

lemma prev_end_defined:
  assumes "prev_ok (links h) (ranges h) n"
  obtains prev e where "addrspace_node_prev h n = Some prev" and "prev_end_of h prev = Some e"
proof -
  obtain p where p: "lprev (links h) n = Some p" "p = addrspace_list \<or> range_wf (ranges h p)"
    using assms by (auto simp: prev_ok_def)
  show thesis
  proof (cases "p = addrspace_list")
    case True
    then show thesis
      using p that [of None 0] by (simp add: addrspace_node_prev_def prev_end_of_def)
  next
    case False
    then obtain e where "range_get_end_assert (ranges h p) = Some e"
      using p range_get_end_assert_wf by blast
    with False show thesis
      using p that [of "Some p" e] by (simp add: addrspace_node_prev_def prev_end_of_def)
  qed
qed

interpretation as_update: avl_update "Some avltree_update" "update_inv L R" for L R
proof
  fix S :: "nat set" and h :: "'a addr_heap_scheme" and n
  assume I: "update_inv L R S (avl_heap.more h)" and n: "n \<in> S"
  then have "prev_ok (links h) (ranges h) n"
    by (simp add: update_inv_more)
  then obtain prev e where "addrspace_node_prev h n = Some prev" and "prev_end_of h prev = Some e"
    by (rule prev_end_defined)
  then obtain f where f: "avltree_update n h = Some (h\<lparr>largest_free_to_prev := f\<rparr>)"
    by (simp add: avltree_update_def Let_def)
  let ?m = "avl_heap.more (h\<lparr>largest_free_to_prev := f\<rparr>)"
  have "avlnode_update (Some avltree_update) n h = Some (h\<lparr>avl_heap.more := ?m\<rparr>)"
    using f largest_as_more [of f h] by (simp add: avlnode_update_def)
  moreover have "update_inv L R S ?m"
    using I by (simp add: update_inv_more)
  ultimately show "\<exists>m. avlnode_update (Some avltree_update) n h = Some (h\<lparr>avl_heap.more := m\<rparr>)
      \<and> update_inv L R S m"
    by blast
qed

section \<open>Address spaces\<close>

text \<open>The bounds of a node's range as natural numbers.\<close>

definition lo :: "'a addr_heap_scheme \<Rightarrow> nat \<Rightarrow> nat" where
  "lo h n = unat (rfront (ranges h n))"

definition hi :: "'a addr_heap_scheme \<Rightarrow> nat \<Rightarrow> nat" where
  "hi h n = unat (rfront (ranges h n)) + unat (rsize (ranges h n))"

definition node_wf :: "'a addr_heap_scheme \<Rightarrow> nat \<Rightarrow> bool" where
  "node_wf h n \<longleftrightarrow> range_wf (ranges h n) \<and> \<not> range_empty (ranges h n)"

text \<open>The heap holds an address space with the nodes \<open>xs\<close>: they are the nodes of the tree, in order,
  and of the list, and their ranges are disjoint and ascending.\<close>

definition space_at :: "'a addr_heap_scheme \<Rightarrow> nat list \<Rightarrow> bool" where
  "space_at h xs \<longleftrightarrow> (\<exists>t. avl_tree h t \<and> inorder t = xs) \<and> list_at (links h) addrspace_list xs
     \<and> (\<forall>x\<in>set xs. node_wf h x) \<and> sorted_wrt (\<lambda>a b. hi h a \<le> lo h b) xs"

lemma node_wf_bounds:
  assumes "node_wf h n"
  shows "lo h n < hi h n" and "hi h n < 2 ^ 64"
  using assms unfolding node_wf_def range_wf_def range_empty_def lo_def hi_def
  by (simp_all add: unat_pos_iff)

lemma avltree_compare_cases:
  assumes "node_wf h x" and "node_wf h y"
  shows "avltree_compare h x y < 0 \<longleftrightarrow> hi h x \<le> lo h y" and "0 < avltree_compare h x y \<longleftrightarrow> hi h y \<le> lo h x"
    and "avltree_compare h x y = 0 \<longleftrightarrow> range_overlaps (ranges h x) (ranges h y)"
    and "range_overlaps (ranges h x) (ranges h y) \<longleftrightarrow> lo h x < hi h y \<and> lo h y < hi h x"
    and "range_above (ranges h x) (ranges h y) \<longleftrightarrow> hi h x \<le> lo h y"
proof -
  show o: "range_overlaps (ranges h x) (ranges h y) \<longleftrightarrow> lo h x < hi h y \<and> lo h y < hi h x"
    using node_wf_bounds(1) [OF assms(1)] node_wf_bounds(1) [OF assms(2)]
    unfolding range_overlaps_def range_has_loc_iff locs_def lo_def hi_def by auto
  show a: "range_above (ranges h x) (ranges h y) \<longleftrightarrow> hi h x \<le> lo h y"
    by (simp add: range_above_def range_is_loc_above_iff lo_def hi_def)
  show "avltree_compare h x y < 0 \<longleftrightarrow> hi h x \<le> lo h y" "0 < avltree_compare h x y \<longleftrightarrow> hi h y \<le> lo h x"
    "avltree_compare h x y = 0 \<longleftrightarrow> range_overlaps (ranges h x) (ranges h y)"
    using node_wf_bounds(1) [OF assms(1)] node_wf_bounds(1) [OF assms(2)]
    by (auto simp: avltree_compare_def o a)
qed

text \<open>A range cuts the nodes into those below it, those it overlaps and those above it.\<close>

lemma space_split:
  assumes "sorted_wrt (\<lambda>a b. hi h a \<le> lo h b) xs" and "\<forall>y\<in>set xs. node_wf h y" and x: "node_wf h x"
  obtains as cs bs where "xs = as @ cs @ bs" and "\<And>a. a \<in> set as \<Longrightarrow> hi h a \<le> lo h x"
    and "\<And>c. c \<in> set cs \<Longrightarrow> lo h c < hi h x \<and> lo h x < hi h c" and "\<And>b. b \<in> set bs \<Longrightarrow> hi h x \<le> lo h b"
proof -
  have "\<exists>as cs bs. xs = as @ cs @ bs \<and> (\<forall>a\<in>set as. hi h a \<le> lo h x)
    \<and> (\<forall>c\<in>set cs. lo h c < hi h x \<and> lo h x < hi h c) \<and> (\<forall>b\<in>set bs. hi h x \<le> lo h b)"
    using assms(1,2)
  proof (induction xs)
    case Nil
    then show ?case by simp
  next
    case (Cons y xs)
    then obtain as cs bs where s: "xs = as @ cs @ bs" "\<forall>a\<in>set as. hi h a \<le> lo h x"
        "\<forall>c\<in>set cs. lo h c < hi h x \<and> lo h x < hi h c" "\<forall>b\<in>set bs. hi h x \<le> lo h b"
      by auto
    have lt: "hi h y \<le> lo h z" "lo h z < hi h z" if "z \<in> set xs" for z
      using Cons.prems that node_wf_bounds(1) by auto
    consider "hi h y \<le> lo h x" | "lo h y < hi h x" "lo h x < hi h y" | "hi h x \<le> lo h y"
      by linarith
    then show ?case
    proof cases
      case 1
      with s show ?thesis
        by (intro exI [of _ "y # as"] exI [of _ cs] exI [of _ bs]) auto
    next
      case 2
      have "a \<notin> set as" for a
        using 2 s(1,2) lt [of a] by auto
      then have "as = []"
        by (cases as) auto
      with 2 s show ?thesis
        by (intro exI [of _ "[]"] exI [of _ "y # cs"] exI [of _ bs]) auto
    next
      case 3
      have "a \<notin> set as" and "a \<notin> set cs" for a
        using 3 s(1-3) lt [of a] Cons.prems(2) node_wf_bounds(1) [OF x] node_wf_bounds(1) [of h y] by force+
      then have "as = []" and "cs = []"
        by (cases as; cases cs; auto)+
      with 3 s show ?thesis
        by (intro exI [of _ "[]"] exI [of _ "[]"] exI [of _ "y # bs"]) auto
    qed
  qed
  then show thesis
    using that by blast
qed

lemma list_at_prev_ok:
  assumes "list_at L addrspace_list xs" and "\<forall>x\<in>set xs. range_wf (R x)" and "n \<in> set xs"
  shows "prev_ok L R n"
proof -
  obtain as bs where xs: "xs = as @ n # bs"
    using assms(3) by (meson split_list)
  then have "lprev L n = Some (last (addrspace_list # as))"
    using list_neighbours(1) assms(1) by simp
  moreover have "last (addrspace_list # as) = addrspace_list \<or> last (addrspace_list # as) \<in> set xs"
    using xs by auto
  ultimately show ?thesis
    using assms(2) by (auto simp: prev_ok_def)
qed

lemma space_at_same:
  assumes "avl_tree h' t" and "inorder t = ys" and "ranges h' = ranges h"
    and "list_at (links h') addrspace_list ys" and "\<forall>y\<in>set ys. node_wf h y"
    and "sorted_wrt (\<lambda>a b. hi h a \<le> lo h b) ys"
  shows "space_at h' ys"
  using assms unfolding space_at_def node_wf_def hi_def lo_def by auto

lemma avl_tree_links [simp]: "avl_tree (h\<lparr>links := l\<rparr>) t = avl_tree h t"
proof -
  have "zip_at (h\<lparr>links := l\<rparr>) [] t = zip_at h [] t"
    by (rule zip_at_cong) simp_all
  then show ?thesis
    by (simp flip: avl_tree_zip)
qed

section \<open>Adding a node\<close>

text \<open>Where the callback puts the new node into the list: after its in-order predecessor.  When the
  node is the lowest of several, there is none and the callback panics.\<close>

lemma attach_node_client:
  "links (attach_node x p k h) = links h" "ranges (attach_node x p k h) = ranges h"
  by (rule more_same; cases k; simp add: attach_node_def heap_defs)+

lemma attach_node_position:
  assumes z: "zip_at h qs Leaf" and x: "x \<notin> path_nodes qs"
  defines "h1 \<equiv> attach_node x (path_parent qs) (link_of qs) h"
  shows "nparent h1 x = path_parent qs" and "qs = FrameR l y # ps \<Longrightarrow> nright h1 y = Some x"
    and "qs = FrameL y r # ps \<Longrightarrow> nright h1 y \<noteq> Some x"
proof -
  have z1: "zip_at h1 qs (Node Leaf x Leaf)"
    unfolding h1_def by (rule attach_node_zip(1) [OF z x])
  then show "nparent h1 x = path_parent qs" and "qs = FrameR l y # ps \<Longrightarrow> nright h1 y = Some x"
    by (auto simp: zip_at_def)
  show "qs = FrameL y r # ps \<Longrightarrow> nright h1 y \<noteq> Some x"
    using z1 x root_of_in_set [of r x] by (auto simp: zip_at_def)
qed

lemma add_node_cb_at:
  assumes z: "zip_at h qs Leaf" and l: "list_at (links h) addrspace_list (path_before qs @ path_after qs)"
    and x: "x \<notin> path_nodes qs" "x \<noteq> addrspace_list"
  defines "h1 \<equiv> attach_node x (path_parent qs) (link_of qs) h"
  shows "path_before qs = [] \<and> path_after qs \<noteq> [] \<Longrightarrow> add_node_cb x h1 = None"
    and "path_before qs \<noteq> [] \<or> path_after qs = [] \<Longrightarrow> \<exists>ls. add_node_cb x h1 = Some (h1\<lparr>links := ls\<rparr>)
      \<and> list_at ls addrspace_list (path_before qs @ x # path_after qs)"
proof -
  note pos = attach_node_position [OF z x(1), folded h1_def]
  have L: "links h1 = links h"
    by (simp add: h1_def attach_node_client)
  have d: "addrspace_list \<notin> path_nodes qs"
    using l by (auto simp: list_at_def path_nodes_def)
  have x': "x \<notin> set (addrspace_list # path_before qs @ path_after qs)"
    using x by (simp add: path_nodes_def)
  obtain ls where ls: "list_add (last (addrspace_list # path_before qs)) x (links h) = Some ls"
      "list_at ls addrspace_list (path_before qs @ x # path_after qs)"
    using list_add_at [OF l x'] by blast
  have left: "addrspace_node_prev h1 y = Some (if path_before qs = [] then None else Some (last (path_before qs)))"
    if "qs = FrameL y r # ps" for y r ps
  proof -
    have "lprev (links h) y = Some (last (addrspace_list # path_before qs))"
      using that l list_neighbours(1) [of "links h" addrspace_list "path_before qs" y "inorder r @ path_after ps"]
      by simp
    moreover have "path_before qs \<noteq> [] \<Longrightarrow> last (path_before qs) \<noteq> addrspace_list"
      using d by (metis UnI1 last_in_set path_nodes_def)
    ultimately show ?thesis
      using L by (auto simp: addrspace_node_prev_def)
  qed
  show "add_node_cb x h1 = None" if "path_before qs = [] \<and> path_after qs \<noteq> []"
  proof (cases qs rule: link_of.cases)
    case (2 y r ps)
    then show ?thesis
      using that pos(1) pos(3) [of y r ps] left [OF 2] by (simp add: add_node_cb_def)
  qed (use that in auto)
  show "\<exists>ls. add_node_cb x h1 = Some (h1\<lparr>links := ls\<rparr>)
      \<and> list_at ls addrspace_list (path_before qs @ x # path_after qs)"
    if "path_before qs \<noteq> [] \<or> path_after qs = []"
  proof (cases qs rule: link_of.cases)
    case 1
    then show ?thesis
      using ls L pos(1) by (intro exI [of _ ls]) (simp add: add_node_cb_def)
  next
    case (2 y r ps)
    then show ?thesis
      using that ls L pos(1) pos(3) [of y r ps] left [OF 2] by (intro exI [of _ ls]) (simp add: add_node_cb_def)
  next
    case (3 l y ps)
    then show ?thesis
      using that ls L pos(1) pos(2) [of l y ps] by (intro exI [of _ ls]) (simp add: add_node_cb_def)
  qed
qed

lemma insert_search_space:
  assumes h: "space_at h xs" and x: "node_wf h x"
  shows "(\<exists>y\<in>set xs. range_overlaps (ranges h x) (ranges h y))
      \<and> insert_search avltree_compare h x None (root h) LinkRoot = Some Fail
    \<or> (\<exists>qs. insert_search avltree_compare h x None (root h) LinkRoot = Some (Ok (path_parent qs, link_of qs))
      \<and> zip_at h qs Leaf \<and> path_before qs @ path_after qs = xs
      \<and> (\<forall>a\<in>set (path_before qs). hi h a \<le> lo h x) \<and> (\<forall>b\<in>set (path_after qs). hi h x \<le> lo h b))"
proof -
  obtain t where t: "avl_tree h t" "inorder t = xs"
    using h by (auto simp: space_at_def)
  have wf: "\<forall>y\<in>set xs. node_wf h y" and sorted: "sorted_wrt (\<lambda>a b. hi h a \<le> lo h b) xs"
    using h by (auto simp: space_at_def)
  obtain as cs bs where s: "xs = as @ cs @ bs" "\<And>a. a \<in> set as \<Longrightarrow> hi h a \<le> lo h x"
      "\<And>c. c \<in> set cs \<Longrightarrow> lo h c < hi h x \<and> lo h x < hi h c" "\<And>b. b \<in> set bs \<Longrightarrow> hi h x \<le> lo h b"
    using space_split [OF sorted wf x] by blast
  have wf': "node_wf h y" if "y \<in> set as \<union> set cs \<union> set bs" for y
    using that wf s(1) by auto
  note cmp = avltree_compare_cases [OF x]
  have signs: "\<And>a. a \<in> set as \<Longrightarrow> 0 < avltree_compare h x a" "\<And>c. c \<in> set cs \<Longrightarrow> avltree_compare h x c = 0"
      "\<And>b. b \<in> set bs \<Longrightarrow> avltree_compare h x b < 0"
    using wf' cmp s(2-4) by auto
  show ?thesis
  proof (cases "cs = []")
    case True
    moreover have "zip_at h [] t"
      using t(1) by (simp flip: avl_tree_zip)
    ultimately obtain qs where "insert_search avltree_compare h x None (root_of t) LinkRoot
          = Some (Ok (path_parent qs, link_of qs))"
        "zip_at h qs Leaf" "path_before qs = as" "path_after qs = bs"
      using insert_search_gap [of h "[]" t as bs avltree_compare x] s(1) signs t(2) by auto
    then show ?thesis
      using s True t(1) by (auto simp: avl_tree_def)
  next
    case False
    then have "insert_search avltree_compare h x None (root_of t) LinkRoot = Some Fail"
      using t s(1) signs by (intro insert_search_equal [of h None t as cs bs]) (auto simp: avl_tree_def)
    moreover obtain c where "c \<in> set cs"
      using False by (cases cs) auto
    moreover from this have "range_overlaps (ranges h x) (ranges h c)"
      using signs(2) wf' cmp(3) by blast
    ultimately show ?thesis
      using t(1) s(1) by (auto simp: avl_tree_def)
  qed
qed

lemma add_node_insert:
  assumes h: "space_at h xs" and x: "node_wf h x" "x \<notin> set (addrspace_list # xs)"
    and z: "zip_at h qs Leaf" and qs: "path_before qs @ path_after qs = xs"
    and a: "\<forall>a\<in>set (path_before qs). hi h a \<le> lo h x" and b: "\<forall>b\<in>set (path_after qs). hi h x \<le> lo h b"
    and ok: "path_before qs \<noteq> [] \<or> path_after qs = []"
  shows "\<exists>h'. insert_at_loc x (path_parent qs) (link_of qs) (Some avltree_update) (Some add_node_cb) h = Some h'
    \<and> space_at h' (path_before qs @ x # path_after qs) \<and> ranges h' = ranges h"
proof -
  let ?h1 = "attach_node x (path_parent qs) (link_of qs) h"
  let ?ys = "path_before qs @ x # path_after qs"
  have S: "path_nodes qs = set xs" and xq: "x \<notin> path_nodes qs" "x \<noteq> addrspace_list"
    using qs x(2) by (auto simp: path_nodes_def)
  have "list_at (links h) addrspace_list (path_before qs @ path_after qs)"
    using h qs by (simp add: space_at_def)
  from add_node_cb_at(2) [OF z this xq ok] obtain ls where
      cb: "add_node_cb x ?h1 = Some (?h1\<lparr>links := ls\<rparr>)" and ls: "list_at ls addrspace_list ?ys"
    by blast
  have wf: "\<forall>y\<in>set ?ys. node_wf h y"
    using h qs x(1) by (auto simp: space_at_def)
  then have "update_inv ls (ranges h) (insert x (set xs)) (avl_heap.more (?h1\<lparr>links := ls\<rparr>))"
    using list_at_prev_ok [OF ls, of "ranges h"] qs
    by (auto simp: update_inv_more attach_node_client node_wf_def)
  then have "\<exists>m. avlnode_update (Some add_node_cb) x ?h1 = Some (?h1\<lparr>avl_heap.more := m\<rparr>)
      \<and> update_inv ls (ranges h) (insert x (set xs)) m"
    using cb links_as_more [of ls ?h1] by (auto simp: avlnode_update_def)
  from as_update.insert_at_loc_zip [OF z xq(1) _ this] obtain h' t' where
      h': "insert_at_loc x (path_parent qs) (link_of qs) (Some avltree_update) (Some add_node_cb) h = Some h'"
        "avl_tree h' t'" "inorder t' = ?ys" "update_inv ls (ranges h) (insert x (set xs)) (avl_heap.more h')"
    using S by blast
  have "sorted_wrt (\<lambda>a b. hi h a \<le> lo h b) (path_before qs @ path_after qs)"
    using h qs by (simp add: space_at_def)
  then have "sorted_wrt (\<lambda>a b. hi h a \<le> lo h b) ?ys"
    using a b by (auto simp: sorted_wrt_append)
  then show ?thesis
    using space_at_same [of h' t' ?ys h] h' ls wf by (auto simp: update_inv_more)
qed

section \<open>Properties\<close>

text \<open>Example data for the witnesses: an address space with the node 2 for the addresses 4096 to
  8191 and the node 3 for 16384 to 20479, and further nodes outside it.\<close>

definition sample_space :: addr_heap where
  "sample_space =
     \<lparr>nparent = Map.empty(3 \<mapsto> 2), nleft = Map.empty, nright = Map.empty(2 \<mapsto> 3),
      nheight = (\<lambda>n. if n = 2 then 2 else 1), root = Some 2,
      links = \<lparr>lprev = Map.empty(0 \<mapsto> 3, 2 \<mapsto> 0, 3 \<mapsto> 2, 4 \<mapsto> 4), lnext = Map.empty(0 \<mapsto> 2, 2 \<mapsto> 3, 3 \<mapsto> 0, 4 \<mapsto> 4)\<rparr>,
      ranges = (\<lambda>n. if n = 2 then RANGE_INIT 4096 4096 else if n = 3 then RANGE_INIT 16384 4096
                    else RANGE_INIT 8192 8192),
      largest_free_to_prev = (\<lambda>n. if n \<le> 3 then 8192 else 0)\<rparr>"

lemma sample_space_at: "space_at sample_space [2, 3]"
  unfolding space_at_def
  by (intro conjI exI [of _ "Node Leaf 2 (Node Leaf 3 Leaf)"])
    (auto simp: sample_space_def avl_tree_def list_at_def addrspace_list_def node_wf_def range_wf_def
      range_empty_def RANGE_INIT_def hi_def lo_def)

text \<open>C4: \<open>addrspace_add_node\<close> on a well-formed address space, for a node with a nonempty range that
  does not overflow: if the range overlaps that of a present node it returns false and changes
  nothing; if the node lies below all present nodes (and there are some) it panics; otherwise it
  returns true, and tree and list hold the nodes with the new one at its place in the order of
  addresses.\<close>

theorem addrspace_add_node_correct:
  assumes h: "space_at h xs" and x: "node_wf h x" "x \<notin> set (addrspace_list # xs)"
  shows "if \<exists>y\<in>set xs. range_overlaps (ranges h x) (ranges h y)
    then addrspace_add_node x h = Some (False, h)
    else if xs \<noteq> [] \<and> (\<forall>y\<in>set xs. range_above (ranges h x) (ranges h y))
    then addrspace_add_node x h = None
    else \<exists>h' as bs. addrspace_add_node x h = Some (True, h') \<and> xs = as @ bs
      \<and> space_at h' (as @ x # bs) \<and> ranges h' = ranges h"
proof -
  have wf: "\<forall>y\<in>set xs. node_wf h y" and l: "list_at (links h) addrspace_list xs"
    using h by (auto simp: space_at_def)
  note cmp = avltree_compare_cases [OF x(1)]
  show ?thesis
  proof (cases "insert_search avltree_compare h x None (root h) LinkRoot = Some Fail")
    case True
    then show ?thesis
      using insert_search_space [OF h x(1)] by (auto simp: addrspace_add_node_def avltree_insert_def)
  next
    case False
    then obtain qs where s: "insert_search avltree_compare h x None (root h) LinkRoot
          = Some (Ok (path_parent qs, link_of qs))" "zip_at h qs Leaf" "path_before qs @ path_after qs = xs"
        "\<forall>a\<in>set (path_before qs). hi h a \<le> lo h x" "\<forall>b\<in>set (path_after qs). hi h x \<le> lo h b"
      using insert_search_space [OF h x(1)] by auto
    have no: "\<not> range_overlaps (ranges h x) (ranges h y)" if "y \<in> set xs" for y
      using that s(3-5) wf cmp(4) by fastforce
    have above: "range_above (ranges h x) (ranges h y) \<longleftrightarrow> y \<in> set (path_after qs)" if "y \<in> set xs" for y
      using that s(3-5) wf cmp(5) node_wf_bounds(1) [OF x(1)] node_wf_bounds(1) [of h y] by fastforce
    have first: "(\<forall>y\<in>set xs. range_above (ranges h x) (ranges h y)) \<longleftrightarrow> path_before qs = []"
      using above s(3) h by (auto simp: space_at_def list_at_def) (metis Un_iff disjoint_iff distinct_append
          list.set_intros(1) neq_Nil_conv set_append)
    show ?thesis
    proof (cases "path_before qs = [] \<and> path_after qs \<noteq> []")
      case True
      have "add_node_cb x (attach_node x (path_parent qs) (link_of qs) h) = None"
        using add_node_cb_at(1) [OF s(2) _ _ _ True] l s(3) x(2) by (auto simp: path_nodes_def)
      then show ?thesis
        using True no first s(1,3)
        by (auto simp: addrspace_add_node_def avltree_insert_def insert_at_loc_def avlnode_update_def)
    next
      case False
      then obtain h' where "insert_at_loc x (path_parent qs) (link_of qs) (Some avltree_update)
            (Some add_node_cb) h = Some h'"
          "space_at h' (path_before qs @ x # path_after qs)" "ranges h' = ranges h"
        using add_node_insert [OF h x s(2-5)] by auto
      then have "\<exists>h' as bs. addrspace_add_node x h = Some (True, h') \<and> xs = as @ bs
          \<and> space_at h' (as @ x # bs) \<and> ranges h' = ranges h"
        using s(1,3) by (intro exI [of _ h'] exI [of _ "path_before qs"] exI [of _ "path_after qs"])
          (simp add: addrspace_add_node_def avltree_insert_def)
      moreover have "\<not> (xs \<noteq> [] \<and> (\<forall>y\<in>set xs. range_above (ranges h x) (ranges h y)))"
        using first False s(3) by auto
      moreover have "\<not> (\<exists>y\<in>set xs. range_overlaps (ranges h x) (ranges h y))"
        using no by blast
      ultimately show ?thesis
        by (simp only: if_False)
    qed
  qed
qed

theorem addrspace_add_node_correct_witness:
  "\<exists>h' as bs. addrspace_add_node 4 sample_space = Some (True, h') \<and> [2, 3] = as @ bs
    \<and> space_at h' (as @ 4 # bs) \<and> ranges h' = ranges sample_space"
proof -
  have "node_wf sample_space 4" and "4 \<notin> set (addrspace_list # [2, 3])"
    by (simp_all add: node_wf_def sample_space_def range_wf_def range_empty_def RANGE_INIT_def addrspace_list_def)
  from addrspace_add_node_correct [OF sample_space_at this] show ?thesis
    by (simp add: sample_space_def range_overlaps_def range_above_def range_defs)
qed

text \<open>C5: \<open>addrspace_remove_node\<close> takes a node out of the tree and out of the list; the remaining nodes
  keep their order and their ranges.\<close>

theorem addrspace_remove_node_correct:
  assumes h: "space_at h (as @ x # bs)"
  shows "\<exists>h'. addrspace_remove_node x h = Some h' \<and> space_at h' (as @ bs) \<and> ranges h' = ranges h
    \<and> lprev (links h') x = None \<and> lnext (links h') x = None"
proof -
  obtain t where t: "avl_tree h t" "inorder t = as @ x # bs"
    using h by (auto simp: space_at_def)
  have l: "list_at (links h) addrspace_list (as @ x # bs)" and wf: "\<forall>y\<in>set (as @ x # bs). node_wf h y"
    and sorted: "sorted_wrt (\<lambda>a b. hi h a \<le> lo h b) (as @ x # bs)"
    using h by (auto simp: space_at_def)
  have "x \<in> set_tree t"
    using t(2) by (metis in_set_conv_decomp set_inorder)
  then obtain ps l' r' where p: "t = plug ps (Node l' x r')"
    by (rule node_path)
  have "(path_before ps @ inorder l') @ x # (inorder r' @ path_after ps) = as @ x # bs"
    using t(2) p by (simp add: inorder_plug)
  moreover have "x \<notin> set (path_before ps @ inorder l')" and "x \<notin> set (inorder r' @ path_after ps)"
    using t(1) p by (auto simp: avl_tree_def inorder_plug)
  ultimately have "path_before ps @ inorder l' = as \<and> inorder r' @ path_after ps = bs"
    using append_Cons_eq_iff by metis
  then have eq: "path_before ps @ inorder l' @ inorder r' @ path_after ps = as @ bs"
    by (metis append_assoc)
  have "update_inv (links h) (ranges h) (set (as @ bs)) (avl_heap.more h)"
    using list_at_prev_ok [OF l, of "ranges h"] wf by (auto simp: update_inv_more node_wf_def)
  then obtain h1 t1 where h1: "avltree_delete_node x (Some avltree_update) h = Some h1" "avl_tree h1 t1"
      "inorder t1 = as @ bs" "update_inv (links h) (ranges h) (set (as @ bs)) (avl_heap.more h1)"
    using as_update.delete_node_zip [of h ps l' x r' "links h" "ranges h" "set (as @ bs)"] t(1) p eq
    by (auto simp: avl_tree_zip)
  obtain ls where ls: "list_deinit x (links h) = Some ls" "list_at ls addrspace_list (as @ bs)"
      "lprev ls x = None" "lnext ls x = None"
    using list_deinit_at [OF l] by blast
  let ?h' = "h1\<lparr>links := ls\<rparr>"
  have "avl_tree ?h' t1"
    using h1(2) by simp
  moreover have "sorted_wrt (\<lambda>a b. hi h a \<le> lo h b) (as @ bs)"
    using sorted by (auto simp: sorted_wrt_append)
  ultimately have "space_at ?h' (as @ bs)"
    using h1 ls(2) wf by (intro space_at_same [of ?h' t1 _ h]) (auto simp: update_inv_more)
  then show ?thesis
    using h1 ls by (intro exI [of _ ?h']) (auto simp: addrspace_remove_node_def update_inv_more)
qed

theorem addrspace_remove_node_correct_witness:
  "\<exists>h'. addrspace_remove_node 2 sample_space = Some h' \<and> space_at h' [3] \<and> ranges h' = ranges sample_space
    \<and> lprev (links h') 2 = None \<and> lnext (links h') 2 = None"
  using addrspace_remove_node_correct [of sample_space "[]" 2 "[3]"] sample_space_at by simp

end
