(* ===== verification/Addrspace_Find.thy ===== *)
theory Addrspace_Find
  imports Addrspace
begin

text \<open>
  The search of \<open>lib/adt/addrspace.c\<close> for free space: \<open>find_from_start\<close> with its loops always returns, and
  what it finds is a gap between two neighbours of the list; \<open>addrspace_find_space_and_add_node\<close> then puts
  the node there.  The proofs follow the search through the tree as a path and the subtree below it.
\<close>

section \<open>The gap\<close>

text \<open>The addresses from \<open>addr\<close> on are free between the nodes \<open>as\<close> and the nodes \<open>bs\<close>: they are a multiple of
  the alignment \<open>m\<close>, above \<open>as\<close> and below \<open>bs\<close>, and, except behind the last node, in the range asked for.\<close>

definition gap_at :: "'a addr_heap_scheme \<Rightarrow> range \<Rightarrow> u64 \<Rightarrow> nat \<Rightarrow> nat list \<Rightarrow> nat list \<Rightarrow> u64 \<Rightarrow> bool" where
  "gap_at h in_range sz m as bs addr \<longleftrightarrow> m dvd unat addr \<and> unat addr + unat sz < 2 ^ 64
     \<and> (\<forall>a\<in>set as. hi h a \<le> unat addr) \<and> (\<forall>b\<in>set bs. unat addr + unat sz \<le> lo h b)
     \<and> (as = [] \<or> bs \<noteq> [] \<longrightarrow> locs (RANGE_INIT addr sz) \<subseteq> locs in_range)"

definition last_of :: "nat list \<Rightarrow> nat option" where
  "last_of as = (if as = [] then None else Some (last as))"

definition found :: "'a addr_heap_scheme \<Rightarrow> nat list \<Rightarrow> range \<Rightarrow> u64 \<Rightarrow> nat \<Rightarrow> u64 \<Rightarrow> nat option \<Rightarrow> bool" where
  "found h xs in_range sz m addr prev \<longleftrightarrow>
     (\<exists>as bs. xs = as @ bs \<and> prev = last_of as \<and> gap_at h in_range sz m as bs addr)"

lemma align_up_Ok:
  assumes "unat b = 2 ^ k"
  shows "align_up n b = Some Fail \<or> (\<exists>r. align_up n b = Some (Ok r) \<and> unat n \<le> unat r \<and> 2 ^ k dvd unat r)"
proof (cases "next_multiple (unat n) (2 ^ k) < 2 ^ 64")
  case True
  then have "unat (of_nat (next_multiple (unat n) (2 ^ k)) :: u64) = next_multiple (unat n) (2 ^ k)"
    by (simp add: unat_of_nat_no_wrap)
  then show ?thesis
    using True by (simp add: align_up_pow2 [OF assms] next_multiple_props)
qed (simp add: align_up_pow2 [OF assms])

lemma before_below:
  assumes "sorted_wrt (\<lambda>a b. hi h a \<le> lo h b) (as @ bs)" and "\<forall>y\<in>set (as @ bs). node_wf h y" and "a \<in> set as"
  shows "hi h a \<le> hi h (last as)"
proof (cases as rule: rev_cases)
  case (snoc cs c)
  then have "a = c \<or> hi h a \<le> lo h c"
    using assms(1,3) by (auto simp: sorted_wrt_append)
  moreover have "lo h c < hi h c"
    using assms(2) snoc by (intro node_wf_bounds(1)) simp
  ultimately show ?thesis
    using snoc by auto
qed (use assms(3) in simp)

lemma prev_end_at:
  assumes h: "space_at h (as @ x # bs)"
  obtains e where "addrspace_node_prev h x = Some (last_of as)" and "prev_end_of h (last_of as) = Some e"
    and "\<And>a. a \<in> set as \<Longrightarrow> hi h a \<le> unat e" and "unat e \<le> lo h x"
proof -
  have l: "list_at (links h) addrspace_list (as @ x # bs)" and wf: "\<forall>y\<in>set (as @ x # bs). node_wf h y"
    and sorted: "sorted_wrt (\<lambda>a b. hi h a \<le> lo h b) (as @ x # bs)"
    using h by (auto simp: space_at_def)
  have "lprev (links h) x = Some (last (addrspace_list # as))"
    using list_neighbours(1) [OF l] .
  moreover have "as \<noteq> [] \<Longrightarrow> last as \<noteq> addrspace_list"
    using l last_in_set [of as] by (force simp: list_at_def)
  ultimately have prev: "addrspace_node_prev h x = Some (last_of as)"
    by (auto simp: addrspace_node_prev_def last_of_def)
  show thesis
  proof (cases "as = []")
    case True
    then show thesis
      using that [of 0] prev by (simp add: prev_end_of_def last_of_def)
  next
    case False
    then have "range_wf (ranges h (last as))"
      using wf by (simp add: node_wf_def)
    then obtain e where "range_get_end_assert (ranges h (last as)) = Some e" "unat e = hi h (last as)"
      using range_get_end_assert_wf [of "ranges h (last as)"] unfolding hi_def by blast
    moreover have "hi h (last as) \<le> lo h x"
      using sorted False by (simp add: sorted_wrt_append)
    ultimately show thesis
      using that [of e] prev False before_below [OF sorted wf] by (simp add: prev_end_of_def last_of_def)
  qed
qed

lemma gap_before:
  assumes h: "space_at h (as @ x # bs)" and e: "\<And>a. a \<in> set as \<Longrightarrow> hi h a \<le> unat e"
    and f: "unat e \<le> unat f" "m dvd unat f" and sz: "sz \<noteq> 0"
    and hole: "range_create_end e (rfront (ranges h x)) = Some hole"
    and has: "range_has hole (RANGE_INIT f sz) = Some True" "range_has in_range (RANGE_INIT f sz) = Some True"
  shows "gap_at h in_range sz m as (x # bs) f"
proof -
  have le: "unat f + unat sz \<le> lo h x"
    using has(1) range_create_end_locs [OF hole] by (auto simp: range_has_iff RANGE_INIT_def lo_def)
  have wf: "node_wf h x" and later: "\<And>b. b \<in> set bs \<Longrightarrow> hi h x \<le> lo h b"
    using h by (auto simp: space_at_def sorted_wrt_append)
  have "lo h x < hi h x" "hi h x < 2 ^ 64"
    using node_wf_bounds [OF wf] by simp_all
  moreover have "locs (RANGE_INIT f sz) \<subseteq> locs in_range"
    using has(2) sz range_has_subset [of "RANGE_INIT f sz" in_range] by (simp add: range_empty_def RANGE_INIT_def)
  ultimately show ?thesis
    using le later e f unfolding gap_at_def by (force intro: order_trans)
qed

section \<open>The loops\<close>

text \<open>The climb ends at the next node in the order, or at the root when there is none.\<close>

lemma climb_from_right_zip:
  assumes "zip_at h ps t" and "root_of t = Some n"
  shows "(path_after ps = [] \<and> climb_from_right h n = Some None)
    \<or> (\<exists>qs u y r. climb_from_right h n = Some (Some y) \<and> zip_at h qs (Node u y r)
         \<and> plug qs (Node u y r) = plug ps t \<and> path_after ps = y # inorder r @ path_after qs)"
  using assms
proof (induction ps arbitrary: t n)
  case Nil
  then show ?case
    by (cases t) (auto simp: zip_at_def climb_from_right.simps)
next
  case (Cons f ps)
  have parent: "nparent h n = Some (frame_node f)"
    using Cons.prems by (cases f; cases t) (auto simp: zip_at_def)
  show ?case
  proof (cases f)
    case (FrameL y r)
    then have z: "zip_at h ps (Node t y r)"
      using Cons.prems(1) by (simp add: zip_up_left)
    then have "nleft h y = Some n"
      using Cons.prems(2) by (simp add: zip_at_def)
    then show ?thesis
      using z parent FrameL by (auto simp: climb_from_right.simps [of h n])
  next
    case (FrameR l y)
    then have z: "zip_at h ps (Node l y t)"
      using Cons.prems(1) by (simp add: zip_up_right)
    then have "nleft h y = root_of l" "root_of l \<noteq> Some n"
      using Cons.prems(2) zip_distinct(1) [OF z] by (auto simp: zip_at_def dest!: root_of_in_set)
    then have "climb_from_right h n = climb_from_right h y"
      using parent FrameR by (simp add: climb_from_right.simps [of h n])
    then show ?thesis
      using Cons.IH [OF z, of y] FrameR by simp
  qed
qed

lemma space_at_end_ok:
  assumes h: "space_at h xs" and "xs \<noteq> []" and "unat align = 2 ^ k" and "range_wf in_range"
  obtains addr prev where "space_at_end h in_range sz align prev_out = Some (TRAVERSAL_DONE addr prev)"
    and "addr = ADDRSPACE_INVALID_ADDR \<or> found h xs in_range sz (2 ^ k) addr prev"
proof -
  have l: "list_at (links h) addrspace_list xs" and wf: "\<forall>y\<in>set xs. node_wf h y"
    and sorted: "sorted_wrt (\<lambda>a b. hi h a \<le> lo h b) xs"
    using h by (auto simp: space_at_def)
  have last: "lprev (links h) addrspace_list = Some (last xs)"
    using list_ends(2) [OF l] \<open>xs \<noteq> []\<close> by (simp add: list_tail_def)
  have "range_wf (ranges h (last xs))"
    using wf \<open>xs \<noteq> []\<close> by (simp add: node_wf_def)
  then obtain e where e: "range_get_end_assert (ranges h (last xs)) = Some e" "unat e = hi h (last xs)"
    using range_get_end_assert_wf [of "ranges h (last xs)"] unfolding hi_def by blast
  obtain i where i: "range_get_end_assert in_range = Some i"
    using range_get_end_assert_wf [OF assms(4)] by blast
  show thesis
  proof (cases "\<exists>r. \<not> i \<le> e \<and> align_up e align = Some (Ok r) \<and> unat e \<le> unat r \<and> 2 ^ k dvd unat r
      \<and> unat r + unat sz < 2 ^ 64")
    case True
    then obtain r where r: "\<not> i \<le> e" "align_up e align = Some (Ok r)" "unat e \<le> unat r" "2 ^ k dvd unat r"
        "unat r + unat sz < 2 ^ 64"
      by blast
    then have "space_at_end h in_range sz align prev_out = Some (TRAVERSAL_DONE r (Some (last xs)))"
      using last e i by (simp add: space_at_end_def check_add_def)
    moreover have "gap_at h in_range sz (2 ^ k) xs [] r"
      using r e(2) before_below [of h xs "[]"] sorted wf \<open>xs \<noteq> []\<close> by (fastforce simp: gap_at_def)
    ultimately show thesis
      using that \<open>xs \<noteq> []\<close> by (metis append_Nil2 found_def last_of_def)
  next
    case False
    then have "space_at_end h in_range sz align prev_out = Some (TRAVERSAL_DONE ADDRSPACE_INVALID_ADDR prev_out)"
      using last e i align_up_Ok [OF assms(3), of e] by (auto simp: space_at_end_def check_add_def)
    then show thesis
      using that by blast
  qed
qed

text \<open>What a call of \<open>traverse_tree\<close> yields for the nodes \<open>xs\<close> when \<open>k\<close> nodes are left to look at: no space,
  a gap, or a subtree to go on with before which more nodes have been looked at.\<close>

fun traversal_ok :: "'a addr_heap_scheme \<Rightarrow> nat list \<Rightarrow> range \<Rightarrow> u64 \<Rightarrow> nat \<Rightarrow> nat \<Rightarrow> traversal_result \<Rightarrow> bool" where
  "traversal_ok h xs in_range sz m k (TRAVERSAL_DONE addr prev) \<longleftrightarrow>
     addr = ADDRSPACE_INVALID_ADDR \<or> found h xs in_range sz m addr prev"
| "traversal_ok h xs in_range sz m k (TRAVERSAL_CONTINUE n) \<longleftrightarrow>
     (\<exists>qs t. zip_at h qs t \<and> root_of t = Some n \<and> inorder (plug qs t) = xs
        \<and> length (inorder t @ path_after qs) < k)"

lemma traversal_ok_more:
  "traversal_ok h xs in_range sz m k r \<Longrightarrow> k \<le> k' \<Longrightarrow> traversal_ok h xs in_range sz m k' r"
  by (cases r) (auto intro: less_le_trans)

text \<open>One turn of the loop of \<open>traverse_tree\<close> at the node \<open>x\<close>.\<close>

lemma traverse_tree_turn:
  assumes h: "space_at h (as @ x # bs)" and align: "unat align = 2 ^ k" and "sz \<noteq> 0"
  obtains "traverse_tree h in_range sz align prev_out x = Some (TRAVERSAL_DONE ADDRSPACE_INVALID_ADDR prev_out)"
  | addr where "traverse_tree h in_range sz align prev_out x = Some (TRAVERSAL_DONE addr (last_of as))"
      and "gap_at h in_range sz (2 ^ k) as (x # bs) addr"
  | y where "traverse_tree h in_range sz align prev_out x = Some (TRAVERSAL_CONTINUE y)" and "nright h x = Some y"
  | "traverse_tree h in_range sz align prev_out x
      = do { up \<leftarrow> climb_from_right h x;
             case up of
               None \<Rightarrow> space_at_end h in_range sz align prev_out
             | Some parent \<Rightarrow> traverse_tree h in_range sz align prev_out parent }"
proof -
  obtain e where prev: "addrspace_node_prev h x = Some (last_of as)" "prev_end_of h (last_of as) = Some e"
      and e: "\<And>a. a \<in> set as \<Longrightarrow> hi h a \<le> unat e" "unat e \<le> lo h x"
    using prev_end_at [OF h] by blast
  then obtain hole where hole: "range_create_end e (rfront (ranges h x)) = Some hole"
    by (simp add: range_create_end_def lo_def word_le_nat_alt)
  note unfold = traverse_tree.simps [of h in_range sz align prev_out x] prev hole
  consider "range_is_loc_above in_range e \<or> align_up e align = Some Fail"
    | f where "\<not> range_is_loc_above in_range e" "align_up e align = Some (Ok f)" "unat e \<le> unat f" "2 ^ k dvd unat f"
    using align_up_Ok [OF align, of e] by blast
  then show thesis
  proof cases
    case 1
    then show thesis
      using that(1) by (auto simp: unfold)
  next
    case (2 f)
    obtain a b where has: "range_has hole (RANGE_INIT f sz) = Some a" "range_has in_range (RANGE_INIT f sz) = Some b"
      by (simp add: range_has_iff)
    consider "a \<and> b" | y where "\<not> (a \<and> b)" "nright h x = Some y" "sz \<le> largest_free_to_prev h y"
      | "\<not> (a \<and> b)" "\<And>y. nright h x = Some y \<Longrightarrow> \<not> sz \<le> largest_free_to_prev h y"
      by blast
    then show thesis
    proof cases
      case 1
      then show thesis
        using that(2) [of f] gap_before [OF h e(1) 2(3,4) assms(3) hole, of in_range] 2 has
        by (simp add: unfold Let_def)
    next
      case (2 y)
      with \<open>\<not> range_is_loc_above in_range e\<close> \<open>align_up e align = Some (Ok f)\<close> has show thesis
        using that(3) [of y] by (auto simp: unfold Let_def)
    next
      case 3
      with 2 has show thesis
        using that(4) by (auto simp: unfold Let_def split: option.splits)
    qed
  qed
qed

lemma traverse_tree_ok:
  assumes "zip_at h ps (Node l x r)" and "inorder (plug ps (Node l x r)) = xs" and h: "space_at h xs"
    and align: "unat align = 2 ^ k" and "range_wf in_range" and "sz \<noteq> 0"
  shows "\<exists>res. traverse_tree h in_range sz align prev_out x = Some res
    \<and> traversal_ok h xs in_range sz (2 ^ k) (length (x # inorder r @ path_after ps)) res"
  using assms(1,2)
proof (induction "length (inorder r @ path_after ps)" arbitrary: ps l x r rule: less_induct)
  case less
  let ?as = "path_before ps @ inorder l" and ?bs = "inorder r @ path_after ps"
  let ?t = "traverse_tree h in_range sz align prev_out" and ?n = "length (x # ?bs)"
  have xs: "xs = ?as @ x # ?bs"
    using less.prems(2) by (simp add: inorder_plug)
  have right: "nright h x = root_of r"
    using less.prems(1) by (simp add: zip_at_def)
  have "space_at h (?as @ x # ?bs)"
    using h xs by simp
  then show ?case
  proof (rule traverse_tree_turn [OF _ align assms(6), of h ?as x ?bs in_range prev_out])
    assume "?t x = Some (TRAVERSAL_DONE ADDRSPACE_INVALID_ADDR prev_out)"
    then show ?thesis
      by simp
  next
    fix addr
    assume "?t x = Some (TRAVERSAL_DONE addr (last_of ?as))" "gap_at h in_range sz (2 ^ k) ?as (x # ?bs) addr"
    then show ?thesis
      using xs found_def by (metis traversal_ok.simps(1))
  next
    fix y
    assume "?t x = Some (TRAVERSAL_CONTINUE y)" and y: "nright h x = Some y"
    moreover have "zip_at h (FrameR l x # ps) r" "inorder (plug (FrameR l x # ps) r) = xs"
      using less.prems by (simp_all add: zip_up_right)
    then have "traversal_ok h xs in_range sz (2 ^ k) ?n (TRAVERSAL_CONTINUE y)"
      using y right unfolding traversal_ok.simps by (intro exI [of _ "FrameR l x # ps"] exI [of _ r]) simp
    ultimately show ?thesis
      by blast
  next
    assume go: "?t x = do { up \<leftarrow> climb_from_right h x;
             case up of None \<Rightarrow> space_at_end h in_range sz align prev_out | Some parent \<Rightarrow> ?t parent }"
    have "xs \<noteq> []"
      using xs by simp
    from space_at_end_ok [OF h this align assms(5), of sz prev_out] obtain addr prev where
        end_ok: "space_at_end h in_range sz align prev_out = Some (TRAVERSAL_DONE addr prev)"
        "addr = ADDRSPACE_INVALID_ADDR \<or> found h xs in_range sz (2 ^ k) addr prev"
      by blast
    consider "climb_from_right h x = Some None"
      | qs u y r' where "climb_from_right h x = Some (Some y)" "zip_at h qs (Node u y r')"
          "plug qs (Node u y r') = plug ps (Node l x r)" "path_after ps = y # inorder r' @ path_after qs"
      using climb_from_right_zip [OF less.prems(1) root_of.simps(2)] by blast
    then show ?thesis
    proof cases
      case 1
      then show ?thesis
        using go end_ok by simp
    next
      case (2 qs u y r')
      then obtain res where "?t y = Some res"
          "traversal_ok h xs in_range sz (2 ^ k) (length (y # inorder r' @ path_after qs)) res"
        using less.hyps [of r' qs u y] less.prems(2) by auto
      then show ?thesis
        using go 2(1,4) by (intro exI [of _ res]) (auto elim: traversal_ok_more)
    qed
  qed
qed

text \<open>The search always returns.\<close>

lemma find_loop_ok:
  assumes "zip_at h ps t" and "root_of t = Some x" and "inorder (plug ps t) = xs" and h: "space_at h xs"
    and "unat align = 2 ^ k" and "range_wf in_range" and "sz \<noteq> 0"
  shows "\<exists>addr prev. find_loop h in_range sz align prev_out x = Some (addr, prev)
    \<and> (addr = ADDRSPACE_INVALID_ADDR \<or> found h xs in_range sz (2 ^ k) addr prev)"
  using assms(1-3)
proof (induction "(length (inorder t @ path_after ps), size t)" arbitrary: ps t x rule: wf_induct_rule
    [OF wf_lex_prod [OF wf_less_than wf_less_than], case_names less])
  case less
  obtain l r where t: "t = Node l x r"
    using less.prems(2) by (cases t) auto
  then have z: "zip_at h ps (Node l x r)" and xs: "inorder (plug ps (Node l x r)) = xs"
    using less.prems by simp_all
  then have left: "nleft h x = root_of l"
    by (simp add: zip_at_def)
  show ?case
  proof (cases "\<exists>y. root_of l = Some y \<and> range_is_loc_above in_range (rfront (ranges h x))
      \<and> sz \<le> largest_free_to_prev h y")
    case True
    then obtain y where y: "root_of l = Some y"
        "find_loop h in_range sz align prev_out x = find_loop h in_range sz align prev_out y"
      using left by (auto simp: find_loop.simps [of h in_range sz align prev_out x])
    have "zip_at h (FrameL x r # ps) l" "inorder (plug (FrameL x r # ps) l) = xs"
      using z xs by (simp_all add: zip_up_left)
    then show ?thesis
      using less.hyps [OF _ _ y(1), of "FrameL x r # ps"] y(2) t by simp
  next
    case False
    then have go: "find_loop h in_range sz align prev_out x
        = do { r \<leftarrow> traverse_tree h in_range sz align prev_out x;
               case r of
                 TRAVERSAL_DONE result prev_out \<Rightarrow> Some (result, prev_out)
               | TRAVERSAL_CONTINUE node \<Rightarrow> find_loop h in_range sz align prev_out node }"
      using left by (auto simp: find_loop.simps [of h in_range sz align prev_out x] split: option.splits)
    obtain res where res: "traverse_tree h in_range sz align prev_out x = Some res"
        "traversal_ok h xs in_range sz (2 ^ k) (length (x # inorder r @ path_after ps)) res"
      using traverse_tree_ok [OF z xs h assms(5-7)] by blast
    show ?thesis
    proof (cases res)
      case (TRAVERSAL_DONE addr prev)
      then show ?thesis
        using go res by simp
    next
      case (TRAVERSAL_CONTINUE n)
      then obtain qs u where "zip_at h qs u" "root_of u = Some n" "inorder (plug qs u) = xs"
          "length (inorder u @ path_after qs) < length (x # inorder r @ path_after ps)"
        using res(2) by auto
      then show ?thesis
        using less.hyps [of u qs n] go res(1) TRAVERSAL_CONTINUE t by simp
    qed
  qed
qed

lemma unat_page_align:
  assumes "unat order \<le> 51"
  shows "unat (push_bit (unat order) PAGE_SIZE) = 2 ^ (12 + unat (order :: u8))"
proof -
  have "(2 :: nat) ^ (12 + unat order) \<le> 2 ^ 63"
    using assms by (intro power_increasing) simp_all
  then have "unat (of_nat (2 ^ (12 + unat order)) :: u64) = 2 ^ (12 + unat order)"
    by (intro unat_of_nat_no_wrap) simp
  moreover have "push_bit (unat order) PAGE_SIZE = of_nat (2 ^ (12 + unat order))"
    by (simp add: PAGE_SIZE_def push_bit_eq_mult power_add)
  ultimately show ?thesis
    by simp
qed

lemma locs_subset_end:
  assumes "locs r \<subseteq> locs r'" and "rsize r \<noteq> 0" and "range_wf r'"
  shows "unat (rfront r) + unat (rsize r) < 2 ^ 64"
proof -
  have "0 < unat (rsize r)"
    using assms(2) by (simp add: unat_gt_0)
  then have "unat (rfront r) + unat (rsize r) - 1 \<in> locs r'"
    using assms(1) by (intro subsetD [OF assms(1)]) (simp add: locs_def)
  then show ?thesis
    using assms(3) unfolding locs_def range_wf_def by auto
qed

lemma find_from_start_ok:
  assumes h: "space_at h xs" and order: "unat order \<le> 51" and wf: "range_wf in_range" and sz: "sz \<noteq> 0"
  shows "(xs = [] \<and> 2 ^ 64 \<le> next_multiple (unat (rfront in_range)) (2 ^ (12 + unat order))
        \<and> find_from_start h in_range sz order prev_out = None)
    \<or> (\<exists>addr prev. find_from_start h in_range sz order prev_out = Some (addr, prev)
        \<and> (addr = ADDRSPACE_INVALID_ADDR \<or> found h xs in_range sz (2 ^ (12 + unat order)) addr prev))"
proof -
  let ?m = "next_multiple (unat (rfront in_range)) (2 ^ (12 + unat order))"
  note align = unat_page_align [OF order]
  obtain t where t: "avl_tree h t" "inorder t = xs"
    using h by (auto simp: space_at_def)
  show ?thesis
  proof (cases t)
    case (Node l x r)
    then have "root h = Some x" "zip_at h [] t"
      using t(1) by (simp_all add: avl_tree_def flip: avl_tree_zip)
    then show ?thesis
      using find_loop_ok [of h "[]" t x xs, OF _ _ _ h align wf sz] t(2) Node order
      by (simp add: find_from_start_def)
  next
    case Leaf
    then have "xs = []" and root: "root h = None"
      using t by (auto simp: avl_tree_def)
    show ?thesis
    proof (cases "?m < 2 ^ 64")
      case False
      then show ?thesis
        using order root \<open>xs = []\<close> align_up_pow2 [OF align, of "rfront in_range"]
        by (simp add: find_from_start_def align_up_assert_def)
    next
      case True
      let ?f = "of_nat ?m :: u64"
      have f: "unat ?f = ?m" "align_up_assert (rfront in_range) (push_bit (unat order) PAGE_SIZE) = Some ?f"
        using True align_up_pow2 [OF align, of "rfront in_range"]
        by (simp_all add: unat_of_nat_no_wrap align_up_assert_def)
      have has: "range_has in_range (RANGE_INIT ?f sz) = Some (locs (RANGE_INIT ?f sz) \<subseteq> locs in_range)"
        using sz by (intro range_has_subset) (simp add: range_empty_def RANGE_INIT_def)
      have "gap_at h in_range sz (2 ^ (12 + unat order)) [] [] ?f" if "locs (RANGE_INIT ?f sz) \<subseteq> locs in_range"
        using locs_subset_end [OF that _ wf] sz f(1) that by (simp add: gap_at_def RANGE_INIT_def next_multiple_props)
      then show ?thesis
        using order root f(2) has \<open>xs = []\<close> by (auto simp: find_from_start_def found_def last_of_def)
    qed
  qed
qed

section \<open>Adding the node\<close>

text \<open>The node takes its new place: its range does not overlap that of another node.\<close>

definition move_to :: "nat \<Rightarrow> u64 \<Rightarrow> 'a addr_heap_scheme \<Rightarrow> 'a addr_heap_scheme" where
  "move_to x addr h = h\<lparr>ranges := (ranges h)(x := (ranges h x)\<lparr>rfront := addr\<rparr>)\<rparr>"

lemma move_to_access [simp]:
  "links (move_to x addr h) = links h" "nright (move_to x addr h) = nright h" "root (move_to x addr h) = root h"
  "ranges (move_to x addr h) = (ranges h)(x := (ranges h x)\<lparr>rfront := addr\<rparr>)"
  by (simp_all add: move_to_def)

lemma avl_tree_move_to [simp]: "avl_tree (move_to x addr h) t = avl_tree h t"
proof -
  have "zip_at (move_to x addr h) [] t = zip_at h [] t"
    by (rule zip_at_cong) (simp_all add: move_to_def)
  then show ?thesis
    by (simp flip: avl_tree_zip)
qed

lemma move_to_space:
  assumes h: "space_at h (as @ bs)" and x: "x \<notin> set (as @ bs)" and sz: "rsize (ranges h x) \<noteq> 0"
    and gap: "gap_at h in_range (rsize (ranges h x)) m as bs addr"
  shows "space_at (move_to x addr h) (as @ bs)" and "node_wf (move_to x addr h) x"
    and "\<forall>a\<in>set as. hi (move_to x addr h) a \<le> lo (move_to x addr h) x"
    and "\<forall>b\<in>set bs. hi (move_to x addr h) x \<le> lo (move_to x addr h) b"
    and "sorted_wrt (\<lambda>a b. hi (move_to x addr h) a \<le> lo (move_to x addr h) b) (as @ x # bs)"
proof -
  let ?h = "move_to x addr h"
  have same: "lo ?h y = lo h y" "hi ?h y = hi h y" "node_wf ?h y = node_wf h y" if "y \<in> set (as @ bs)" for y
    using that x by (auto simp: lo_def hi_def node_wf_def)
  have new: "lo ?h x = unat addr" "hi ?h x = unat addr + unat (rsize (ranges h x))"
    by (simp_all add: lo_def hi_def)
  have "sorted_wrt (\<lambda>a b. hi ?h a \<le> lo ?h b) (as @ bs)"
    using h same by (auto simp: space_at_def intro: sorted_wrt_mono_rel [rotated])
  then show "space_at ?h (as @ bs)"
    using h same by (auto simp: space_at_def)
  show "node_wf ?h x"
    using gap sz by (simp add: node_wf_def range_wf_def range_empty_def gap_at_def)
  show a: "\<forall>a\<in>set as. hi ?h a \<le> lo ?h x" and b: "\<forall>b\<in>set bs. hi ?h x \<le> lo ?h b"
    using gap same new by (auto simp: gap_at_def)
  show "sorted_wrt (\<lambda>a b. hi ?h a \<le> lo ?h b) (as @ x # bs)"
    using a b \<open>sorted_wrt _ (as @ bs)\<close> by (auto simp: sorted_wrt_append)
qed

text \<open>A node below all others goes through \<open>avltree_insert\<close> and to the front of the list.\<close>

lemma add_in_front:
  assumes h: "space_at h xs" and x: "x \<notin> set (addrspace_list # xs)" and sz: "rsize (ranges h x) \<noteq> 0"
    and init: "lprev (links h) x = Some x" and gap: "gap_at h in_range (rsize (ranges h x)) m [] xs addr"
  shows "\<exists>h1 ls. avltree_insert x avltree_compare (Some avltree_update) None (move_to x addr h) = Some (True, h1)
    \<and> list_add addrspace_list x (links h1) = Some ls \<and> space_at (h1\<lparr>links := ls\<rparr>) (x # xs)
    \<and> ranges h1 = ranges (move_to x addr h)"
proof -
  let ?h = "move_to x addr h"
  have m: "space_at ?h xs" "node_wf ?h x" "\<forall>b\<in>set xs. hi ?h x \<le> lo ?h b"
      "sorted_wrt (\<lambda>a b. hi ?h a \<le> lo ?h b) (x # xs)"
    using move_to_space [of h "[]" xs x in_range m addr] h x sz gap by simp_all
  have wf: "\<forall>y\<in>set (x # xs). node_wf ?h y" and l: "list_at (links h) addrspace_list xs"
    using m(1,2) h by (auto simp: space_at_def)
  have "\<not> range_overlaps (ranges ?h x) (ranges ?h y)" if "y \<in> set xs" for y
  proof -
    have "node_wf ?h y" and "hi ?h x \<le> lo ?h y"
      using that wf m(3) by simp_all
    then show ?thesis
      unfolding avltree_compare_cases(4) [OF m(2) \<open>node_wf ?h y\<close>] by simp
  qed
  then obtain qs where qs: "insert_search avltree_compare ?h x None (root ?h) LinkRoot
        = Some (Ok (path_parent qs, link_of qs))" "zip_at ?h qs Leaf" "path_before qs @ path_after qs = xs"
      "\<forall>a\<in>set (path_before qs). hi ?h a \<le> lo ?h x"
    using insert_search_space [OF m(1,2)] by blast
  have "False" if "a \<in> set (path_before qs)" for a
  proof -
    have "a \<in> set xs"
      using that qs(3) by auto
    then have "hi ?h a \<le> lo ?h x" "hi ?h x \<le> lo ?h a" "lo ?h a < hi ?h a"
      using that qs(4) m(3) wf by (auto intro: node_wf_bounds(1))
    then show False
      using node_wf_bounds(1) [OF m(2)] by linarith
  qed
  then have before: "path_before qs = []"
    by (cases "path_before qs") auto
  have S: "path_nodes qs = set xs"
    using qs(3) by (auto simp: path_nodes_def)
  let ?a = "attach_node x (path_parent qs) (link_of qs) ?h"
  have "prev_ok (links h) (ranges ?h) x"
    using init m(2) unfolding prev_ok_def node_wf_def by blast
  moreover have "prev_ok (links h) (ranges ?h) y" if "y \<in> set xs" for y
    by (rule list_at_prev_ok [OF l _ that]) (use wf in \<open>simp add: node_wf_def\<close>)
  ultimately have "update_inv (links h) (ranges ?h) (set (x # xs)) (avl_heap.more ?a)"
    by (simp add: update_inv_more attach_node_client)
  then have "\<exists>m. avlnode_update None x ?a = Some (?a\<lparr>avl_heap.more := m\<rparr>)
      \<and> update_inv (links h) (ranges ?h) (set (x # xs)) m"
    by (intro exI [of _ "avl_heap.more ?a"]) (simp add: avlnode_update_def)
  from as_update.insert_at_loc_zip [OF qs(2) _ _ this] obtain h1 t where
      h1: "insert_at_loc x (path_parent qs) (link_of qs) (Some avltree_update) None ?h = Some h1" "avl_tree h1 t"
        "inorder t = x # xs" "links h1 = links h" "ranges h1 = ranges ?h"
    using S x before qs(3) by (auto simp: update_inv_more)
  obtain ls where ls: "list_add addrspace_list x (links h) = Some ls" "list_at ls addrspace_list (x # xs)"
    using list_add_at [of "links h" addrspace_list "[]" xs x] l x by auto
  have "space_at (h1\<lparr>links := ls\<rparr>) (x # xs)"
    using h1 ls(2) wf m(4) by (intro space_at_same [of _ t _ ?h]) simp_all
  then show ?thesis
    using h1 ls qs(1) by (intro exI [of _ h1] exI [of _ ls]) (simp add: avltree_insert_def)
qed

text \<open>A node behind \<open>p\<close> becomes the right child of \<open>p\<close>, in place of the subtree that was there.\<close>

lemma insert_at_right:
  "insert_at_loc x (Some p) (LinkRight p) update added h
     = insert_at_loc x (Some p) (LinkRight p) update added (set_right p None h)"
proof -
  have "attach_node x (Some p) (LinkRight p) h = attach_node x (Some p) (LinkRight p) (set_right p None h)"
    by (cases h) (simp add: attach_node_def heap_defs fun_upd_twist)
  then show ?thesis
    by (simp add: insert_at_loc_def)
qed

lemma zip_prune_right:
  assumes "zip_at h ps (Node l p r)"
  shows "zip_at (set_right p None h) (FrameR l p # ps) Leaf"
proof -
  have z: "zip_at h (FrameR l p # ps) r"
    using assms by (simp add: zip_up_right)
  then have d: "distinct (path_before (FrameR l p # ps) @ path_after (FrameR l p # ps))"
    by (auto simp: zip_at_def inorder_plug)
  have "path_at h (root_of r) (FrameR l p # ps)"
    using z by (simp add: zip_at_def)
  then have "path_at (set_link (link_of (FrameR l p # ps)) None h) None (FrameR l p # ps)"
    using d by (rule path_at_set_link)
  then show ?thesis
    using d by (simp add: zip_at_def inorder_plug)
qed

lemma set_right_client: "links (set_right p v h) = links h" "ranges (set_right p v h) = ranges h"
  by (rule more_same; simp add: heap_access)+

lemma node_in_order:
  assumes "avl_tree h t" and "inorder t = cs @ p # bs"
  obtains ps l r where "zip_at h ps (Node l p r)" and "cs = path_before ps @ inorder l"
    and "bs = inorder r @ path_after ps"
proof -
  have "p \<in> set_tree t"
    using assms(2) by (metis in_set_conv_decomp set_inorder)
  then obtain ps l r where p: "t = plug ps (Node l p r)"
    by (rule node_path)
  have "(path_before ps @ inorder l) @ p # (inorder r @ path_after ps) = cs @ p # bs"
    using assms(2) p by (simp add: inorder_plug)
  moreover have "p \<notin> set (path_before ps @ inorder l)" and "p \<notin> set (inorder r @ path_after ps)"
    using assms(1) p by (auto simp: avl_tree_def inorder_plug)
  ultimately have "cs = path_before ps @ inorder l" "bs = inorder r @ path_after ps"
    using append_Cons_eq_iff by metis+
  then show thesis
    using that assms(1) p by (simp add: avl_tree_zip)
qed

lemma add_behind:
  assumes h: "space_at h (as @ bs)" and as: "as = cs @ [p]" and x: "x \<notin> set (addrspace_list # as @ bs)"
    and sz: "rsize (ranges h x) \<noteq> 0" and gap: "gap_at h in_range (rsize (ranges h x)) m as bs addr"
  shows "\<exists>ls h' rs ds t. list_add p x (links h) = Some ls
    \<and> avltree_insert_at_loc x (Some p) (LinkRight p) (Some avltree_update) ((move_to x addr h)\<lparr>links := ls\<rparr>) = Some h'
    \<and> list_at (links h') addrspace_list (as @ x # bs) \<and> ranges h' = ranges (move_to x addr h)
    \<and> bs = rs @ ds \<and> (rs = [] \<longleftrightarrow> nright h p = None) \<and> avl_tree h' t \<and> inorder t = as @ x # ds"
proof -
  let ?h = "move_to x addr h"
  have wf: "\<forall>y\<in>set (as @ x # bs). range_wf (ranges ?h y)"
    using move_to_space(1,2) [OF h _ sz gap] x unfolding space_at_def node_wf_def by auto
  have "list_at (links h) addrspace_list (as @ bs)"
    using h by (simp add: space_at_def)
  then obtain ls where ls: "list_add p x (links h) = Some ls" "list_at ls addrspace_list (as @ x # bs)"
    using list_add_at [of "links h" addrspace_list as bs x] x as by auto
  obtain t where t: "avl_tree h t" "inorder t = as @ bs"
    using h by (auto simp: space_at_def)
  then obtain ps l r where z: "zip_at h ps (Node l p r)"
      and eq: "cs = path_before ps @ inorder l" "bs = inorder r @ path_after ps"
    using node_in_order [of h t cs p bs] as by auto
  let ?h1 = "?h\<lparr>links := ls\<rparr>" and ?qs = "FrameR l p # ps"
  have "zip_at ?h1 ps (Node l p r)"
    using z zip_at_cong [of ?h1 h] by (simp add: move_to_def)
  then have z1: "zip_at (set_right p None ?h1) ?qs Leaf"
    by (rule zip_prune_right)
  have S: "path_nodes ?qs \<subseteq> set (as @ x # bs)" and xq: "x \<notin> path_nodes ?qs"
    using eq as x by (auto simp: path_nodes_def)
  let ?a = "attach_node x (path_parent ?qs) (link_of ?qs) (set_right p None ?h1)"
  have "prev_ok ls (ranges ?h) y" if "y \<in> set (as @ x # bs)" for y
    by (rule list_at_prev_ok [OF ls(2) wf that])
  then have "update_inv ls (ranges ?h) (set (as @ x # bs)) (avl_heap.more ?a)"
    by (simp add: update_inv_more attach_node_client set_right_client)
  then have "\<exists>m. avlnode_update None x ?a = Some (?a\<lparr>avl_heap.more := m\<rparr>)
      \<and> update_inv ls (ranges ?h) (set (as @ x # bs)) m"
    by (intro exI [of _ "avl_heap.more ?a"]) (simp add: avlnode_update_def)
  from as_update.insert_at_loc_zip [OF z1 xq _ this] obtain h' t' where
      h': "insert_at_loc x (Some p) (LinkRight p) (Some avltree_update) None ?h1 = Some h'" "avl_tree h' t'"
        "inorder t' = path_before ?qs @ x # path_after ?qs" "links h' = ls" "ranges h' = ranges ?h"
    using S by (auto simp: update_inv_more insert_at_right [where h = ?h1])
  have "nright h p = None \<longleftrightarrow> inorder r = []"
    using z by (cases r) (auto simp: zip_at_def)
  then show ?thesis
    using ls h' eq as by (intro exI [of _ ls] exI [of _ h'] exI [of _ "inorder r"] exI [of _ "path_after ps"] exI [of _ t'])
      (simp add: avltree_insert_at_loc_def)
qed

lemma find_space_found:
  assumes "find_from_start h in_range (rsize (ranges h x)) order None = Some (addr, prev)"
    and "addr \<noteq> ADDRSPACE_INVALID_ADDR"
  shows "addrspace_find_space_and_add_node in_range x order h =
    (case prev of
       Some p \<Rightarrow>
         do { ls \<leftarrow> list_add p x (links h);
              h' \<leftarrow> avltree_insert_at_loc x (Some p) (LinkRight p) (Some avltree_update) ((move_to x addr h)\<lparr>links := ls\<rparr>);
              Some (addr, h') }
     | None \<Rightarrow>
         do { (result, h') \<leftarrow> avltree_insert x avltree_compare (Some avltree_update) None (move_to x addr h);
              assert_that result;
              ls \<leftarrow> list_add addrspace_list x (links h');
              Some (addr, h'\<lparr>links := ls\<rparr>) })"
  using assms by (simp add: addrspace_find_space_and_add_node_def move_to_def split: option.split)

lemma place_node:
  assumes h: "space_at h (as @ bs)" and x: "x \<notin> set (addrspace_list # as @ bs)" and sz: "rsize (ranges h x) \<noteq> 0"
    and init: "lprev (links h) x = Some x" and gap: "gap_at h in_range (rsize (ranges h x)) m as bs addr"
    and find: "find_from_start h in_range (rsize (ranges h x)) order None = Some (addr, last_of as)"
    and "addr \<noteq> ADDRSPACE_INVALID_ADDR"
  shows "\<exists>h'. addrspace_find_space_and_add_node in_range x order h = Some (addr, h')
    \<and> list_at (links h') addrspace_list (as @ x # bs) \<and> ranges h' = ranges (move_to x addr h)
    \<and> (if as = [] \<or> nright h (last as) = None
        then \<exists>t. avl_tree h' t \<and> inorder t = as @ x # bs
        else \<exists>t rs cs. bs = rs @ cs \<and> rs \<noteq> [] \<and> avl_tree h' t \<and> inorder t = as @ x # cs)"
proof (cases as rule: rev_cases)
  case Nil
  then have "space_at h bs" "x \<notin> set (addrspace_list # bs)" "gap_at h in_range (rsize (ranges h x)) m [] bs addr"
    using h x gap by simp_all
  from add_in_front [OF this(1,2) sz init this(3)] obtain h1 ls where a: "avltree_insert x avltree_compare (Some avltree_update) None (move_to x addr h) = Some (True, h1)"
      "list_add addrspace_list x (links h1) = Some ls" "space_at (h1\<lparr>links := ls\<rparr>) (x # bs)"
      "ranges h1 = ranges (move_to x addr h)"
    by blast
  have "addrspace_find_space_and_add_node in_range x order h = Some (addr, h1\<lparr>links := ls\<rparr>)"
    using a(1,2) Nil by (simp add: find_space_found [OF find assms(7)] last_of_def)
  moreover have "list_at ls addrspace_list (x # bs)" "\<exists>t. avl_tree h1 t \<and> inorder t = x # bs"
    using a(3) by (simp_all add: space_at_def)
  ultimately show ?thesis
    using a(4) Nil by (intro exI [of _ "h1\<lparr>links := ls\<rparr>"]) simp
next
  case (snoc cs p)
  from add_behind [OF h snoc x sz gap] obtain ls h' rs ds t where a: "list_add p x (links h) = Some ls"
      "avltree_insert_at_loc x (Some p) (LinkRight p) (Some avltree_update) ((move_to x addr h)\<lparr>links := ls\<rparr>) = Some h'"
      "list_at (links h') addrspace_list (as @ x # bs)" "ranges h' = ranges (move_to x addr h)"
      "bs = rs @ ds" "rs = [] \<longleftrightarrow> nright h p = None" "avl_tree h' t" "inorder t = as @ x # ds"
    by (elim exE conjE) (rule that)
  have "addrspace_find_space_and_add_node in_range x order h = Some (addr, h')"
    using a(1,2) snoc by (simp add: find_space_found [OF find assms(7)] last_of_def)
  moreover have "if as = [] \<or> nright h (last as) = None
        then \<exists>t. avl_tree h' t \<and> inorder t = as @ x # bs
        else \<exists>t rs cs. bs = rs @ cs \<and> rs \<noteq> [] \<and> avl_tree h' t \<and> inorder t = as @ x # cs"
  proof (cases "nright h p = None")
    case True
    then have "bs = ds" "as = [] \<or> nright h (last as) = None"
      using a(5,6) snoc by simp_all
    then show ?thesis
      using a(7,8) unfolding if_P [OF \<open>as = [] \<or> nright h (last as) = None\<close>] by blast
  next
    case False
    then have "rs \<noteq> []" "\<not> (as = [] \<or> nright h (last as) = None)"
      using a(6) snoc by simp_all
    then show ?thesis
      using a(5,7,8) unfolding if_not_P [OF \<open>\<not> (as = [] \<or> nright h (last as) = None)\<close>] by blast
  qed
  ultimately show ?thesis
    using a(3,4) by blast
qed

section \<open>Properties\<close>

text \<open>C6: \<open>addrspace_find_space_and_add_node\<close> on a well-formed address space, for a node outside it with an
  initialised list link and a size that is not 0, a range to search that does not overflow, and an alignment
  that fits into 64 bits.  It panics only if there are no nodes and the front of the range cannot be aligned.
  Otherwise it returns: either it reports that there is no space and changes nothing, or it gives the node an
  aligned address between two neighbours \<open>as\<close> and \<open>bs\<close>, so that no ranges overlap, and, unless the node comes
  last, inside the range asked for; the list then has the node between \<open>as\<close> and \<open>bs\<close>.  The tree has it there
  too if it comes first or if its predecessor had no right child.  If the predecessor had a right child, the
  new node takes its place and the tree loses that subtree: the nodes \<open>rs\<close> that come next in the list.\<close>

theorem addrspace_find_space_correct:
  assumes h: "space_at h xs" and x: "x \<notin> set (addrspace_list # xs)" and sz: "rsize (ranges h x) \<noteq> 0"
    and init: "lprev (links h) x = Some x" and "range_wf in_range" and "unat order \<le> 51"
  shows "(xs = [] \<and> 2 ^ 64 \<le> next_multiple (unat (rfront in_range)) (2 ^ (12 + unat order))
      \<and> addrspace_find_space_and_add_node in_range x order h = None)
    \<or> addrspace_find_space_and_add_node in_range x order h = Some (ADDRSPACE_INVALID_ADDR, h)
    \<or> (\<exists>addr h' as bs. addrspace_find_space_and_add_node in_range x order h = Some (addr, h')
        \<and> xs = as @ bs \<and> 2 ^ (12 + unat order) dvd unat addr
        \<and> ranges h' = (ranges h)(x := RANGE_INIT addr (rsize (ranges h x)))
        \<and> (as = [] \<or> bs \<noteq> [] \<longrightarrow> locs (ranges h' x) \<subseteq> locs in_range)
        \<and> (\<forall>y\<in>set (as @ x # bs). node_wf h' y) \<and> sorted_wrt (\<lambda>a b. hi h' a \<le> lo h' b) (as @ x # bs)
        \<and> list_at (links h') addrspace_list (as @ x # bs)
        \<and> (if as = [] \<or> nright h (last as) = None
            then \<exists>t. avl_tree h' t \<and> inorder t = as @ x # bs
            else \<exists>t rs cs. bs = rs @ cs \<and> rs \<noteq> [] \<and> avl_tree h' t \<and> inorder t = as @ x # cs))"
proof -
  let ?find = "find_from_start h in_range (rsize (ranges h x)) order None"
  let ?add = "addrspace_find_space_and_add_node in_range x order h"
  consider "xs = []" "2 ^ 64 \<le> next_multiple (unat (rfront in_range)) (2 ^ (12 + unat order))" "?find = None"
    | prev where "?find = Some (ADDRSPACE_INVALID_ADDR, prev)"
    | addr as bs where "?find = Some (addr, last_of as)" "addr \<noteq> ADDRSPACE_INVALID_ADDR" "xs = as @ bs"
        "gap_at h in_range (rsize (ranges h x)) (2 ^ (12 + unat order)) as bs addr"
    using find_from_start_ok [OF h assms(6,5) sz, of None] unfolding found_def by metis
  then show ?thesis
  proof cases
    case 1
    then show ?thesis
      by (simp add: addrspace_find_space_and_add_node_def)
  next
    case 2
    then show ?thesis
      by (simp add: addrspace_find_space_and_add_node_def)
  next
    case (3 addr as bs)
    let ?h = "move_to x addr h"
    have h': "space_at h (as @ bs)" "x \<notin> set (as @ bs)"
      using h x 3(3) by simp_all
    note m = move_to_space [OF h' sz 3(4)]
    have "\<exists>h'. ?add = Some (addr, h') \<and> list_at (links h') addrspace_list (as @ x # bs) \<and> ranges h' = ranges ?h
        \<and> (if as = [] \<or> nright h (last as) = None
            then \<exists>t. avl_tree h' t \<and> inorder t = as @ x # bs
            else \<exists>t rs cs. bs = rs @ cs \<and> rs \<noteq> [] \<and> avl_tree h' t \<and> inorder t = as @ x # cs)"
      using place_node [OF h'(1) _ sz init 3(4,1,2)] x 3(3) by simp
    then obtain h' where r: "?add = Some (addr, h')" "list_at (links h') addrspace_list (as @ x # bs)"
        "ranges h' = ranges ?h" "if as = [] \<or> nright h (last as) = None
            then \<exists>t. avl_tree h' t \<and> inorder t = as @ x # bs
            else \<exists>t rs cs. bs = rs @ cs \<and> rs \<noteq> [] \<and> avl_tree h' t \<and> inorder t = as @ x # cs"
      by blast
    have same: "lo h' = lo ?h" "hi h' = hi ?h" "node_wf h' = node_wf ?h"
      using r(3) by (auto simp: lo_def hi_def node_wf_def fun_eq_iff)
    have "ranges h' = (ranges h)(x := RANGE_INIT addr (rsize (ranges h x)))"
      using r(3) by (cases "ranges h x") (simp add: RANGE_INIT_def)
    moreover have "\<forall>y\<in>set (as @ x # bs). node_wf h' y"
      using m(1,2) unfolding same space_at_def by simp
    moreover have "sorted_wrt (\<lambda>a b. hi h' a \<le> lo h' b) (as @ x # bs)"
      using m(5) unfolding same .
    ultimately show ?thesis
      using r(1,2,4) 3(3,4) unfolding gap_at_def
      by (intro disjI2 exI [of _ addr] exI [of _ h'] exI [of _ as] exI [of _ bs] conjI) simp_all
  qed
qed

text \<open>On \<^const>\<open>sample_space\<close> the node 4 goes between 2 and 3, and the tree loses 3.\<close>

theorem addrspace_find_space_correct_witness:
  "\<exists>h' t rs cs. addrspace_find_space_and_add_node (RANGE_INIT 0 65536) 4 0 sample_space = Some (8192, h')
     \<and> list_at (links h') addrspace_list [2, 4, 3] \<and> rs @ cs = [3] \<and> rs \<noteq> [] \<and> avl_tree h' t \<and> inorder t = 2 # 4 # cs"
proof -
  have f: "find_from_start sample_space (RANGE_INIT 0 65536) 8192 0 None = Some (8192, Some 2)"
    by (simp add: find_from_start_def PAGE_SIZE_def sample_space_def Let_def
      find_loop.simps [of _ _ _ _ _ 2] find_loop.simps [of _ _ _ _ _ 3]
      traverse_tree.simps [of _ _ _ _ _ 2] traverse_tree.simps [of _ _ _ _ _ 3]
      addrspace_node_prev_def prev_end_of_def addrspace_list_def range_is_loc_above_def
      align_up_def align_down_def range_create_end_def RANGE_INIT_def range_has_def range_has_loc_def
      check_add_def range_index_for_loc_def range_has_index_def index_in_bounds_def
      range_get_end_assert_def range_get_end_def)
  let ?add = "addrspace_find_space_and_add_node (RANGE_INIT 0 65536) 4 0 sample_space"
  have sample: "4 \<notin> set (addrspace_list # [2, 3])" "rsize (ranges sample_space 4) = 8192"
      "lprev (links sample_space) 4 = Some 4" "nright sample_space 2 = Some 3" "range_wf (RANGE_INIT 0 65536)"
    by (simp_all add: sample_space_def addrspace_list_def RANGE_INIT_def range_wf_def)
  have found: "fst r = 8192" if "?add = Some r" for r
    using that find_space_found [of sample_space "RANGE_INIT 0 65536" 4 0 8192 "Some 2"] f sample(2)
    by (auto simp: ADDRSPACE_INVALID_ADDR_def bind_eq_Some_conv)
  then have no: "?add \<noteq> Some (ADDRSPACE_INVALID_ADDR, sample_space)"
    by (auto simp: ADDRSPACE_INVALID_ADDR_def)
  obtain xs :: "nat list" where xs: "xs = [2, 3]" "xs \<noteq> []"
    by simp
  have s: "space_at sample_space xs" "4 \<notin> set (addrspace_list # xs)" "rsize (ranges sample_space 4) \<noteq> 0"
      "unat (0 :: u8) \<le> 51"
    using sample_space_at sample xs(1) by simp_all
  obtain addr h' as bs where "?add = Some (addr, h')" and split: "xs = as @ bs"
      and "ranges h' = (ranges sample_space)(4 := RANGE_INIT addr (rsize (ranges sample_space 4)))"
      and h': "sorted_wrt (\<lambda>a b. hi h' a \<le> lo h' b) (as @ 4 # bs)" "list_at (links h') addrspace_list (as @ 4 # bs)"
        "if as = [] \<or> nright sample_space (last as) = None
         then \<exists>t. avl_tree h' t \<and> inorder t = as @ 4 # bs
         else \<exists>t rs cs. bs = rs @ cs \<and> rs \<noteq> [] \<and> avl_tree h' t \<and> inorder t = as @ 4 # cs"
    using addrspace_find_space_correct [OF s(1,2,3) sample(3,5) s(4)] no xs(2)
    by (elim disjE exE conjE) (simp, simp, rule that)
  then have add: "?add = Some (8192, h')" "[2, 3] = as @ bs"
      and r: "ranges h' = (ranges sample_space)(4 := RANGE_INIT 8192 8192)"
    using found xs(1) sample(2) by auto
  have "hi h' 4 = 16384" "lo h' 4 = 8192" "lo h' 2 = 4096" "hi h' 3 = 20480"
    using r by (simp_all add: hi_def lo_def sample_space_def RANGE_INIT_def)
  then have "as = [2]" "bs = [3]"
    using add(2) h'(1) by (auto simp: Cons_eq_append_conv sorted_wrt_append)
  then obtain t rs cs where "rs @ cs = [3]" "rs \<noteq> []" "avl_tree h' t" "inorder t = 2 # 4 # cs"
    using h'(3) sample(4) by auto
  moreover have "list_at (links h') addrspace_list [2, 4, 3]"
    using h'(2) \<open>as = [2]\<close> \<open>bs = [3]\<close> by simp
  ultimately show ?thesis
    using add(1) by blast
qed

end
