(* ===== verification/Spinlock.thy ===== *)
theory Spinlock
  imports Prelude
begin

text \<open>
  The ticket lock of \<open>cpu/spinlock.c\<close>.  Its atomic operations are the steps of the model.  The
  sequential functions, for a processor on which nobody else moves, are built from them: an acquire
  that would spin forever is \<^const>\<open>None\<close>.  The state machine interleaves the atomic operations of any
  number of threads.  The assertions of \<open>DEBUG_LOCKS\<close> are not built in.
\<close>

section \<open>Definitions\<close>

record spinlock =
  lk_front :: u32
  lk_back :: u32

definition SPINLOCK_INIT :: spinlock where
  "SPINLOCK_INIT = \<lparr>lk_front = 0, lk_back = 0\<rparr>"

text \<open>The state of the processor that the functions save and restore: whether interrupts are
  enabled, and the preemption counter of the current thread.\<close>

record cpu =
  irqs_enabled :: bool
  preemption_disabled :: u16

definition preempt_disable :: "cpu \<Rightarrow> cpu" where
  "preempt_disable c = c\<lparr>preemption_disabled := preemption_disabled c + 1\<rparr>"

definition preempt_enable :: "cpu \<Rightarrow> cpu option" where
  "preempt_enable c =
     do { assert_that (preemption_disabled c \<noteq> 0);
          Some (c\<lparr>preemption_disabled := preemption_disabled c - 1\<rparr>) }"

text \<open>\<open>atomic_fetch_add(&lock->back, 1)\<close>: the ticket and the lock.\<close>

definition take_ticket :: "spinlock \<Rightarrow> u32 \<times> spinlock" where
  "take_ticket lock = (lk_back lock, lock\<lparr>lk_back := lk_back lock + 1\<rparr>)"

definition spin_acquire :: "spinlock \<Rightarrow> spinlock option" where
  "spin_acquire lock =
     (let (ticket, lock) = take_ticket lock in if lk_front lock = ticket then Some lock else None)"

definition spin_release :: "spinlock \<Rightarrow> spinlock" where
  "spin_release lock = lock\<lparr>lk_front := lk_front lock + 1\<rparr>"

text \<open>\<open>atomic_compare_exchange_strong(&lock->back, &ticket, ticket + 1)\<close>.\<close>

definition cas_back :: "spinlock \<Rightarrow> u32 \<Rightarrow> bool \<times> spinlock" where
  "cas_back lock ticket =
     (if lk_back lock = ticket then (True, lock\<lparr>lk_back := ticket + 1\<rparr>) else (False, lock))"

definition spin_try_acquire :: "spinlock \<Rightarrow> bool \<times> spinlock" where
  "spin_try_acquire lock =
     (let ticket = lk_back lock in if lk_front lock = ticket then cas_back lock ticket else (False, lock))"

definition spin_acquire_save_irq :: "spinlock \<Rightarrow> cpu \<Rightarrow> (bool \<times> spinlock \<times> cpu) option" where
  "spin_acquire_save_irq lock c =
     (let enabled = irqs_enabled c;
          c = (if enabled then c\<lparr>irqs_enabled := False\<rparr> else c)
      in do { lock \<leftarrow> spin_acquire lock; Some (enabled, lock, c) })"

definition spin_acquire_preempt_disable :: "spinlock \<Rightarrow> cpu \<Rightarrow> (spinlock \<times> cpu) option" where
  "spin_acquire_preempt_disable lock c =
     (let c = preempt_disable c in do { lock \<leftarrow> spin_acquire lock; Some (lock, c) })"

definition spin_release_restore_irq :: "spinlock \<Rightarrow> bool \<Rightarrow> cpu \<Rightarrow> spinlock \<times> cpu" where
  "spin_release_restore_irq lock flag c =
     (spin_release lock, if flag then c\<lparr>irqs_enabled := True\<rparr> else c)"

definition spin_release_preempt_enable :: "spinlock \<Rightarrow> cpu \<Rightarrow> (spinlock \<times> cpu) option" where
  "spin_release_preempt_enable lock c =
     (let lock = spin_release lock in do { c \<leftarrow> preempt_enable c; Some (lock, c) })"

definition spin_try_acquire_save_irq :: "spinlock \<Rightarrow> cpu \<Rightarrow> bool res \<times> spinlock \<times> cpu" where
  "spin_try_acquire_save_irq lock c =
     (let enabled = irqs_enabled c;
          c' = (if enabled then c\<lparr>irqs_enabled := False\<rparr> else c)
      in case spin_try_acquire lock of
           (False, lock) \<Rightarrow> (Fail, lock, if enabled then c'\<lparr>irqs_enabled := True\<rparr> else c')
         | (True, lock) \<Rightarrow> (Ok enabled, lock, c'))"

definition spinlock_deinit :: "spinlock \<Rightarrow> spinlock" where
  "spinlock_deinit lock = lock\<lparr>lk_front := 0, lk_back := 0\<rparr>"

section \<open>Threads\<close>

text \<open>Where a thread stands in \<open>spin_acquire\<close>, \<open>spin_try_acquire\<close> or between them: outside, spinning
  with its ticket, trying after the load of \<open>back\<close> and after a successful comparison with \<open>front\<close>, or
  holding the lock.\<close>

datatype pc = Outside | Spinning u32 | Tried_Back u32 | Tried_Front u32 | Holding

text \<open>The lock and the threads, and three ghosts: how many tickets were taken and served, and for
  every thread the number of tickets taken before its own ticket, or before its last load of
  \<open>back\<close>.\<close>

record system =
  lock :: spinlock
  pc_of :: "nat \<Rightarrow> pc"
  taken :: nat
  served :: nat
  number :: "nat \<Rightarrow> nat"

definition initial :: system where
  "initial = \<lparr>lock = SPINLOCK_INIT, pc_of = (\<lambda>t. Outside), taken = 0, served = 0, number = (\<lambda>t. 0)\<rparr>"

inductive step :: "nat \<Rightarrow> system \<Rightarrow> system \<Rightarrow> bool" where
  take: "pc_of s t = Outside \<Longrightarrow> take_ticket (lock s) = (k, l) \<Longrightarrow>
    step t s (s\<lparr>lock := l, pc_of := (pc_of s)(t := Spinning k),
                taken := Suc (taken s), number := (number s)(t := taken s)\<rparr>)"
| spin: "pc_of s t = Spinning k \<Longrightarrow> lk_front (lock s) \<noteq> k \<Longrightarrow> step t s s"
| enter: "pc_of s t = Spinning k \<Longrightarrow> lk_front (lock s) = k \<Longrightarrow>
    step t s (s\<lparr>pc_of := (pc_of s)(t := Holding)\<rparr>)"
| release: "pc_of s t = Holding \<Longrightarrow>
    step t s (s\<lparr>lock := spin_release (lock s), pc_of := (pc_of s)(t := Outside),
                served := Suc (served s)\<rparr>)"
| try_back: "pc_of s t = Outside \<Longrightarrow>
    step t s (s\<lparr>pc_of := (pc_of s)(t := Tried_Back (lk_back (lock s))),
                number := (number s)(t := taken s)\<rparr>)"
| try_front: "pc_of s t = Tried_Back k \<Longrightarrow>
    step t s (s\<lparr>pc_of := (pc_of s)(t := if lk_front (lock s) = k then Tried_Front k else Outside)\<rparr>)"
| try_cas_ok: "pc_of s t = Tried_Front k \<Longrightarrow> cas_back (lock s) k = (True, l) \<Longrightarrow>
    step t s (s\<lparr>lock := l, pc_of := (pc_of s)(t := Holding),
                taken := Suc (taken s), number := (number s)(t := taken s)\<rparr>)"
| try_cas_fail: "pc_of s t = Tried_Front k \<Longrightarrow> cas_back (lock s) k = (False, l) \<Longrightarrow>
    step t s (s\<lparr>lock := l, pc_of := (pc_of s)(t := Outside)\<rparr>)"

inductive_cases stepE: "step t s s'"

text \<open>The executions of \<open>n\<close> threads, as the lists of their states from the last to the first.\<close>

inductive exec :: "nat \<Rightarrow> system list \<Rightarrow> bool" for n where
  start: "exec n [initial]"
| move: "exec n (s # ss) \<Longrightarrow> t < n \<Longrightarrow> step t s s' \<Longrightarrow> exec n (s' # s # ss)"

text \<open>The compare-and-exchange of a try cannot tell two values of \<open>back\<close> apart that are a multiple of
  2^32 tickets apart.  A state in which no try has been overtaken by that many tickets since its load
  of \<open>back\<close>: nothing in the code ensures it, so it is a condition of the theorems.\<close>

definition tries_fresh :: "system \<Rightarrow> bool" where
  "tries_fresh s \<longleftrightarrow> (\<forall>t k. pc_of s t = Tried_Back k \<or> pc_of s t = Tried_Front k
     \<longrightarrow> taken s < number s t + 2 ^ 32)"

section \<open>The invariant\<close>

text \<open>The threads that spin or hold the lock.\<close>

definition queue :: "system \<Rightarrow> nat set" where
  "queue s = {t. pc_of s t = Holding \<or> (\<exists>k. pc_of s t = Spinning k)}"

text \<open>Every number from the next one to be served to the next one to be taken belongs to exactly one
  thread of the queue, and a thread that holds the lock has the first of them.\<close>

definition inv :: "nat \<Rightarrow> system \<Rightarrow> bool" where
  "inv n s \<longleftrightarrow>
     lk_back (lock s) = of_nat (taken s) \<and> lk_front (lock s) = of_nat (served s)
     \<and> served s \<le> taken s
     \<and> queue s \<subseteq> {..<n}
     \<and> bij_betw (number s) (queue s) {served s..<taken s}
     \<and> (\<forall>t k. pc_of s t = Spinning k \<longrightarrow> k = of_nat (number s t))
     \<and> (\<forall>t. pc_of s t = Holding \<longrightarrow> number s t = served s)
     \<and> (\<forall>t k. pc_of s t = Tried_Back k \<or> pc_of s t = Tried_Front k
          \<longrightarrow> k = of_nat (number s t) \<and> number s t \<le> taken s)
     \<and> (\<forall>t k. pc_of s t = Tried_Front k \<longrightarrow> number s t \<le> served s)"

lemma invD:
  assumes "inv n s"
  shows "lk_back (lock s) = of_nat (taken s)" "lk_front (lock s) = of_nat (served s)"
    "served s \<le> taken s" "queue s \<subseteq> {..<n}" "bij_betw (number s) (queue s) {served s..<taken s}"
    "pc_of s t = Spinning k \<Longrightarrow> k = of_nat (number s t)"
    "pc_of s t = Holding \<Longrightarrow> number s t = served s"
    "pc_of s t = Tried_Back k \<or> pc_of s t = Tried_Front k \<Longrightarrow> k = of_nat (number s t)"
    "pc_of s t = Tried_Back k \<or> pc_of s t = Tried_Front k \<Longrightarrow> number s t \<le> taken s"
    "pc_of s t = Tried_Front k \<Longrightarrow> number s t \<le> served s"
  using assms by (simp_all add: inv_def) blast+

lemmas inv_tried = invD(8) [OF _ disjI1] invD(8) [OF _ disjI2] invD(9) [OF _ disjI1]
  invD(9) [OF _ disjI2] invD(10)

lemma invI:
  assumes "lk_back (lock s) = of_nat (taken s)" "lk_front (lock s) = of_nat (served s)"
    "served s \<le> taken s" "queue s \<subseteq> {..<n}" "bij_betw (number s) (queue s) {served s..<taken s}"
    "\<And>t k. pc_of s t = Spinning k \<Longrightarrow> k = of_nat (number s t)"
    "\<And>t. pc_of s t = Holding \<Longrightarrow> number s t = served s"
    "\<And>t k. pc_of s t = Tried_Back k \<or> pc_of s t = Tried_Front k \<Longrightarrow> k = of_nat (number s t)"
    "\<And>t k. pc_of s t = Tried_Back k \<or> pc_of s t = Tried_Front k \<Longrightarrow> number s t \<le> taken s"
    "\<And>t k. pc_of s t = Tried_Front k \<Longrightarrow> number s t \<le> served s"
  shows "inv n s"
  using assms unfolding inv_def by blast

lemma ticket_eq:
  assumes "of_nat a = (of_nat b :: u32)" and "a \<le> b" and "b < a + 2 ^ 32"
  shows "a = b"
proof -
  have "of_nat (b - a) = (0 :: u32)"
    using assms(1,2) by (simp add: of_nat_diff)
  then have "b - a = 0"
    using assms(3) unat_of_nat_no_wrap [where 'a = 32, of "b - a"] by simp
  then show ?thesis
    using assms(2) by simp
qed

lemma queue_short:
  assumes "inv n s"
  shows "taken s \<le> served s + n"
proof -
  have "card (queue s) = taken s - served s"
    using bij_betw_same_card [OF invD(5) [OF assms]] by simp
  moreover have "card (queue s) \<le> n"
    using card_mono [OF _ invD(4) [OF assms]] by simp
  ultimately show ?thesis
    by simp
qed

text \<open>A spinning thread whose ticket is the front has the first number, and a try that succeeds finds
  the queue empty.\<close>

lemma front_first:
  assumes "inv n s" and "n < 2 ^ 32" and "pc_of s t = Spinning k" and "lk_front (lock s) = k"
  shows "number s t = served s"
proof -
  have "t \<in> queue s"
    using assms(3) by (simp add: queue_def)
  then have "number s t \<in> {served s..<taken s}"
    by (rule bij_betwE [OF invD(5) [OF assms(1)], rule_format])
  then have "served s \<le> number s t" "number s t < served s + 2 ^ 32"
    using queue_short [OF assms(1)] assms(2) by simp_all
  moreover have "of_nat (served s) = (of_nat (number s t) :: u32)"
    using invD(2) [OF assms(1)] invD(6) [OF assms(1,3)] assms(4) by simp
  ultimately show ?thesis
    using ticket_eq [of "served s" "number s t"] by simp
qed

lemma try_front_first:
  assumes "inv n s" and "n < 2 ^ 32" and "tries_fresh s" and "pc_of s t = Tried_Back k"
    and "lk_front (lock s) = k"
  shows "number s t = served s"
proof -
  have "k = of_nat (number s t)" and le: "number s t \<le> taken s"
    using invD(8,9) [OF assms(1), of t k] assms(4) by simp_all
  then have f: "of_nat (served s) = (of_nat (number s t) :: u32)"
    using invD(2) [OF assms(1)] assms(5) by simp
  have fresh: "taken s < number s t + 2 ^ 32"
    using assms(3,4) by (simp add: tries_fresh_def)
  show ?thesis
  proof (cases "served s \<le> number s t")
    case True
    have "number s t < served s + 2 ^ 32"
      using le queue_short [OF assms(1)] assms(2) by simp
    then show ?thesis
      using ticket_eq [OF f True] by simp
  next
    case False
    have "served s < number s t + 2 ^ 32"
      using fresh invD(3) [OF assms(1)] by simp
    then show ?thesis
      using ticket_eq [OF f [symmetric]] False by simp
  qed
qed

lemma try_cas_empty:
  assumes "inv n s" and "tries_fresh s" and "pc_of s t = Tried_Front k" and "lk_back (lock s) = k"
  shows "served s = taken s"
proof -
  have "k = of_nat (number s t)" and le: "number s t \<le> taken s"
    using invD(8,9) [OF assms(1), of t k] assms(3) by simp_all
  then have "of_nat (number s t) = (of_nat (taken s) :: u32)"
    using invD(1) [OF assms(1)] assms(4) by simp
  moreover have "taken s < number s t + 2 ^ 32"
    using assms(2,3) by (simp add: tries_fresh_def)
  ultimately have "number s t = taken s"
    using ticket_eq le by blast
  then show ?thesis
    using invD(10) [OF assms(1,3)] invD(3) [OF assms(1)] by simp
qed

lemma queue_update:
  "pc_of s' = (pc_of s)(t := Outside) \<Longrightarrow> queue s' = queue s - {t}"
  "pc_of s' = (pc_of s)(t := Tried_Back k) \<Longrightarrow> queue s' = queue s - {t}"
  "pc_of s' = (pc_of s)(t := Tried_Front k) \<Longrightarrow> queue s' = queue s - {t}"
  "pc_of s' = (pc_of s)(t := Spinning k) \<Longrightarrow> queue s' = insert t (queue s)"
  "pc_of s' = (pc_of s)(t := Holding) \<Longrightarrow> queue s' = insert t (queue s)"
  by (auto simp: queue_def)

lemma bij_number_add:
  assumes "bij_betw f A {a..<b}" and "t \<notin> A" and "a \<le> b"
  shows "bij_betw (f(t := b)) (insert t A) {a..<Suc b}"
proof -
  have "bij_betw (f(t := b)) A {a..<b}"
    using assms(1,2) by (subst bij_betw_cong [of A _ f]) auto
  moreover have "{a..<Suc b} = insert b {a..<b}"
    using assms(3) by auto
  ultimately show ?thesis
    using assms(2) notIn_Un_bij_betw [of t A "f(t := b)" "{a..<b}"] by simp
qed

lemma bij_number_remove:
  assumes "bij_betw f A {a..<b}" and "t \<in> A" and "f t = a"
  shows "bij_betw f (A - {t}) {Suc a..<b}"
proof -
  have "{Suc a..<b} = {a..<b} - {a}"
    by auto
  then show ?thesis
    using assms by (auto simp: bij_betw_def inj_on_def)
qed

lemma not_in_queue: "pc_of s t = Outside \<or> pc_of s t = Tried_Back k \<or> pc_of s t = Tried_Front k \<Longrightarrow> t \<notin> queue s"
  by (auto simp: queue_def)

lemma inv_initial: "inv n initial"
  by (simp add: inv_def initial_def queue_def SPINLOCK_INIT_def bij_betw_def)

lemma inv_take:
  assumes "inv n s" and "t < n" and "pc_of s t = Outside"
  shows "inv n (s\<lparr>lock := (lock s)\<lparr>lk_back := lk_back (lock s) + 1\<rparr>,
    pc_of := (pc_of s)(t := Spinning (lk_back (lock s))), taken := Suc (taken s),
    number := (number s)(t := taken s)\<rparr>)" (is "inv n ?s'")
proof -
  note i = invD [OF assms(1)]
  have q: "queue ?s' = insert t (queue s)"
    by (rule queue_update) simp
  have "t \<notin> queue s"
    using assms(3) by (simp add: queue_def)
  then have b: "bij_betw (number ?s') (queue ?s') {served ?s'..<taken ?s'}"
    unfolding q using bij_number_add [OF i(5) _ i(3)] by simp
  show ?thesis
  proof (rule invI)
    show "queue ?s' \<subseteq> {..<n}"
      unfolding q using i(4) assms(2) by simp
  qed (use i(1-3) b in \<open>auto dest: i(6,7) inv_tried [OF assms(1)] intro: le_SucI split: if_splits\<close>)
qed

lemma inv_enter:
  assumes "inv n s" and "n < 2 ^ 32" and "pc_of s t = Spinning k" and "lk_front (lock s) = k"
  shows "inv n (s\<lparr>pc_of := (pc_of s)(t := Holding)\<rparr>)" (is "inv n ?s'")
proof -
  note i = invD [OF assms(1)]
  have "queue ?s' = insert t (queue s)"
    by (rule queue_update) simp
  also have "\<dots> = queue s"
    using assms(3) by (auto simp: queue_def)
  finally have q: "queue ?s' = queue s" .
  show ?thesis
    by (rule invI)
      (use i(1-5) q front_first [OF assms] in \<open>auto dest: i(6,7) inv_tried [OF assms(1)] split: if_splits\<close>)
qed

lemma holder_unique:
  assumes "inv n s" and "pc_of s t = Holding" and "pc_of s u = Holding"
  shows "u = t"
proof -
  have "t \<in> queue s" "u \<in> queue s" "number s t = number s u"
    using assms invD(7) [OF assms(1,2)] invD(7) [OF assms(1,3)] by (simp_all add: queue_def)
  then show ?thesis
    using bij_betw_imp_inj_on [OF invD(5) [OF assms(1)]] by (metis inj_onD)
qed

lemma inv_release:
  assumes "inv n s" and "pc_of s t = Holding"
  shows "inv n (s\<lparr>lock := spin_release (lock s), pc_of := (pc_of s)(t := Outside),
    served := Suc (served s)\<rparr>)" (is "inv n ?s'")
proof -
  note i = invD [OF assms(1)]
  have q: "queue ?s' = queue s - {t}"
    by (rule queue_update) simp
  have t: "t \<in> queue s" "number s t = served s"
    using assms(2) i(7) [OF assms(2)] by (simp_all add: queue_def)
  have b: "bij_betw (number ?s') (queue ?s') {served ?s'..<taken ?s'}"
    unfolding q using bij_number_remove [OF i(5) t] by simp
  have "number s t \<in> {served s..<taken s}"
    by (rule bij_betwE [OF i(5), rule_format, OF t(1)])
  then have lt: "served s < taken s"
    by simp
  show ?thesis
  proof (rule invI)
    show "queue ?s' \<subseteq> {..<n}"
      unfolding q using i(4) by auto
  qed (use i(1-3) b lt holder_unique [OF assms] in
      \<open>auto simp: spin_release_def dest: i(6) inv_tried [OF assms(1)] intro: le_SucI split: if_splits\<close>)
qed

lemma inv_leave_try:
  assumes "inv n s" and "pc_of s t \<noteq> Holding" and "\<nexists>k. pc_of s t = Spinning k"
  shows "inv n (s\<lparr>pc_of := (pc_of s)(t := Outside)\<rparr>)" (is "inv n ?s'")
proof -
  note i = invD [OF assms(1)]
  have "queue ?s' = queue s - {t}"
    by (rule queue_update) simp
  then have q: "queue ?s' = queue s"
    using assms(2,3) by (auto simp: queue_def)
  show ?thesis
    by (rule invI) (use i(1-5) q in \<open>auto dest: i(6,7) inv_tried [OF assms(1)] split: if_splits\<close>)
qed

lemma inv_try_back:
  assumes "inv n s" and "pc_of s t = Outside"
  shows "inv n (s\<lparr>pc_of := (pc_of s)(t := Tried_Back (lk_back (lock s))),
    number := (number s)(t := taken s)\<rparr>)" (is "inv n ?s'")
proof -
  note i = invD [OF assms(1)]
  have t: "t \<notin> queue s"
    using assms(2) by (simp add: queue_def)
  have "queue ?s' = queue s - {t}"
    by (rule queue_update) simp
  then have q: "queue ?s' = queue s"
    using t by simp
  have b: "bij_betw (number ?s') (queue ?s') {served ?s'..<taken ?s'}"
    unfolding q using i(5) t by (subst bij_betw_cong [of _ _ "number s"]) auto
  show ?thesis
    by (rule invI) (use i(1-4) q b in \<open>auto dest: i(6,7) inv_tried [OF assms(1)] split: if_splits\<close>)
qed

lemma inv_try_front:
  assumes "inv n s" and "n < 2 ^ 32" and "tries_fresh s" and "pc_of s t = Tried_Back k"
    and "lk_front (lock s) = k"
  shows "inv n (s\<lparr>pc_of := (pc_of s)(t := Tried_Front k)\<rparr>)" (is "inv n ?s'")
proof -
  note i = invD [OF assms(1)]
  have "queue ?s' = queue s - {t}"
    by (rule queue_update) simp
  then have q: "queue ?s' = queue s"
    using assms(4) by (auto simp: queue_def)
  have "k = of_nat (number s t)" "number s t \<le> taken s"
    using i(8,9) [of t k] assms(4) by simp_all
  then show ?thesis
    by (intro invI)
      (use i(1-5) q try_front_first [OF assms] in \<open>auto dest: i(6,7) inv_tried [OF assms(1)] split: if_splits\<close>)
qed

lemma inv_try_cas:
  assumes "inv n s" and "t < n" and "tries_fresh s" and "pc_of s t = Tried_Front k"
    and "lk_back (lock s) = k"
  shows "inv n (s\<lparr>lock := (lock s)\<lparr>lk_back := k + 1\<rparr>, pc_of := (pc_of s)(t := Holding),
    taken := Suc (taken s), number := (number s)(t := taken s)\<rparr>)" (is "inv n ?s'")
proof -
  note i = invD [OF assms(1)]
  have q: "queue ?s' = insert t (queue s)"
    by (rule queue_update) simp
  have t: "t \<notin> queue s"
    using assms(4) by (simp add: queue_def)
  then have b: "bij_betw (number ?s') (queue ?s') {served ?s'..<taken ?s'}"
    unfolding q using bij_number_add [OF i(5) _ i(3)] by simp
  have eq: "served s = taken s"
    by (rule try_cas_empty [OF assms(1,3-5)])
  then have "queue s = {}"
    using i(5) by (simp add: bij_betw_def)
  then have none: "pc_of s u \<noteq> Holding" "pc_of s u \<noteq> Spinning j" for u j
    by (auto simp: queue_def)
  show ?thesis
  proof (rule invI)
    show "queue ?s' \<subseteq> {..<n}"
      unfolding q using i(4) assms(2) by simp
  qed (use i(1-3) b eq none assms(5) in \<open>auto dest: inv_tried [OF assms(1)] intro: le_SucI split: if_splits\<close>)
qed


lemma inv_step:
  assumes "inv n s" and "n < 2 ^ 32" and "tries_fresh s" and "t < n" and "step t s s'"
  shows "inv n s'"
  using assms(5)
proof cases
  case (take k l)
  then show ?thesis
    using inv_take [OF assms(1,4)] by (simp add: take_ticket_def) metis
next
  case (enter k)
  then show ?thesis
    using inv_enter [OF assms(1,2)] by simp
next
  case release
  then show ?thesis
    using inv_release [OF assms(1)] by simp
next
  case try_back
  then show ?thesis
    using inv_try_back [OF assms(1)] by simp
next
  case (try_front k)
  then show ?thesis
    using inv_try_front [OF assms(1-3)] inv_leave_try [OF assms(1), of t] by simp
next
  case (try_cas_ok k l)
  then show ?thesis
    using inv_try_cas [OF assms(1,4,3)] by (simp add: cas_back_def split: if_splits)
next
  case (try_cas_fail k l)
  then have "s' = s\<lparr>pc_of := (pc_of s)(t := Outside)\<rparr>"
    by (simp add: cas_back_def split: if_splits)
  then show ?thesis
    using try_cas_fail inv_leave_try [OF assms(1), of t] by simp
next
  case (spin k)
  then show ?thesis
    using assms(1) by simp
qed

lemma tries_fresh_initial: "tries_fresh initial"
  by (simp add: tries_fresh_def initial_def)

lemma exec_inv:
  assumes "exec n (s # ss)" and "n < 2 ^ 32" and "\<forall>r \<in> set ss. tries_fresh r"
  shows "inv n s"
  using assms(1,3)
proof (induction "s # ss" arbitrary: s ss)
  case start
  show ?case
    by (rule inv_initial)
next
  case (move s ss t s')
  then have "inv n s" "tries_fresh s"
    by simp_all
  then show ?case
    using inv_step [OF _ assms(2)] move.hyps(3,4) by blast
qed

lemma queued_number:
  assumes "inv n s" and "t \<in> queue s"
  shows "served s \<le> number s t" and "number s t < taken s"
  using bij_betwE [OF invD(5) [OF assms(1)], rule_format, OF assms(2)] by simp_all

lemma queue_number_eq:
  assumes "inv n s" and "t \<in> queue s" and "u \<in> queue s" and "number s t = number s u"
  shows "t = u"
  using inj_onD [OF bij_betw_imp_inj_on [OF invD(5) [OF assms(1)]] assms(4,2,3)] .

section \<open>A run\<close>

text \<open>Threads that acquire and release the lock over and over, scheduled in turn.\<close>

definition advance :: "nat \<Rightarrow> system \<Rightarrow> system" where
  "advance t s =
     (case pc_of s t of
        Outside \<Rightarrow> (let (k, l) = take_ticket (lock s) in
          s\<lparr>lock := l, pc_of := (pc_of s)(t := Spinning k),
            taken := Suc (taken s), number := (number s)(t := taken s)\<rparr>)
      | Spinning k \<Rightarrow> (if lk_front (lock s) = k then s\<lparr>pc_of := (pc_of s)(t := Holding)\<rparr> else s)
      | Holding \<Rightarrow> s\<lparr>lock := spin_release (lock s), pc_of := (pc_of s)(t := Outside),
                      served := Suc (served s)\<rparr>
      | _ \<Rightarrow> s)"

primrec round_robin :: "nat \<Rightarrow> nat \<Rightarrow> system" where
  "round_robin n 0 = initial"
| "round_robin n (Suc i) = advance (i mod n) (round_robin n i)"

definition no_tries :: "system \<Rightarrow> bool" where
  "no_tries s \<longleftrightarrow> (\<forall>t k. pc_of s t \<noteq> Tried_Back k \<and> pc_of s t \<noteq> Tried_Front k)"

lemma step_advance_acquire: "pc_of s t \<in> {Outside, Holding} \<union> range Spinning \<Longrightarrow> step t s (advance t s)"
  by (cases "pc_of s t") (auto simp: advance_def take_ticket_def intro: step.intros split: prod.splits)

lemma exec_advance:
  assumes "exec n (s # ss)" and "t < n" and "pc_of s t \<in> {Outside, Holding} \<union> range Spinning"
  shows "exec n (advance t s # s # ss)"
  by (rule move [OF assms(1,2) step_advance_acquire [OF assms(3)]])

lemma step_advance: "no_tries s \<Longrightarrow> step t s (advance t s)"
  by (rule step_advance_acquire, cases "pc_of s t") (auto simp: no_tries_def)

lemma no_tries_advance: "no_tries s \<Longrightarrow> no_tries (advance t s)"
  by (cases "pc_of s t") (auto simp: advance_def no_tries_def take_ticket_def)

lemma no_tries_round_robin: "no_tries (round_robin n i)"
  by (induction i) (simp_all add: no_tries_advance, simp add: no_tries_def initial_def)

lemma no_tries_fresh: "no_tries s \<Longrightarrow> tries_fresh s"
  by (simp add: no_tries_def tries_fresh_def)

lemma exec_round_robin:
  assumes "0 < n"
  shows "exec n (map (round_robin n) (rev [0..<Suc i]))"
proof (induction i)
  case (Suc i)
  then show ?case
    using move [OF _ _ step_advance [OF no_tries_round_robin], of n n i] assms by simp
qed (simp add: start)

lemma round_robin_numeral:
  "round_robin n (numeral k) = advance (pred_numeral k mod n) (round_robin n (pred_numeral k))"
  by (simp add: numeral_eq_Suc)

lemmas round_robin_eval = round_robin_numeral advance_def initial_def SPINLOCK_INIT_def take_ticket_def
  spin_release_def

section \<open>Mutual exclusion\<close>

text \<open>C35: When any number of threads below 2^32 use the lock, by \<open>spin_acquire\<close>, \<open>spin_try_acquire\<close> and
  \<open>spin_release\<close> interleaved at their atomic operations, and no \<open>spin_try_acquire\<close> is overtaken by 2^32
  tickets between its load of \<open>back\<close> and its compare-and-exchange, at most one thread holds the lock; it is
  handed over in the order in which the tickets were taken, also when the counters wrap around.\<close>

theorem ticket_lock_exclusive:
  assumes "exec n (s # ss)" and "n < 2 ^ 32" and "\<forall>r \<in> set (s # ss). tries_fresh r"
  shows "(\<forall>t u. pc_of s t = Holding \<longrightarrow> pc_of s u = Holding \<longrightarrow> t = u)
    \<and> (\<forall>t u k. pc_of s t = Holding \<longrightarrow> pc_of s u = Spinning k
        \<longrightarrow> number s t < number s u \<and> lk_front (lock s) \<noteq> k)
    \<and> (\<forall>t u k j. pc_of s t = Spinning k \<longrightarrow> pc_of s u = Spinning j \<longrightarrow> number s t < number s u
        \<longrightarrow> lk_front (lock s) \<noteq> j)"
proof -
  have i: "inv n s"
    using exec_inv [OF assms(1,2)] assms(3) by simp
  have lt: "number s t < number s u \<and> lk_front (lock s) \<noteq> k"
    if "pc_of s t = Holding" "pc_of s u = Spinning k" for t u k
  proof -
    have q: "t \<in> queue s" "u \<in> queue s" "t \<noteq> u"
      using that by (auto simp: queue_def)
    have n: "number s t = served s"
      by (rule invD(7) [OF i that(1)])
    have "number s u \<noteq> served s"
      using queue_number_eq [OF i q(1,2)] q(3) n by auto
    then show ?thesis
      using queued_number(1) [OF i q(2)] n front_first [OF i assms(2) that(2)] by auto
  qed
  have later: "lk_front (lock s) \<noteq> j"
    if "pc_of s t = Spinning k" "pc_of s u = Spinning j" "number s t < number s u" for t u k j
  proof -
    have "t \<in> queue s"
      using that(1) by (simp add: queue_def)
    then show ?thesis
      using queued_number(1) [OF i] front_first [OF i assms(2) that(2)] that(3) by fastforce
  qed
  show ?thesis
    using lt later holder_unique [OF i] by blast
qed

theorem ticket_lock_exclusive_witness:
  "pc_of (round_robin 2 4) 0 = Holding \<and> pc_of (round_robin 2 4) 1 = Spinning 1
   \<and> number (round_robin 2 4) 0 < number (round_robin 2 4) 1"
proof -
  have "pc_of (round_robin 2 4) 0 = Holding" "pc_of (round_robin 2 4) 1 = Spinning 1"
    by (simp_all add: round_robin_eval)
  moreover have "exec 2 (round_robin 2 4 # map (round_robin 2) (rev [0..<4]))"
    using exec_round_robin [of 2 4] by (simp only: upt_Suc_append rev_append) simp
  moreover have "\<forall>r \<in> set (round_robin 2 4 # map (round_robin 2) (rev [0..<4])). tries_fresh r"
    using no_tries_fresh [OF no_tries_round_robin] by auto
  moreover have "(2 :: nat) < 2 ^ 32"
    by simp
  ultimately show ?thesis
    using ticket_lock_exclusive by blast
qed

section \<open>Starvation freedom\<close>

text \<open>An infinite run of \<open>n\<close> threads: the thread that moves at every instant and the states.\<close>

definition run :: "nat \<Rightarrow> (nat \<Rightarrow> nat) \<Rightarrow> (nat \<Rightarrow> system) \<Rightarrow> bool" where
  "run n who \<sigma> \<longleftrightarrow> \<sigma> 0 = initial
     \<and> (\<forall>i. who i < n \<and> step (who i) (\<sigma> i) (\<sigma> (Suc i)))"

definition fair :: "nat \<Rightarrow> (nat \<Rightarrow> nat) \<Rightarrow> bool" where
  "fair n who \<longleftrightarrow> (\<forall>t < n. \<forall>i. \<exists>j \<ge> i. who j = t)"

lemma run_exec:
  assumes "run n who \<sigma>"
  shows "exec n (map \<sigma> (rev [0..<Suc i]))"
proof (induction i)
  case 0
  then show ?case
    using assms by (simp add: run_def start)
next
  case (Suc i)
  then show ?case
    using assms move [of n "\<sigma> i" _ "who i"] by (simp add: run_def)
qed

lemma run_inv:
  assumes "run n who \<sigma>" and "n < 2 ^ 32" and "\<forall>i. tries_fresh (\<sigma> i)"
  shows "inv n (\<sigma> i)"
  using exec_inv [of n "\<sigma> i" "map \<sigma> (rev [0..<i])"] run_exec [OF assms(1), of i] assms(2,3) by auto

lemma step_others:
  assumes "step u s s'" and "t \<noteq> u"
  shows "pc_of s' t = pc_of s t \<and> number s' t = number s t"
  using assms(1) by cases (use assms(2) in simp_all)

lemma step_served:
  assumes "step u s s'"
  shows "served s \<le> served s'"
  using assms by cases simp_all

lemma step_spinning:
  assumes "step u s s'" and "pc_of s t = Spinning k"
  shows "pc_of s' t = Holding \<or> pc_of s' t = Spinning k \<and> number s' t = number s t"
proof (cases "u = t")
  case True
  show ?thesis
    using assms(1) by cases (use assms(2) True in simp_all)
next
  case False
  then show ?thesis
    using step_others [OF assms(1), of t] assms(2) by simp
qed

lemma run_served_mono:
  assumes "run n who \<sigma>" and "i \<le> j"
  shows "served (\<sigma> i) \<le> served (\<sigma> j)"
  using assms(2)
proof (induction j rule: dec_induct)
  case (step m)
  have "step (who m) (\<sigma> m) (\<sigma> (Suc m))"
    using assms(1) by (simp add: run_def)
  then show ?case
    using step_served step.IH by fastforce
qed simp


text \<open>A thread stays where it is until it is scheduled, and a fair schedule gets to it.\<close>

lemma next_turn:
  assumes "run n who \<sigma>" and "fair n who" and "t < n"
  obtains j where "i \<le> j" "who j = t" "pc_of (\<sigma> j) t = pc_of (\<sigma> i) t"
    "number (\<sigma> j) t = number (\<sigma> i) t"
proof -
  have "\<exists>j. i \<le> j \<and> who j = t"
    using assms(2,3) by (simp add: fair_def)
  then obtain j where j: "i \<le> j \<and> who j = t" and least: "\<And>m. m < j \<Longrightarrow> \<not> (i \<le> m \<and> who m = t)"
    using exists_least_iff [of "\<lambda>j. i \<le> j \<and> who j = t"] by blast
  have "pc_of (\<sigma> m) t = pc_of (\<sigma> i) t \<and> number (\<sigma> m) t = number (\<sigma> i) t" if "i \<le> m" "m \<le> j" for m
    using that
  proof (induction m rule: dec_induct)
    case (step m)
    have "step (who m) (\<sigma> m) (\<sigma> (Suc m))" "t \<noteq> who m"
      using assms(1) least [of m] step.hyps step.prems by (auto simp: run_def)
    then show ?case
      using step_others step.IH step.prems by fastforce
  qed simp
  then show thesis
    using that j by blast
qed

lemma first_enters:
  assumes "run n who \<sigma>" and "fair n who" and "n < 2 ^ 32" and "\<forall>i. tries_fresh (\<sigma> i)"
    and "pc_of (\<sigma> i) t = Spinning k" and "number (\<sigma> i) t = served (\<sigma> i)"
  obtains j where "i \<le> j" "pc_of (\<sigma> j) t = Holding"
proof -
  have inv: "inv n (\<sigma> m)" for m
    by (rule run_inv [OF assms(1,3,4)])
  have "t < n"
    using invD(4) [OF inv [of i]] assms(5) by (auto simp: queue_def)
  then obtain j where j: "i \<le> j" "who j = t" "pc_of (\<sigma> j) t = Spinning k"
    "number (\<sigma> j) t = number (\<sigma> i) t"
    using next_turn [OF assms(1,2)] assms(5) by metis
  have "served (\<sigma> j) \<le> number (\<sigma> j) t"
    using queued_number(1) [OF inv] j(3) by (simp add: queue_def)
  then have "number (\<sigma> j) t = served (\<sigma> j)"
    using run_served_mono [OF assms(1) j(1)] j(4) assms(6) by simp
  then have front: "lk_front (lock (\<sigma> j)) = k"
    using invD(2) [OF inv [of j]] invD(6) [OF inv j(3)] by simp
  have "step t (\<sigma> j) (\<sigma> (Suc j))"
    using assms(1) j(2) unfolding run_def by metis
  then have "pc_of (\<sigma> (Suc j)) t = Holding"
    by cases (use j(3) front in simp_all)
  then show thesis
    using that [of "Suc j"] j(1) by simp
qed

lemma holder_releases:
  assumes "run n who \<sigma>" and "fair n who" and "t < n" and "pc_of (\<sigma> i) t = Holding"
  obtains j where "i \<le> j" "served (\<sigma> i) < served (\<sigma> j)"
proof -
  obtain j where j: "i \<le> j" "who j = t" "pc_of (\<sigma> j) t = Holding"
    using next_turn [OF assms(1-3)] assms(4) by metis
  have "step t (\<sigma> j) (\<sigma> (Suc j))"
    using assms(1) j(2) unfolding run_def by metis
  then have "served (\<sigma> (Suc j)) = Suc (served (\<sigma> j))"
    by cases (use j(3) in simp_all)
  then show thesis
    using that [of "Suc j"] j(1) run_served_mono [OF assms(1) j(1)] by simp
qed

lemma queue_moves:
  assumes "run n who \<sigma>" and "fair n who" and "n < 2 ^ 32" and "\<forall>i. tries_fresh (\<sigma> i)"
    and "served (\<sigma> i) < taken (\<sigma> i)"
  obtains j where "i \<le> j" "served (\<sigma> i) < served (\<sigma> j)"
proof -
  have inv: "inv n (\<sigma> m)" for m
    by (rule run_inv [OF assms(1,3,4)])
  obtain u where u: "u \<in> queue (\<sigma> i)" "number (\<sigma> i) u = served (\<sigma> i)"
    using bij_betw_imp_surj_on [OF invD(5) [OF inv [of i]]] assms(5)
    by (metis atLeastLessThan_iff imageE order_refl)
  have n: "u < n"
    using invD(4) [OF inv [of i]] u(1) by auto
  obtain m where m: "i \<le> m" "pc_of (\<sigma> m) u = Holding"
  proof (cases "pc_of (\<sigma> i) u = Holding")
    case False
    then obtain k where "pc_of (\<sigma> i) u = Spinning k"
      using u(1) by (auto simp: queue_def)
    then show thesis
      using first_enters [OF assms(1-4) _ u(2)] that by blast
  qed (rule that, simp_all)
  obtain j where "m \<le> j" "served (\<sigma> m) < served (\<sigma> j)"
    by (rule holder_releases [OF assms(1,2) n m(2)])
  then show thesis
    using that [of j] m(1) run_served_mono [OF assms(1) m(1)] by simp
qed

lemma spinning_until:
  assumes "run n who \<sigma>" and "pc_of (\<sigma> i) t = Spinning k" and "i \<le> j"
  shows "(\<exists>m \<ge> i. pc_of (\<sigma> m) t = Holding)
    \<or> pc_of (\<sigma> j) t = Spinning k \<and> number (\<sigma> j) t = number (\<sigma> i) t"
  using assms(3)
proof (induction j rule: dec_induct)
  case (step m)
  have "step (who m) (\<sigma> m) (\<sigma> (Suc m))"
    using assms(1) by (simp add: run_def)
  then show ?case
    using step.IH step.hyps step_spinning [of "who m" "\<sigma> m" "\<sigma> (Suc m)" t k] le_SucI by metis
qed (use assms(2) in simp)

text \<open>C36: No thread starves: in every infinite run in which every thread is scheduled again and again, a
  thread that holds the lock releases it when it is scheduled, and no \<open>spin_try_acquire\<close> is overtaken by
  2^32 tickets between its load of \<open>back\<close> and its compare-and-exchange, a thread that spins for the lock
  with a ticket gets it.\<close>

theorem ticket_lock_no_starvation:
  assumes "run n who \<sigma>" and "fair n who" and "n < 2 ^ 32" and "\<forall>i. tries_fresh (\<sigma> i)"
    and "pc_of (\<sigma> i) t = Spinning k"
  shows "\<exists>j \<ge> i. pc_of (\<sigma> j) t = Holding"
  using assms(5)
proof (induction "number (\<sigma> i) t - served (\<sigma> i)" arbitrary: i rule: less_induct)
  case less
  have "inv n (\<sigma> i)"
    by (rule run_inv [OF assms(1,3,4)])
  then have b: "served (\<sigma> i) \<le> number (\<sigma> i) t" "number (\<sigma> i) t < taken (\<sigma> i)"
    using queued_number less.prems by (simp_all add: queue_def)
  show ?case
  proof (cases "number (\<sigma> i) t = served (\<sigma> i)")
    case True
    then show ?thesis
      using first_enters [OF assms(1-4) less.prems] by blast
  next
    case False
    obtain j where j: "i \<le> j" "served (\<sigma> i) < served (\<sigma> j)"
      using queue_moves [OF assms(1-4), of i] b by force
    show ?thesis
      using spinning_until [OF assms(1) less.prems j(1)]
    proof
      assume at: "pc_of (\<sigma> j) t = Spinning k \<and> number (\<sigma> j) t = number (\<sigma> i) t"
      then have "number (\<sigma> j) t - served (\<sigma> j) < number (\<sigma> i) t - served (\<sigma> i)"
        using j(2) False b(1) by simp
      then show ?thesis
        using less.hyps [of j] at j(1) order_trans by blast
    qed
  qed
qed


lemma run_round_robin:
  assumes "0 < n"
  shows "run n (\<lambda>i. i mod n) (round_robin n)"
  using assms step_advance [OF no_tries_round_robin] by (simp add: run_def)

lemma fair_round_robin:
  assumes "0 < n"
  shows "fair n (\<lambda>i. i mod n)"
  unfolding fair_def
proof (intro allI impI)
  fix t i :: nat
  assume "t < n"
  then have "(i * n + t) mod n = t" "i \<le> i * n + t"
    using assms by (simp_all add: trans_le_add1)
  then show "\<exists>j \<ge> i. j mod n = t"
    by blast
qed

theorem ticket_lock_no_starvation_witness: "\<exists>j \<ge> 4. pc_of (round_robin 2 j) 1 = Holding"
proof (rule ticket_lock_no_starvation)
  show "run 2 (\<lambda>i. i mod 2) (round_robin 2)"
    by (rule run_round_robin) simp
  show "fair 2 (\<lambda>i. i mod 2)"
    by (rule fair_round_robin) simp
  show "\<forall>i. tries_fresh (round_robin 2 i)"
    using no_tries_fresh [OF no_tries_round_robin] by blast
  show "pc_of (round_robin 2 4) 1 = Spinning 1"
    by (simp add: round_robin_eval)
qed simp

section \<open>A try that is overtaken\<close>

text \<open>A thread that has taken its ticket number 0 for a try, while another one acquires and releases the lock
  \<open>m\<close> times.\<close>

lemma overtaking:
  "\<exists>s ss. exec 2 (s # ss) \<and> lock s = \<lparr>lk_front = of_nat m, lk_back = of_nat m\<rparr>
     \<and> pc_of s = (\<lambda>t. Outside)(0 := Tried_Front 0)"
proof (induction m)
  case 0
  let ?s1 = "initial\<lparr>pc_of := (pc_of initial)(0 := Tried_Back (lk_back (lock initial))),
    number := (number initial)(0 := taken initial)\<rparr>"
  let ?s2 = "?s1\<lparr>pc_of := (pc_of ?s1)(0 := if lk_front (lock ?s1) = 0 then Tried_Front 0 else Outside)\<rparr>"
  have "step 0 initial ?s1"
    by (rule try_back) (simp add: initial_def)
  moreover have "step 0 ?s1 ?s2"
    by (rule try_front) (simp add: initial_def SPINLOCK_INIT_def)
  ultimately have "exec 2 [?s2, ?s1, initial]"
    by (intro move [OF move [OF start]]) simp_all
  moreover have "lock ?s2 = \<lparr>lk_front = of_nat 0, lk_back = of_nat 0\<rparr>"
      "pc_of ?s2 = (\<lambda>t. Outside)(0 := Tried_Front 0)"
    by (simp_all add: initial_def SPINLOCK_INIT_def)
  ultimately show ?case
    by blast
next
  case (Suc m)
  then obtain s ss where s: "exec 2 (s # ss)" "lock s = \<lparr>lk_front = of_nat m, lk_back = of_nat m\<rparr>"
      "pc_of s = (\<lambda>t. Outside)(0 := Tried_Front 0)"
    by blast
  let ?s1 = "advance 1 s"
  let ?s2 = "advance 1 ?s1"
  let ?s3 = "advance 1 ?s2"
  have pc: "pc_of s 1 = Outside" "pc_of ?s1 1 = Spinning (of_nat m)" "pc_of ?s2 1 = Holding"
    using s(2,3) by (simp_all add: advance_def take_ticket_def)
  have "exec 2 (?s3 # ?s2 # ?s1 # s # ss)"
    by (intro exec_advance s(1)) (simp_all add: pc del: One_nat_def)
  moreover have "lock ?s3 = \<lparr>lk_front = of_nat (Suc m), lk_back = of_nat (Suc m)\<rparr>"
      "pc_of ?s3 = (\<lambda>t. Outside)(0 := Tried_Front 0)"
    using s(2,3) by (auto simp: advance_def take_ticket_def spin_release_def)
  ultimately show ?case
    by blast
qed

text \<open>C37: The condition on \<open>spin_try_acquire\<close> is necessary: two threads can hold the lock at the same time,
  when one of them loads \<open>back\<close> in \<open>spin_try_acquire\<close> and the other one takes 2^32 tickets, the last of which
  it still holds, before the compare-and-exchange.\<close>

theorem ticket_lock_try_overtaken:
  "\<exists>s ss. exec 2 (s # ss) \<and> pc_of s 0 = Holding \<and> pc_of s 1 = Holding"
proof -
  obtain s ss where s: "exec 2 (s # ss)" "lock s = \<lparr>lk_front = of_nat (2 ^ 32 - 1), lk_back = of_nat (2 ^ 32 - 1)\<rparr>"
      "pc_of s = (\<lambda>t. Outside)(0 := Tried_Front 0)"
    using overtaking [of "2 ^ 32 - 1"] by blast
  let ?s1 = "advance 1 s"
  let ?s2 = "advance 1 ?s1"
  have lock: "lock ?s2 = \<lparr>lk_front = of_nat (2 ^ 32 - 1), lk_back = 0\<rparr>"
      "pc_of ?s2 = (\<lambda>t. Outside)(0 := Tried_Front 0, 1 := Holding)"
    using s(2,3) by (auto simp: advance_def take_ticket_def)
  have pc: "pc_of s 1 = Outside" "pc_of ?s1 1 = Spinning (of_nat (2 ^ 32 - 1))"
    using s(2,3) by (simp_all add: advance_def take_ticket_def)
  have "exec 2 (?s2 # ?s1 # s # ss)"
    by (intro exec_advance s(1)) (simp_all add: pc del: One_nat_def)
  moreover have "cas_back (lock ?s2) 0 = (True, \<lparr>lk_front = of_nat (2 ^ 32 - 1), lk_back = 1\<rparr>)"
    unfolding lock(1) by (simp add: cas_back_def)
  ultimately show ?thesis
    using move [OF _ _ try_cas_ok [of ?s2 0 0]] lock(2) by fastforce
qed

section \<open>The saved state of the processor\<close>

text \<open>Releasing a lock restores what acquiring it changed of the processor, and a try that fails
  changes nothing.\<close>

lemma spin_try_acquire_iff:
  "spin_try_acquire l =
     (if lk_front l = lk_back l then (True, l\<lparr>lk_back := lk_back l + 1\<rparr>) else (False, l))"
  by (simp add: spin_try_acquire_def cas_back_def Let_def)

lemma save_restore_irq:
  assumes "spin_acquire_save_irq l c = Some (flag, l', c')"
  shows "\<not> irqs_enabled c' \<and> snd (spin_release_restore_irq l' flag c') = c"
  using assms
  by (cases c) (auto simp: spin_acquire_save_irq_def spin_release_restore_irq_def Let_def
      split: option.splits if_splits bind_splits)

lemma preempt_round_trip:
  assumes "spin_acquire_preempt_disable l c = Some (l', c')" and "preemption_disabled c \<noteq> - 1"
  shows "map_option snd (spin_release_preempt_enable l' c') = Some c"
proof -
  have "preemption_disabled c + 1 \<noteq> 0"
    using assms(2) by (metis add_eq_0_iff2)
  then show ?thesis
    using assms(1)
    by (auto simp: spin_acquire_preempt_disable_def spin_release_preempt_enable_def preempt_disable_def
        preempt_enable_def Let_def split: bind_splits)
qed

lemma spin_try_save_irq_fails:
  assumes "spin_try_acquire_save_irq l c = (Fail, l', c')"
  shows "l' = l \<and> c' = c"
  using assms
  by (cases c) (auto simp: spin_try_acquire_save_irq_def spin_try_acquire_iff Let_def split: if_splits)

end
