(* ===== verification/Ctype.thy ===== *)
theory Ctype
  imports Prelude
begin

text \<open>
  \<open>lib/ctype.c\<close>, the classification of characters, as it is built for the kernel: a character is an
  unsigned byte and \<open>is_ascii\<close> accepts every one.  A character beyond the table of 128 entries reads
  outside the array, which is \<^const>\<open>None\<close>.
\<close>

section \<open>Definitions\<close>

definition ALPHA_LOWER :: u16 where "ALPHA_LOWER = 1"
definition ALPHA_UPPER :: u16 where "ALPHA_UPPER = 2"
definition CNTRL :: u16 where "CNTRL = 4"
definition DIGIT :: u16 where "DIGIT = 8"
definition GRAPH :: u16 where "GRAPH = 16"
definition PRINT :: u16 where "PRINT = 32"
definition PUNCT :: u16 where "PUNCT = 64"
definition SPACE :: u16 where "SPACE = 128"
definition HEX_DIGIT :: u16 where "HEX_DIGIT = 256"

definition ctype_array :: "u16 list" where
  "ctype_array =
     replicate 9 CNTRL
     @ replicate 5 (CNTRL OR SPACE)
     @ replicate 18 CNTRL
     @ [PRINT OR SPACE]
     @ replicate 15 (GRAPH OR PRINT OR PUNCT)
     @ replicate 10 (DIGIT OR GRAPH OR PRINT OR HEX_DIGIT)
     @ replicate 7 (GRAPH OR PRINT OR PUNCT)
     @ replicate 6 (GRAPH OR PRINT OR ALPHA_UPPER OR HEX_DIGIT)
     @ replicate 20 (GRAPH OR PRINT OR ALPHA_UPPER)
     @ replicate 6 (GRAPH OR PRINT OR PUNCT)
     @ replicate 6 (GRAPH OR ALPHA_LOWER OR PRINT OR HEX_DIGIT)
     @ replicate 20 (GRAPH OR ALPHA_LOWER OR PRINT)
     @ replicate 4 (GRAPH OR PRINT OR PUNCT)
     @ [CNTRL]"

definition is_ascii :: "u8 \<Rightarrow> bool" where
  "is_ascii c = True"

definition ctype_entry :: "u8 \<Rightarrow> u16 option" where
  "ctype_entry c = (if unat c < length ctype_array then Some (ctype_array ! unat c) else None)"

text \<open>The body the predicates share: look up the entry and test it against a mask.\<close>

definition ctype_test :: "u16 \<Rightarrow> u8 \<Rightarrow> int option" where
  "ctype_test bits c =
     (if \<not> is_ascii c then Some 0
      else do { e \<leftarrow> ctype_entry c; Some (if e AND bits \<noteq> 0 then 1 else 0) })"

definition isalnum :: "u8 \<Rightarrow> int option" where
  "isalnum = ctype_test (ALPHA_LOWER OR ALPHA_UPPER OR DIGIT)"

definition isalpha :: "u8 \<Rightarrow> int option" where
  "isalpha = ctype_test (ALPHA_LOWER OR ALPHA_UPPER)"

definition iscntrl :: "u8 \<Rightarrow> int option" where
  "iscntrl = ctype_test CNTRL"

definition isdigit :: "u8 \<Rightarrow> int option" where
  "isdigit = ctype_test DIGIT"

definition isgraph :: "u8 \<Rightarrow> int option" where
  "isgraph = ctype_test GRAPH"

definition islower :: "u8 \<Rightarrow> int option" where
  "islower = ctype_test ALPHA_LOWER"

definition isprint :: "u8 \<Rightarrow> int option" where
  "isprint = ctype_test PRINT"

definition ispunct :: "u8 \<Rightarrow> int option" where
  "ispunct = ctype_test PUNCT"

definition isspace :: "u8 \<Rightarrow> int option" where
  "isspace = ctype_test SPACE"

definition isupper :: "u8 \<Rightarrow> int option" where
  "isupper = ctype_test ALPHA_UPPER"

definition isxdigit :: "u8 \<Rightarrow> int option" where
  "isxdigit = ctype_test HEX_DIGIT"

definition tolower :: "u8 \<Rightarrow> int option" where
  "tolower c = do { u \<leftarrow> isupper c; Some (if u = 0 then uint c else uint c + 32) }"

definition toupper :: "u8 \<Rightarrow> int option" where
  "toupper c = do { l \<leftarrow> islower c; Some (if l = 0 then uint c else uint c - 32) }"

section \<open>The classes of ASCII\<close>

fun in_ranges :: "(nat \<times> nat) list \<Rightarrow> nat \<Rightarrow> bool" where
  "in_ranges [] n = False"
| "in_ranges ((a, b) # rs) n = (a \<le> n \<and> n \<le> b \<or> in_ranges rs n)"

text \<open>The entries of the table, bit by bit, are the classes of ASCII.\<close>

definition classes :: "(u16 \<times> (nat \<times> nat) list) list" where
  "classes =
     [(ALPHA_LOWER OR ALPHA_UPPER OR DIGIT, [(48, 57), (65, 90), (97, 122)]),
      (ALPHA_LOWER OR ALPHA_UPPER, [(65, 90), (97, 122)]),
      (CNTRL, [(0, 31), (127, 127)]),
      (DIGIT, [(48, 57)]),
      (GRAPH, [(33, 126)]),
      (ALPHA_LOWER, [(97, 122)]),
      (PRINT, [(32, 126)]),
      (PUNCT, [(33, 47), (58, 64), (91, 96), (123, 126)]),
      (SPACE, [(9, 13), (32, 32)]),
      (ALPHA_UPPER, [(65, 90)]),
      (HEX_DIGIT, [(48, 57), (65, 70), (97, 102)])]"

lemma length_ctype_array: "length ctype_array = 128"
  by (simp add: ctype_array_def)

lemma classes_exact:
  "list_all (\<lambda>(bits, rs). list_all (\<lambda>(n, e). (e AND bits \<noteq> 0) = in_ranges rs n)
     (zip [0..<128] ctype_array)) classes"
  by code_simp

lemma ctype_test_class:
  assumes "(bits, rs) \<in> set classes"
  shows "ctype_test bits c =
    (if unat c < 128 then Some (if in_ranges rs (unat c) then 1 else 0) else None)"
proof (cases "unat c < 128")
  case True
  then have "(unat c, ctype_array ! unat c) \<in> set (zip [0..<128] ctype_array)"
    by (auto simp: set_zip length_ctype_array intro!: exI [of _ "unat c"])
  then have "(ctype_array ! unat c AND bits \<noteq> 0) = in_ranges rs (unat c)"
    using classes_exact assms by (auto simp: list_all_iff)
  then show ?thesis
    using True by (simp add: ctype_test_def ctype_entry_def is_ascii_def length_ctype_array)
qed (simp add: ctype_test_def ctype_entry_def is_ascii_def length_ctype_array)

text \<open>What a predicate returns when it tests for a class.\<close>

definition class_result :: "(nat \<times> nat) list \<Rightarrow> u8 \<Rightarrow> int option" where
  "class_result rs c = (if unat c < 128 then Some (if in_ranges rs (unat c) then 1 else 0) else None)"

lemma class_tests:
  "isalnum c = class_result [(48, 57), (65, 90), (97, 122)] c"
  "isalpha c = class_result [(65, 90), (97, 122)] c"
  "iscntrl c = class_result [(0, 31), (127, 127)] c"
  "isdigit c = class_result [(48, 57)] c"
  "isgraph c = class_result [(33, 126)] c"
  "islower c = class_result [(97, 122)] c"
  "isprint c = class_result [(32, 126)] c"
  "ispunct c = class_result [(33, 47), (58, 64), (91, 96), (123, 126)] c"
  "isspace c = class_result [(9, 13), (32, 32)] c"
  "isupper c = class_result [(65, 90)] c"
  "isxdigit c = class_result [(48, 57), (65, 70), (97, 102)] c"
  unfolding isalnum_def isalpha_def iscntrl_def isdigit_def isgraph_def islower_def isprint_def
    ispunct_def isspace_def isupper_def isxdigit_def class_result_def
  by (rule ctype_test_class, simp add: classes_def)+

text \<open>C39: On the 128 characters of ASCII the predicates of \<open>ctype.c\<close> are the C library's classes,
  letters are converted between the cases and every other character is left alone; every function reads
  outside its table for a byte that is not ASCII.\<close>

theorem ctype_ascii:
  "(if unat c < 128 then
      isalpha c = Some (of_bool (in_ranges [(65, 90), (97, 122)] (unat c)))
      \<and> isdigit c = Some (of_bool (in_ranges [(48, 57)] (unat c)))
      \<and> isalnum c = Some (of_bool (isalpha c = Some 1 \<or> isdigit c = Some 1))
      \<and> isxdigit c = Some (of_bool (in_ranges [(48, 57), (65, 70), (97, 102)] (unat c)))
      \<and> isspace c = Some (of_bool (in_ranges [(9, 13), (32, 32)] (unat c)))
      \<and> iscntrl c = Some (of_bool (isprint c = Some 0))
      \<and> isprint c = Some (of_bool (in_ranges [(32, 126)] (unat c)))
      \<and> isgraph c = Some (of_bool (isprint c = Some 1 \<and> unat c \<noteq> 32))
      \<and> ispunct c = Some (of_bool (isgraph c = Some 1 \<and> isalnum c = Some 0))
      \<and> tolower c = Some (if isupper c = Some 1 then uint c + 32 else uint c)
      \<and> toupper c = Some (if islower c = Some 1 then uint c - 32 else uint c)
      \<and> isupper c = Some (of_bool (in_ranges [(65, 90)] (unat c)))
      \<and> islower c = Some (of_bool (in_ranges [(97, 122)] (unat c)))
    else isalpha c = None \<and> isdigit c = None \<and> isalnum c = None \<and> isxdigit c = None
      \<and> isspace c = None \<and> iscntrl c = None \<and> isprint c = None \<and> isgraph c = None \<and> ispunct c = None
      \<and> tolower c = None \<and> toupper c = None \<and> isupper c = None \<and> islower c = None)"
  by (auto simp: class_tests class_result_def tolower_def toupper_def)

end
