(* ===== verification/Units.thy ===== *)
theory Units
  imports Prelude
begin

text \<open>
  \<open>lib/size.h\<close>, \<open>lib/size.c\<close>, \<open>lib/freq.h\<close> and \<open>lib/freq.c\<close>: the units in which sizes and
  frequencies are printed.  The enumerators are 64-bit numbers, and \<open>verify_not_reached\<close> is
  \<^const>\<open>None\<close>.
\<close>

section \<open>Definitions\<close>

definition kib :: "u64 \<Rightarrow> u64" where "kib amount = 2 ^ 10 * amount"
definition mib :: "u64 \<Rightarrow> u64" where "mib amount = 2 ^ 20 * amount"
definition gib :: "u64 \<Rightarrow> u64" where "gib amount = 2 ^ 30 * amount"
definition tib :: "u64 \<Rightarrow> u64" where "tib amount = 2 ^ 40 * amount"
definition pib :: "u64 \<Rightarrow> u64" where "pib amount = 2 ^ 50 * amount"
definition eib :: "u64 \<Rightarrow> u64" where "eib amount = 2 ^ 60 * amount"

definition khz :: "u64 \<Rightarrow> u64" where "khz amount = 1000 * amount"
definition mhz :: "u64 \<Rightarrow> u64" where "mhz amount = khz 1000 * amount"
definition ghz :: "u64 \<Rightarrow> u64" where "ghz amount = mhz 1000 * amount"
definition thz :: "u64 \<Rightarrow> u64" where "thz amount = ghz 1000 * amount"
definition phz :: "u64 \<Rightarrow> u64" where "phz amount = thz 1000 * amount"
definition ehz :: "u64 \<Rightarrow> u64" where "ehz amount = phz 1000 * amount"

definition UNIT_KIND_BYTE :: u64 where "UNIT_KIND_BYTE = 1"
definition UNIT_KIND_KIB :: u64 where "UNIT_KIND_KIB = kib 1"
definition UNIT_KIND_MIB :: u64 where "UNIT_KIND_MIB = mib 1"
definition UNIT_KIND_GIB :: u64 where "UNIT_KIND_GIB = gib 1"
definition UNIT_KIND_TIB :: u64 where "UNIT_KIND_TIB = tib 1"
definition UNIT_KIND_PIB :: u64 where "UNIT_KIND_PIB = pib 1"
definition UNIT_KIND_EIB :: u64 where "UNIT_KIND_EIB = eib 1"

definition FREQ_UNIT_KIND_HZ :: u64 where "FREQ_UNIT_KIND_HZ = 1"
definition FREQ_UNIT_KIND_KHZ :: u64 where "FREQ_UNIT_KIND_KHZ = khz 1"
definition FREQ_UNIT_KIND_MHZ :: u64 where "FREQ_UNIT_KIND_MHZ = mhz 1"
definition FREQ_UNIT_KIND_GHZ :: u64 where "FREQ_UNIT_KIND_GHZ = ghz 1"
definition FREQ_UNIT_KIND_THZ :: u64 where "FREQ_UNIT_KIND_THZ = thz 1"
definition FREQ_UNIT_KIND_PHZ :: u64 where "FREQ_UNIT_KIND_PHZ = phz 1"
definition FREQ_UNIT_KIND_EHZ :: u64 where "FREQ_UNIT_KIND_EHZ = ehz 1"

definition size_units_to_sv :: "u64 \<Rightarrow> string option" where
  "size_units_to_sv kind =
     (if kind = UNIT_KIND_BYTE then Some ''Byte''
      else if kind = UNIT_KIND_KIB then Some ''Kibibyte''
      else if kind = UNIT_KIND_MIB then Some ''Mebibyte''
      else if kind = UNIT_KIND_GIB then Some ''Gibibyte''
      else if kind = UNIT_KIND_TIB then Some ''Tebibyte''
      else if kind = UNIT_KIND_PIB then Some ''Pebibyte''
      else if kind = UNIT_KIND_EIB then Some ''Exbiibyte''
      else None)"

definition size_units_to_sv_abbrev :: "u64 \<Rightarrow> string option" where
  "size_units_to_sv_abbrev kind =
     (if kind = UNIT_KIND_BYTE then Some ''Byte''
      else if kind = UNIT_KIND_KIB then Some ''Kib''
      else if kind = UNIT_KIND_MIB then Some ''Mib''
      else if kind = UNIT_KIND_GIB then Some ''Gib''
      else if kind = UNIT_KIND_TIB then Some ''Tib''
      else if kind = UNIT_KIND_PIB then Some ''Pib''
      else if kind = UNIT_KIND_EIB then Some ''Eib''
      else None)"

function size_to_units_loop :: "u64 \<Rightarrow> u64 \<Rightarrow> u64" where
  "size_to_units_loop amount kind =
     (if kib 1 \<le> amount then size_to_units_loop (amount div kib 1) (kind * kib 1) else kind)"
  by auto
termination size_to_units_loop
  by (relation "measure (unat \<circ> fst)") (auto simp: kib_def word_le_nat_alt unat_div)

definition size_to_units :: "u64 \<Rightarrow> u64" where
  "size_to_units amount = size_to_units_loop amount UNIT_KIND_BYTE"

definition freq_units_to_sv :: "u64 \<Rightarrow> string option" where
  "freq_units_to_sv kind =
     (if kind = FREQ_UNIT_KIND_HZ then Some ''Hertz''
      else if kind = FREQ_UNIT_KIND_KHZ then Some ''Kilohertz''
      else if kind = FREQ_UNIT_KIND_MHZ then Some ''Megahertz''
      else if kind = FREQ_UNIT_KIND_GHZ then Some ''Gigahertz''
      else if kind = FREQ_UNIT_KIND_THZ then Some ''Terahertz''
      else if kind = FREQ_UNIT_KIND_PHZ then Some ''Petahertz''
      else if kind = FREQ_UNIT_KIND_EHZ then Some ''Exahertz''
      else None)"

definition freq_units_to_sv_abbrev :: "u64 \<Rightarrow> string option" where
  "freq_units_to_sv_abbrev kind =
     (if kind = FREQ_UNIT_KIND_HZ then Some ''Hz''
      else if kind = FREQ_UNIT_KIND_KHZ then Some ''KHz''
      else if kind = FREQ_UNIT_KIND_MHZ then Some ''MHz''
      else if kind = FREQ_UNIT_KIND_GHZ then Some ''GHz''
      else if kind = FREQ_UNIT_KIND_THZ then Some ''THz''
      else if kind = FREQ_UNIT_KIND_PHZ then Some ''PHz''
      else if kind = FREQ_UNIT_KIND_EHZ then Some ''EHz''
      else None)"

function freq_to_units_loop :: "u64 \<Rightarrow> u64 \<Rightarrow> u64" where
  "freq_to_units_loop amount kind =
     (if khz 1 \<le> amount then freq_to_units_loop (amount div khz 1) (kind * khz 1) else kind)"
  by auto
termination freq_to_units_loop
  by (relation "measure (unat \<circ> fst)") (auto simp: khz_def word_le_nat_alt unat_div)

definition freq_to_units :: "u64 \<Rightarrow> u64" where
  "freq_to_units amount = freq_to_units_loop amount FREQ_UNIT_KIND_HZ"

declare size_to_units_loop.simps [simp del] freq_to_units_loop.simps [simp del]

lemmas unit_kinds = UNIT_KIND_BYTE_def UNIT_KIND_KIB_def UNIT_KIND_MIB_def UNIT_KIND_GIB_def
  UNIT_KIND_TIB_def UNIT_KIND_PIB_def UNIT_KIND_EIB_def kib_def mib_def gib_def tib_def pib_def eib_def

lemmas freq_kinds = FREQ_UNIT_KIND_HZ_def FREQ_UNIT_KIND_KHZ_def FREQ_UNIT_KIND_MHZ_def
  FREQ_UNIT_KIND_GHZ_def FREQ_UNIT_KIND_THZ_def FREQ_UNIT_KIND_PHZ_def FREQ_UNIT_KIND_EHZ_def
  khz_def mhz_def ghz_def thz_def phz_def ehz_def

section \<open>The loop over the units\<close>

text \<open>What both loops do, for their own base.\<close>

locale unit_loop =
  fixes base :: u64 and loop :: "u64 \<Rightarrow> u64 \<Rightarrow> u64"
  assumes loop_unfold: "loop s kind = (if base \<le> s then loop (s div base) (kind * base) else kind)"
    and base_min: "1000 \<le> unat base"
begin

lemma loop_exact:
  "\<exists>k. loop s kind = kind * base ^ k \<and> (unat s = 0 \<or> unat base ^ k \<le> unat s) \<and> unat s < unat base ^ Suc k"
proof (induction "unat s" arbitrary: s kind rule: less_induct)
  case less
  show ?case
  proof (cases "base \<le> s")
    case False
    then have "loop s kind = kind * base ^ 0" "unat s < unat base"
      by (simp_all add: loop_unfold [of s] word_le_nat_alt)
    then show ?thesis
      by (intro exI [of _ 0]) (simp, arith)
  next
    case True
    let ?d = "unat s div unat base"
    have d: "unat (s div base) = ?d" and le: "unat base \<le> unat s"
      using True by (simp_all add: unat_div word_le_nat_alt)
    have pos: "0 < ?d"
      using le base_min by (simp add: div_greater_zero_iff)
    have "unat (s div base) < unat s"
      using d base_min le by simp
    then obtain k where k: "loop (s div base) (kind * base) = kind * base * base ^ k"
        "unat base ^ k \<le> ?d" "?d < unat base ^ Suc k"
      using less [of "s div base" "kind * base"] d pos by auto
    have "unat base ^ k * unat base \<le> unat s"
      using k(2) base_min by (simp add: less_eq_div_iff_mult_less_eq)
    moreover have "unat s < unat base ^ Suc k * unat base"
      using k(3) base_min by (simp add: div_less_iff_less_mult)
    moreover have "loop s kind = kind * base ^ Suc k"
      using True k(1) by (simp add: loop_unfold [of s] ac_simps)
    ultimately show ?thesis
      by (intro exI [of _ "Suc k"]) (simp add: ac_simps)
  qed
qed

lemma loop_unit:
  obtains k where "k \<le> 6" and "loop s 1 = base ^ k" and "unat (loop s 1) = unat base ^ k"
    and "unat s = 0 \<or> unat base ^ k \<le> unat s" and "unat s < unat base ^ Suc k"
proof -
  obtain k where k: "loop s 1 = base ^ k" "unat s = 0 \<or> unat base ^ k \<le> unat s"
      "unat s < unat base ^ Suc k"
    using loop_exact [of s 1] by auto
  show thesis
  proof (cases "unat s = 0")
    case True
    then have "s = 0"
      by (simp add: unat_eq_0)
    moreover have "\<not> base \<le> 0"
      using base_min by (simp add: word_le_nat_alt)
    ultimately have "loop s 1 = base ^ 0"
      by (simp add: loop_unfold [of 0])
    then show thesis
      using that [of 0] True base_min by simp
  next
    case False
    then have le: "unat base ^ k < 2 ^ 64"
      using k(2) unat_lt_64 [of s] by (simp del: unat_lt_64)
    have "(1000 :: nat) ^ k \<le> unat base ^ k"
      using base_min by (rule power_mono) simp
    then have "(1000 :: nat) ^ k < 1000 ^ 7"
      using le by simp
    then have "k \<le> 6"
      using power_less_imp_less_exp [of "1000 :: nat" k 7] by simp
    moreover have "unat (base ^ k) = unat base ^ k"
      using unat_of_nat_no_wrap [where 'a = 64, of "unat base ^ k"] le by (simp add: of_nat_power)
    ultimately show thesis
      using that k by simp
  qed
qed

end

interpretation size_loop: unit_loop "kib 1" size_to_units_loop
  by unfold_locales (simp_all add: kib_def size_to_units_loop.simps)

interpretation freq_loop: unit_loop "khz 1" freq_to_units_loop
  by unfold_locales (simp_all add: khz_def freq_to_units_loop.simps)

text \<open>The names of the units, by their rank.\<close>

definition size_names :: "string list" where
  "size_names = [''Byte'', ''Kibibyte'', ''Mebibyte'', ''Gibibyte'', ''Tebibyte'', ''Pebibyte'', ''Exbiibyte'']"

definition freq_names :: "string list" where
  "freq_names = [''Hertz'', ''Kilohertz'', ''Megahertz'', ''Gigahertz'', ''Terahertz'', ''Petahertz'', ''Exahertz'']"

lemma le_6_cases: "(k :: nat) \<le> 6 \<Longrightarrow> k = 0 \<or> k = 1 \<or> k = 2 \<or> k = 3 \<or> k = 4 \<or> k = 5 \<or> k = 6"
  by arith

lemma size_names_kind:
  assumes "k \<le> 6"
  shows "size_units_to_sv (kib 1 ^ k) = Some (size_names ! k)"
  using le_6_cases [OF assms]
  by (elim disjE) (simp_all add: size_units_to_sv_def size_names_def unit_kinds)

lemma freq_names_kind:
  assumes "k \<le> 6"
  shows "freq_units_to_sv (khz 1 ^ k) = Some (freq_names ! k)"
  using le_6_cases [OF assms]
  by (elim disjE) (simp_all add: freq_units_to_sv_def freq_names_def freq_kinds)

lemma abbrev_named:
  assumes "k \<le> 6"
  shows "size_units_to_sv_abbrev (kib 1 ^ k) \<noteq> None" and "freq_units_to_sv_abbrev (khz 1 ^ k) \<noteq> None"
  using le_6_cases [OF assms]
  by (auto simp: size_units_to_sv_abbrev_def freq_units_to_sv_abbrev_def unit_kinds freq_kinds)

text \<open>C38: \<open>size_to_units\<close> and \<open>freq_to_units\<close> always return an enumerator of their type, so printing
  its name never fails: the largest power of 1024 or of 1000 that is not above the number, and the unit
  itself for 0.\<close>

theorem units_well_typed:
  "(\<exists>k \<le> 6. unat (size_to_units s) = 1024 ^ k \<and> (unat s = 0 \<or> 1024 ^ k \<le> unat s) \<and> unat s < 1024 ^ Suc k
      \<and> size_units_to_sv (size_to_units s) = Some (size_names ! k)
      \<and> size_units_to_sv_abbrev (size_to_units s) \<noteq> None)
   \<and> (\<exists>k \<le> 6. unat (freq_to_units s) = 1000 ^ k \<and> (unat s = 0 \<or> 1000 ^ k \<le> unat s) \<and> unat s < 1000 ^ Suc k
      \<and> freq_units_to_sv (freq_to_units s) = Some (freq_names ! k)
      \<and> freq_units_to_sv_abbrev (freq_to_units s) \<noteq> None)"
proof
  have b: "unat (kib 1) = 1024" "unat (khz 1) = 1000"
    by (simp_all add: kib_def khz_def)
  obtain k where "k \<le> 6" "size_to_units s = kib 1 ^ k" "unat (size_to_units s) = 1024 ^ k"
      "unat s = 0 \<or> 1024 ^ k \<le> unat s" "unat s < 1024 ^ Suc k"
    using size_loop.loop_unit [of s] by (auto simp only: size_to_units_def UNIT_KIND_BYTE_def b)
  then show "\<exists>k \<le> 6. unat (size_to_units s) = 1024 ^ k \<and> (unat s = 0 \<or> 1024 ^ k \<le> unat s) \<and> unat s < 1024 ^ Suc k
      \<and> size_units_to_sv (size_to_units s) = Some (size_names ! k)
      \<and> size_units_to_sv_abbrev (size_to_units s) \<noteq> None"
    using size_names_kind abbrev_named(1) by metis
  obtain k where "k \<le> 6" "freq_to_units s = khz 1 ^ k" "unat (freq_to_units s) = 1000 ^ k"
      "unat s = 0 \<or> 1000 ^ k \<le> unat s" "unat s < 1000 ^ Suc k"
    using freq_loop.loop_unit [of s] by (auto simp only: freq_to_units_def FREQ_UNIT_KIND_HZ_def b)
  then show "\<exists>k \<le> 6. unat (freq_to_units s) = 1000 ^ k \<and> (unat s = 0 \<or> 1000 ^ k \<le> unat s) \<and> unat s < 1000 ^ Suc k
      \<and> freq_units_to_sv (freq_to_units s) = Some (freq_names ! k)
      \<and> freq_units_to_sv_abbrev (freq_to_units s) \<noteq> None"
    using freq_names_kind abbrev_named(2) by metis
qed

end
