(* ===== verification/Pages.thy ===== *)
theory Pages
  imports Ranges Lists Refcounts Stdlib
begin

text \<open>
  \<open>mm/page.h\<close>, \<open>mm/page.c\<close>, \<open>mm/section.h\<close>, \<open>mm/section.c\<close>, \<open>mm/zone.h\<close> and \<open>mm/hhdm.c\<close>: the
  descriptors of physical pages, the sections of memory they belong to and the conversions between
  pages, physical and virtual addresses.

  A pointer to a \<open>struct page\<close> is the address of the descriptor in the array that starts at
  \<open>PAGE_OFFSET\<close>; \<open>page_ptr\<close> and \<open>page_index\<close> convert between the address and the number of the descriptor
  in the array, under which the model keeps its fields.  The members of the union in \<open>struct page\<close>
  are fields of their own, except that members at the same offset and of the same type share a field;
  \<open>state\<close> says which of them is in use.  Orders and page counts are naturals, the statistics keep
  their width.
\<close>

section \<open>Definitions\<close>

datatype page_state =
    PAGE_STATE_IN_FREE_LIST | PAGE_STATE_FREE_LIST_HEAD | PAGE_STATE_FREE_LIST_TAIL
  | PAGE_STATE_SYSTEM_CRUCIAL | PAGE_STATE_LRU_CACHE | PAGE_STATE_SLAB_HEAD | PAGE_STATE_SLAB_TAIL
  | PAGE_STATE_TABLE | PAGE_STATE_LARGE_HEAD | PAGE_STATE_LARGE_TAIL | PAGE_STATE_KERNEL_STACK
  | PAGE_STATE_USER_STACK | PAGE_STATE_USED

definition MAX_ORDER :: "arch \<Rightarrow> nat" where
  "MAX_ORDER a = (if a = X86_64 then 21 else 31)"

text \<open>\<open>struct page_section\<close>: \<open>fl_count\<close> are the \<open>count\<close> fields of \<open>freelist_list\<close>.\<close>

record page_section =
  sec_zone :: nat
  sec_range :: range
  sec_pfn :: u64
  fl_count :: "nat \<Rightarrow> u64"
  min_order :: nat
  max_order :: nat
  sec_total_free :: u64

text \<open>The numbers of the list links: \<open>link0\<close> is a link at the start of the union in \<open>struct page\<close>
  (\<open>freelist_head.freelist\<close>, \<open>kernel_stack.list\<close>), \<open>link8\<close> one at offset 8 (\<open>slab.head.slab_list\<close>,
  \<open>user_stack.list\<close> and the lists for a delayed free), \<open>freelist_link\<close> the head of the free list of an
  order in a section, \<open>other_link\<close> the head of a list outside the descriptors.\<close>

definition link0 :: "nat \<Rightarrow> nat" where "link0 p = 4 * p"
definition link8 :: "nat \<Rightarrow> nat" where "link8 p = 4 * p + 1"
definition freelist_link :: "nat \<Rightarrow> nat \<Rightarrow> nat" where "freelist_link s order = 4 * (32 * s + order) + 2"
definition other_link :: "nat \<Rightarrow> nat" where "other_link k = 4 * k + 3"

definition page_of_link0 :: "nat \<Rightarrow> nat" where "page_of_link0 x = x div 4"

text \<open>The state of the page allocator: the descriptors of the pages, the sections, the zones, which
  list their sections and name the zone to fall back to, and memory.  \<open>level_order\<close> is the order of a
  large page of a level (\<open>largepage_level_info_list\<close>).  \<open>pg_refcount\<close> is the reference
  count at the start of the union (\<open>used\<close>, \<open>table\<close>, \<open>largetail\<close>, \<open>largehead.page_refcount\<close>).\<close>

record page_world =
  arch_of :: arch
  links :: list_heap
  pg_state :: "nat \<Rightarrow> page_state"
  pg_section :: "nat \<Rightarrow> nat"
  fl_order :: "nat \<Rightarrow> nat"
  fl_tail_head :: "nat \<Rightarrow> nat"
  slab_tail_head :: "nat \<Rightarrow> nat"
  large_tail_head :: "nat \<Rightarrow> nat"
  pg_refcount :: "nat \<Rightarrow> refcount"
  large_refcount :: "nat \<Rightarrow> refcount"
  large_level :: "nat \<Rightarrow> nat"
  stack_process :: "nat \<Rightarrow> nat"
  level_order :: "nat \<Rightarrow> nat"
  sections :: "page_section list"
  zone_free :: "nat \<Rightarrow> u64"
  zone_sections :: "nat \<Rightarrow> nat list"
  fallback_zone :: "nat \<Rightarrow> nat option"
  zone_default :: nat
  HHDM_OFFSET :: u64
  PAGE_END :: u64
  pmem :: mem

definition PAGE_COUNT :: "u64 \<Rightarrow> u64" where
  "PAGE_COUNT sz = drop_bit PAGE_SHIFT sz"

definition SIZEOF_STRUCTPAGE :: u64 where
  "SIZEOF_STRUCTPAGE = 8 * 5"

definition PAGE_OFFSET :: "arch \<Rightarrow> u64" where
  "PAGE_OFFSET a = (if a = Riscv64 then 0xffffffd000000000 else 0xffffc00000000000)"

text \<open>The address of the descriptor with a number, and the number of the descriptor at an address.\<close>

definition page_ptr :: "nat \<Rightarrow> page_world \<Rightarrow> u64" where
  "page_ptr p w = PAGE_OFFSET (arch_of w) + SIZEOF_STRUCTPAGE * of_nat p"

definition page_index :: "u64 \<Rightarrow> page_world \<Rightarrow> nat" where
  "page_index page w = unat ((page - PAGE_OFFSET (arch_of w)) div SIZEOF_STRUCTPAGE)"

definition verify_page_pointer :: "u64 \<Rightarrow> page_world \<Rightarrow> bool" where
  "verify_page_pointer p w \<longleftrightarrow>
     PAGE_OFFSET (arch_of w) \<le> p \<and> p < PAGE_END w \<and> (p - PAGE_OFFSET (arch_of w)) mod SIZEOF_STRUCTPAGE = 0"

definition pfn_to_page :: "u64 \<Rightarrow> page_world \<Rightarrow> u64 option" where
  "pfn_to_page pfn w =
     do { offset \<leftarrow> check_mul_assert SIZEOF_STRUCTPAGE pfn;
          let page = PAGE_OFFSET (arch_of w) + offset;
          assert_that (verify_page_pointer page w);
          Some page }"

definition page_to_pfn :: "u64 \<Rightarrow> page_world \<Rightarrow> u64 option" where
  "page_to_pfn page w =
     do { assert_that (verify_page_pointer page w);
          offset \<leftarrow> check_sub_assert page (PAGE_OFFSET (arch_of w));
          Some (offset div SIZEOF_STRUCTPAGE) }"

definition page_set_state :: "nat \<Rightarrow> page_state \<Rightarrow> page_world \<Rightarrow> page_world" where
  "page_set_state page st w = w\<lparr>pg_state := (pg_state w)(page := st)\<rparr>"

text \<open>Access to an element of \<open>mm_page_section_list\<close>.\<close>

definition get_section :: "nat \<Rightarrow> page_world \<Rightarrow> page_section option" where
  "get_section s w = (if s < length (sections w) then Some (sections w ! s) else None)"

definition set_section :: "nat \<Rightarrow> page_section \<Rightarrow> page_world \<Rightarrow> page_world" where
  "set_section s sec w = w\<lparr>sections := (sections w)[s := sec]\<rparr>"

fun init_freelists :: "nat \<Rightarrow> nat \<Rightarrow> list_heap \<Rightarrow> list_heap" where
  "init_freelists s 0 l = l"
| "init_freelists s (Suc i) l = list_init (freelist_link s i) (init_freelists s i l)"

definition page_section_init :: "nat \<Rightarrow> nat \<Rightarrow> range \<Rightarrow> u64 \<Rightarrow> page_world \<Rightarrow> page_world" where
  "page_section_init s zone r pfn w =
     (set_section s
        \<lparr>sec_zone = zone, sec_range = r, sec_pfn = pfn, fl_count = (\<lambda>i. 0),
         min_order = MAX_ORDER (arch_of w), max_order = 0, sec_total_free = 0\<rparr> w)
     \<lparr>links := init_freelists s (MAX_ORDER (arch_of w)) (links w)\<rparr>"

text \<open>\<open>page_to_section\<close> returns the index of the section.\<close>

definition page_to_section :: "nat \<Rightarrow> page_world \<Rightarrow> nat option" where
  "page_to_section page w =
     do { assert_that (pg_section w page \<noteq> 0); Some (pg_section w page - 1) }"

definition page_to_zone :: "nat \<Rightarrow> page_world \<Rightarrow> nat option" where
  "page_to_zone page w =
     do { s \<leftarrow> page_to_section page w; sec \<leftarrow> get_section s w; Some (sec_zone sec) }"

text \<open>The loops over \<open>mm_page_section_list\<close>: the index of the first section that satisfies a
  condition.\<close>

fun find_section :: "(page_section \<Rightarrow> bool) \<Rightarrow> page_section list \<Rightarrow> nat option" where
  "find_section P [] = None"
| "find_section P (sec # secs) = (if P sec then Some 0 else map_option Suc (find_section P secs))"

definition phys_to_section :: "u64 \<Rightarrow> page_world \<Rightarrow> nat option" where
  "phys_to_section phys w = find_section (\<lambda>sec. range_has_loc (sec_range sec) phys) (sections w)"

definition pfn_to_section :: "u64 \<Rightarrow> page_world \<Rightarrow> nat option" where
  "pfn_to_section pfn w =
     find_section (\<lambda>sec. range_has_loc (RANGE_INIT pfn (PAGE_COUNT (rfront (sec_range sec)))) pfn)
       (sections w)"

definition phys_to_pfn :: "u64 \<Rightarrow> page_world \<Rightarrow> u64 option" where
  "phys_to_pfn phys w =
     do { s \<leftarrow> find_section (\<lambda>sec. range_has_loc (sec_range sec) phys) (sections w);
          sec \<leftarrow> get_section s w;
          Some (sec_pfn sec + PAGE_COUNT (phys - rfront (sec_range sec))) }"

definition page_to_phys :: "u64 \<Rightarrow> page_world \<Rightarrow> u64 option" where
  "page_to_phys page w =
     do { assert_that (PAGE_OFFSET (arch_of w) \<le> page \<and> page < PAGE_END w);
          s \<leftarrow> page_to_section (page_index page w) w;
          sec \<leftarrow> get_section s w;
          page_pfn \<leftarrow> page_to_pfn page w;
          relative_pfn \<leftarrow> check_sub_assert page_pfn (sec_pfn sec);
          Some (rfront (sec_range sec) + push_bit PAGE_SHIFT relative_pfn) }"

definition pfn_to_phys_manual :: "u64 \<Rightarrow> page_world \<Rightarrow> u64 option" where
  "pfn_to_phys_manual pfn w =
     (let pfn_range = \<lambda>sec. RANGE_INIT (sec_pfn sec)
            (PAGE_COUNT (drop_bit PAGE_SHIFT (rsize (sec_range sec))))
      in do { s \<leftarrow> find_section (\<lambda>sec. range_has_loc (pfn_range sec) pfn) (sections w);
              sec \<leftarrow> get_section s w;
              index \<leftarrow> range_index_for_loc (pfn_range sec) pfn;
              Some (rfront (sec_range sec) + push_bit PAGE_SHIFT index) })"

definition phys_to_virt :: "u64 \<Rightarrow> page_world \<Rightarrow> u64 option" where
  "phys_to_virt phys w =
     do { assert_that (PAGE_SIZE \<le> phys); check_add_assert (HHDM_OFFSET w) phys }"

definition virt_to_phys :: "u64 \<Rightarrow> page_world \<Rightarrow> u64 option" where
  "virt_to_phys virt w =
     do { assert_that (HHDM_OFFSET w \<le> virt); Some (virt - HHDM_OFFSET w) }"

definition page_to_virt :: "u64 \<Rightarrow> page_world \<Rightarrow> u64 option" where
  "page_to_virt page w =
     do { assert_that (verify_page_pointer page w); phys \<leftarrow> page_to_phys page w; phys_to_virt phys w }"

definition virt_to_pfn :: "u64 \<Rightarrow> page_world \<Rightarrow> u64 option" where
  "virt_to_pfn virt w = do { phys \<leftarrow> virt_to_phys virt w; phys_to_pfn phys w }"

definition virt_to_page :: "u64 \<Rightarrow> page_world \<Rightarrow> u64 option" where
  "virt_to_page virt w = do { pfn \<leftarrow> virt_to_pfn virt w; pfn_to_page pfn w }"

text \<open>\<open>zero_multiple_pages\<close>: the stores of the portable loop, which the instructions of the other
  architectures (\<open>rep stosq\<close>, \<open>setp\<close>, \<open>cbo.zero\<close>) perform too.\<close>

definition zero_multiple_pages :: "u64 \<Rightarrow> nat \<Rightarrow> mem \<Rightarrow> mem option" where
  "zero_multiple_pages page count m =
     do { full_size \<leftarrow> check_mul_assert PAGE_SIZE (of_nat count);
          Some (fst (fill_loop U64 0 m page (unat full_size))) }"

definition zero_page :: "u64 \<Rightarrow> mem \<Rightarrow> mem" where
  "zero_page page m = fst (fill_loop U64 0 m page (unat PAGE_SIZE))"


section \<open>Well-formed sections\<close>

definition sec_pages :: "page_section \<Rightarrow> nat set" where
  "sec_pages sec = {unat (sec_pfn sec) ..< unat (sec_pfn sec) + unat (rsize (sec_range sec)) div 4096}"

text \<open>The virtual address of the first byte of a section.\<close>

definition sec_virt :: "page_world \<Rightarrow> page_section \<Rightarrow> nat" where
  "sec_virt w sec = unat (HHDM_OFFSET w) + unat (rfront (sec_range sec))"

text \<open>Sections lie above the first page and in the direct map, without overlap; the descriptors of
  their pages name them and lie between \<open>PAGE_OFFSET\<close> and \<open>PAGE_END\<close>.\<close>

definition wf_sections :: "page_world \<Rightarrow> bool" where
  "wf_sections w \<longleftrightarrow>
     (\<forall>s < length (sections w). let sec = sections w ! s in
        4096 \<le> unat (rfront (sec_range sec))
        \<and> sec_virt w sec + unat (rsize (sec_range sec)) \<le> 2 ^ 64
        \<and> (\<forall>p \<in> sec_pages sec. pg_section w p = Suc s)
        \<and> (\<forall>i < s. \<forall>loc. \<not> (range_has_loc (sec_range (sections w ! i)) loc \<and> range_has_loc (sec_range sec) loc))
        \<and> unat (PAGE_OFFSET (arch_of w)) + 40 * (unat (sec_pfn sec) + unat (rsize (sec_range sec)) div 4096)
            \<le> unat (PAGE_END w))"

lemma wf_sectionsD:
  assumes "wf_sections w" and "s < length (sections w)" and "sec = sections w ! s"
  shows "4096 \<le> unat (rfront (sec_range sec))"
    and "sec_virt w sec + unat (rsize (sec_range sec)) \<le> 2 ^ 64"
    and "p \<in> sec_pages sec \<Longrightarrow> pg_section w p = Suc s"
    and "i < s \<Longrightarrow> range_has_loc (sec_range sec) loc \<Longrightarrow> \<not> range_has_loc (sec_range (sections w ! i)) loc"
    and "unat (PAGE_OFFSET (arch_of w)) + 40 * (unat (sec_pfn sec) + unat (rsize (sec_range sec)) div 4096)
      \<le> unat (PAGE_END w)"
  using assms unfolding wf_sections_def Let_def by blast+

lemma get_section_nth: "s < length (sections w) \<Longrightarrow> get_section s w = Some (sections w ! s)"
  by (simp add: get_section_def)

lemma find_section_first:
  assumes "s < length secs" and "P (secs ! s)" and "\<And>i. i < s \<Longrightarrow> \<not> P (secs ! i)"
  shows "find_section P secs = Some s"
  using assms
proof (induction secs arbitrary: s)
  case (Cons sec secs)
  show ?case
  proof (cases s)
    case (Suc s')
    have "\<not> P sec"
      using Cons.prems(3) [of 0] Suc by simp
    moreover have "\<not> P (secs ! i)" if "i < s'" for i
      using Cons.prems(3) [of "Suc i"] Suc that by simp
    ultimately show ?thesis
      using Cons.IH [of s'] Cons.prems(1,2) Suc by simp
  qed (use Cons.prems in simp)
qed simp

section \<open>Addresses of pages\<close>

lemma page_to_section_sec:
  assumes "wf_sections w" and "s < length (sections w)" and "p \<in> sec_pages (sections w ! s)"
  shows "page_to_section p w = Some s"
  using wf_sectionsD(3) [OF assms(1,2) refl assms(3)] by (simp add: page_to_section_def)

lemma page_offset_bound:
  assumes "p \<in> sec_pages sec"
  shows "unat (sec_pfn sec) \<le> p" and "(p - unat (sec_pfn sec)) * 4096 + 4096 \<le> unat (rsize (sec_range sec))"
proof -
  show "unat (sec_pfn sec) \<le> p"
    using assms by (simp add: sec_pages_def)
  have "Suc (p - unat (sec_pfn sec)) \<le> unat (rsize (sec_range sec)) div 4096"
    using assms by (auto simp: sec_pages_def)
  then have "Suc (p - unat (sec_pfn sec)) * 4096 \<le> unat (rsize (sec_range sec)) div 4096 * 4096"
    by (rule mult_le_mono1)
  also have "\<dots> \<le> unat (rsize (sec_range sec))"
    by (rule div_times_less_eq_dividend)
  finally show "(p - unat (sec_pfn sec)) * 4096 + 4096 \<le> unat (rsize (sec_range sec))"
    by simp
qed

text \<open>The pointers to the descriptors of a section pass the checks.\<close>

lemma page_ptr_exact:
  assumes "wf_sections w" and "s < length (sections w)" and "p \<in> sec_pages (sections w ! s)"
  shows "unat (page_ptr p w - PAGE_OFFSET (arch_of w)) = 40 * p" and "PAGE_OFFSET (arch_of w) \<le> page_ptr p w"
    and "page_ptr p w < PAGE_END w" and "40 * p < 2 ^ 64" and "unat (of_nat p :: u64) = p"
proof -
  let ?o = "PAGE_OFFSET (arch_of w)"
  obtain n where "p < n" "unat ?o + 40 * n \<le> unat (PAGE_END w)"
    using wf_sectionsD(5) [OF assms(1,2) refl] assms(3) by (auto simp: sec_pages_def)
  then have lt: "unat ?o + 40 * p < unat (PAGE_END w)"
    by linarith
  then have fits: "unat ?o + 40 * p < 2 ^ 64"
    by (rule order_less_trans) (rule order_less_le_trans [OF unsigned_less], simp)
  then show b: "40 * p < 2 ^ 64"
    by linarith
  show p: "unat (of_nat p :: u64) = p"
    by (rule unat_of_nat_no_wrap) (use b in simp)
  have off: "unat (SIZEOF_STRUCTPAGE * of_nat p) = 40 * p"
    using b p unat_mult_lem [of SIZEOF_STRUCTPAGE "of_nat p"] by (simp add: SIZEOF_STRUCTPAGE_def)
  then have ptr: "unat (page_ptr p w) = unat ?o + 40 * p"
    using fits by (simp add: page_ptr_def unat_add_no_wrap)
  show "unat (page_ptr p w - ?o) = 40 * p"
    using off by (simp add: page_ptr_def)
  show "?o \<le> page_ptr p w" "page_ptr p w < PAGE_END w"
    using ptr lt by (simp_all add: word_le_nat_alt word_less_nat_alt)
qed

lemma page_ptr_checks:
  assumes "wf_sections w" and "s < length (sections w)" and "p \<in> sec_pages (sections w ! s)"
  shows "verify_page_pointer (page_ptr p w) w" and "page_index (page_ptr p w) w = p"
    and "page_to_pfn (page_ptr p w) w = Some (of_nat p)" and "pfn_to_page (of_nat p) w = Some (page_ptr p w)"
proof -
  note e = page_ptr_exact [OF assms]
  have sz: "unat SIZEOF_STRUCTPAGE = 40"
    by (simp add: SIZEOF_STRUCTPAGE_def)
  have "unat ((page_ptr p w - PAGE_OFFSET (arch_of w)) mod SIZEOF_STRUCTPAGE) = 0"
    using e(1) sz by (simp add: unat_mod)
  then show v: "verify_page_pointer (page_ptr p w) w"
    using e(2,3) by (simp add: verify_page_pointer_def unat_eq_zero)
  have d: "unat ((page_ptr p w - PAGE_OFFSET (arch_of w)) div SIZEOF_STRUCTPAGE) = p"
    using e(1) sz by (simp add: unat_div)
  then show "page_index (page_ptr p w) w = p"
    by (simp add: page_index_def)
  have "(page_ptr p w - PAGE_OFFSET (arch_of w)) div SIZEOF_STRUCTPAGE = of_nat p"
    using d e(5) by (simp add: word_unat_eq_iff)
  then show "page_to_pfn (page_ptr p w) w = Some (of_nat p)"
    using v e(2) by (simp add: page_to_pfn_def check_sub_assert_def check_sub_def word_le_nat_alt)
  have "check_mul_assert SIZEOF_STRUCTPAGE (of_nat p) = Some (SIZEOF_STRUCTPAGE * of_nat p)"
    using e(4,5) sz by (simp add: check_mul_assert_def check_mul_def)
  then show "pfn_to_page (of_nat p) w = Some (page_ptr p w)"
    using v by (simp add: pfn_to_page_def page_ptr_def)
qed

lemma relative_pfn:
  assumes "wf_sections w" and "s < length (sections w)" and "p \<in> sec_pages (sections w ! s)"
  obtains r where "check_sub_assert (of_nat p) (sec_pfn (sections w ! s)) = Some r"
    and "unat r = p - unat (sec_pfn (sections w ! s))"
proof -
  have "sec_pfn (sections w ! s) \<le> of_nat p"
    using page_offset_bound(1) [OF assms(3)] page_ptr_exact(5) [OF assms] by (simp add: word_le_nat_alt)
  then show thesis
    using that [of "of_nat p - sec_pfn (sections w ! s)"] page_ptr_exact(5) [OF assms]
    by (simp add: check_sub_assert_def check_sub_def unat_sub word_le_nat_alt)
qed

lemma page_to_phys_exact:
  assumes "wf_sections w" and "s < length (sections w)" and "p \<in> sec_pages (sections w ! s)"
  defines "sec \<equiv> sections w ! s"
  shows "\<exists>phys. page_to_phys (page_ptr p w) w = Some phys
    \<and> unat phys = unat (rfront (sec_range sec)) + (p - unat (sec_pfn sec)) * 4096"
proof -
  let ?k = "(p - unat (sec_pfn sec)) * 4096"
  note b = page_offset_bound [OF assms(3), folded sec_def]
  obtain rel where rel: "check_sub_assert (of_nat p) (sec_pfn sec) = Some rel" "unat rel = p - unat (sec_pfn sec)"
    unfolding sec_def by (rule relative_pfn [OF assms(1-3)])
  have lim: "sec_virt w sec + unat (rsize (sec_range sec)) \<le> 2 ^ 64"
    using wf_sectionsD(2) [OF assms(1,2) sec_def [THEN meta_eq_to_obj_eq]] .
  then have fits: "unat (rfront (sec_range sec)) + ?k < 2 ^ 64"
    using b(2) by (simp add: sec_virt_def)
  have "push_bit PAGE_SHIFT rel = (of_nat ?k :: u64)"
    using arg_cong [OF rel(2), of "of_nat :: nat \<Rightarrow> u64"] by (simp add: push_bit_eq_mult PAGE_SHIFT_def)
  moreover have "unat (rfront (sec_range sec) + of_nat ?k) = unat (rfront (sec_range sec)) + ?k"
    using fits unat_of_nat_no_wrap [where 'a = 64, of ?k]
    by (subst unat_add_no_wrap) simp_all
  ultimately show ?thesis
    using page_to_section_sec [OF assms(1-3)] get_section_nth [OF assms(2)] rel(1)
      page_ptr_checks(2,3) [OF assms(1-3)] page_ptr_exact(2,3) [OF assms(1-3)]
    by (simp add: page_to_phys_def sec_def)
qed

lemma page_to_virt_exact:
  assumes "wf_sections w" and "s < length (sections w)" and "p \<in> sec_pages (sections w ! s)"
  obtains v where "page_to_virt (page_ptr p w) w = Some v"
    and "unat v = sec_virt w (sections w ! s) + (p - unat (sec_pfn (sections w ! s))) * 4096"
proof -
  let ?sec = "sections w ! s"
  obtain phys where phys: "page_to_phys (page_ptr p w) w = Some phys"
      "unat phys = unat (rfront (sec_range ?sec)) + (p - unat (sec_pfn ?sec)) * 4096"
    using page_to_phys_exact [OF assms] by blast
  have "unat (HHDM_OFFSET w) + unat phys < 2 ^ 64"
    using wf_sectionsD(2) [OF assms(1,2) refl] page_offset_bound(2) [OF assms(3)] phys(2)
    by (simp add: sec_virt_def)
  moreover have "PAGE_SIZE \<le> phys"
    using wf_sectionsD(1) [OF assms(1,2) refl] phys(2) by (simp add: PAGE_SIZE_def word_le_nat_alt)
  ultimately have "page_to_virt (page_ptr p w) w = Some (HHDM_OFFSET w + phys)"
      "unat (HHDM_OFFSET w + phys) = unat (HHDM_OFFSET w) + unat phys"
    using phys(1) page_ptr_checks(1) [OF assms]
    by (simp_all add: page_to_virt_def phys_to_virt_def check_add_assert_def check_add_def unat_add_no_wrap)
  then show thesis
    using that phys(2) by (simp add: sec_virt_def)
qed

lemma virt_to_page_exact:
  assumes "wf_sections w" and "s < length (sections w)" and "unat a = sec_virt w (sections w ! s) + x"
    and "x < unat (rsize (sec_range (sections w ! s)))"
    and "unat (sec_pfn (sections w ! s)) + x div 4096 \<in> sec_pages (sections w ! s)"
  shows "virt_to_page a w = Some (page_ptr (unat (sec_pfn (sections w ! s)) + x div 4096) w)"
proof -
  let ?sec = "sections w ! s" and ?phys = "a - HHDM_OFFSET w"
  have le: "HHDM_OFFSET w \<le> a"
    using assms(3) by (simp add: sec_virt_def word_le_nat_alt)
  then have phys: "unat ?phys = unat (rfront (sec_range ?sec)) + x"
    using assms(3) by (simp add: sec_virt_def unat_sub)
  then have off: "unat (?phys - rfront (sec_range ?sec)) = x" "rfront (sec_range ?sec) \<le> ?phys"
    by (simp_all add: unat_sub word_le_nat_alt)
  then have "range_has_loc (sec_range ?sec) ?phys"
    using assms(4) by (simp add: range_has_loc_def word_less_nat_alt)
  then have find: "find_section (\<lambda>sec. range_has_loc (sec_range sec) ?phys) (sections w) = Some s"
    using assms(2) wf_sectionsD(4) [OF assms(1,2) refl] by (intro find_section_first) auto
  have "unat (PAGE_COUNT (?phys - rfront (sec_range ?sec))) = x div 4096"
    using off(1) by (simp add: PAGE_COUNT_def PAGE_SHIFT_def drop_bit_eq_div unat_div)
  from arg_cong [OF this, of "of_nat :: nat \<Rightarrow> u64"]
  have "sec_pfn ?sec + PAGE_COUNT (?phys - rfront (sec_range ?sec)) = of_nat (unat (sec_pfn ?sec) + x div 4096)"
    by simp
  then show ?thesis
    using le find get_section_nth [OF assms(2)] page_ptr_checks(4) [OF assms(1,2,5)]
    by (simp add: virt_to_page_def virt_to_pfn_def virt_to_phys_def phys_to_pfn_def)
qed

text \<open>C40: For a page of a section, the pointer to its descriptor and its number convert into each other;
  and converting the pointer to the address of the page in the direct map and any address inside the page,
  or inside the pages after it in the same section, back gives the pointer to that page's descriptor.  None of
  the checks and overflow assertions on the way fails.\<close>

theorem page_virt_round_trip:
  assumes "wf_sections w" and "s < length (sections w)" and "p \<in> sec_pages (sections w ! s)"
    and "p + i div 4096 \<in> sec_pages (sections w ! s)"
  shows "(\<exists>pfn. page_to_pfn (page_ptr p w) w = Some pfn \<and> unat pfn = p \<and> pfn_to_page pfn w = Some (page_ptr p w))
    \<and> (\<exists>v. page_to_virt (page_ptr p w) w = Some v
         \<and> virt_to_page (v + of_nat i) w = Some (page_ptr (p + i div 4096) w))"
proof -
  let ?sec = "sections w ! s"
  obtain v where v: "page_to_virt (page_ptr p w) w = Some v"
      "unat v = sec_virt w ?sec + (p - unat (sec_pfn ?sec)) * 4096"
    by (rule page_to_virt_exact [OF assms(1-3)])
  define x where "x = (p - unat (sec_pfn ?sec)) * 4096 + i"
  have le: "unat (sec_pfn ?sec) \<le> p"
    using page_offset_bound(1) [OF assms(3)] .
  have div: "x div 4096 = p - unat (sec_pfn ?sec) + i div 4096"
    by (simp add: x_def)
  have "x < (p - unat (sec_pfn ?sec) + i div 4096) * 4096 + 4096"
    unfolding div [symmetric] using dividend_less_div_times [of 4096 x] by simp
  then have x: "x < unat (rsize (sec_range ?sec))"
    using page_offset_bound(2) [OF assms(4)] le by simp
  have "unat v + i < 2 ^ 64"
    using wf_sectionsD(2) [OF assms(1,2) refl] x v(2) by (simp add: x_def)
  then have "unat (v + of_nat i) = unat v + i"
    using unat_of_nat_no_wrap [where 'a = 64, of i] by (subst unat_add_no_wrap) simp_all
  then have "unat (v + of_nat i) = sec_virt w ?sec + x"
    by (simp add: v(2) x_def)
  then have "virt_to_page (v + of_nat i) w = Some (page_ptr (p + i div 4096) w)"
    using virt_to_page_exact [OF assms(1,2) _ x] assms(4) div le by simp
  then show ?thesis
    using v(1) page_ptr_checks(3,4) [OF assms(1-3)] page_ptr_exact(5) [OF assms(1-3)] by blast
qed


text \<open>One section of 16 pages.\<close>

definition sample_section :: page_section where
  "sample_section =
     \<lparr>sec_zone = 0, sec_range = RANGE_INIT 0x100000 0x10000, sec_pfn = 0, fl_count = (\<lambda>k. 0),
      min_order = 21, max_order = 0, sec_total_free = 0\<rparr>"

definition sample_world :: page_world where
  "sample_world =
     \<lparr>arch_of = X86_64, links = \<lparr>lprev = (\<lambda>x. None), lnext = (\<lambda>x. None)\<rparr>,
      pg_state = (\<lambda>p. PAGE_STATE_USED), pg_section = (\<lambda>p. 1), fl_order = (\<lambda>p. 0),
      fl_tail_head = (\<lambda>p. 0), slab_tail_head = (\<lambda>p. 0), large_tail_head = (\<lambda>p. 0),
      pg_refcount = (\<lambda>p. REFCOUNT_EMPTY), large_refcount = (\<lambda>p. REFCOUNT_EMPTY),
      large_level = (\<lambda>p. 0), stack_process = (\<lambda>p. 0), level_order = (\<lambda>n. 0),
      sections = [sample_section], zone_free = (\<lambda>z. 0), zone_sections = (\<lambda>z. [0]),
      fallback_zone = (\<lambda>z. None), zone_default = 0, HHDM_OFFSET = 0xffff800000000000,
      PAGE_END = 0xffffc00000000280, pmem = (\<lambda>a. 0)\<rparr>"

lemma sample_world_wf: "wf_sections sample_world"
  by (simp add: wf_sections_def sample_world_def sample_section_def sec_virt_def sec_pages_def RANGE_INIT_def
      PAGE_OFFSET_def)

theorem page_virt_round_trip_witness:
  "\<exists>v. page_to_virt (page_ptr 3 sample_world) sample_world = Some v
     \<and> virt_to_page (v + of_nat 5000) sample_world = Some (page_ptr 4 sample_world)"
  using page_virt_round_trip [OF sample_world_wf, of 0 3 5000]
  by (simp add: sample_world_def sample_section_def sec_pages_def RANGE_INIT_def)

end
