(* ===== verification/Page_Alloc.thy ===== *)
theory Page_Alloc
  imports Pages
begin

text \<open>
  \<open>mm/page_alloc.c\<close>: the buddy allocator, which keeps the free pages of a section in lists of blocks of
  2^order pages.  The functions are translated for one processor: the locks of the sections are free,
  so \<open>spin_try_acquire_save_irq\<close> succeeds.  The allocation of large pages is not
  modelled.
\<close>

section \<open>Free lists\<close>

definition modify_section :: "nat \<Rightarrow> (page_section \<Rightarrow> page_section) \<Rightarrow> page_world \<Rightarrow> page_world option" where
  "modify_section s f w = do { sec \<leftarrow> get_section s w; Some (set_section s (f sec) w) }"

definition modify_links :: "(list_heap \<Rightarrow> list_heap option) \<Rightarrow> page_world \<Rightarrow> page_world option" where
  "modify_links f w = do { l \<leftarrow> f (links w); Some (w\<lparr>links := l\<rparr>) }"

definition change_count :: "nat \<Rightarrow> u64 \<Rightarrow> page_section \<Rightarrow> page_section" where
  "change_count order d sec = sec\<lparr>fl_count := (fl_count sec)(order := fl_count sec order + d)\<rparr>"

definition add_free :: "nat \<Rightarrow> u64 \<Rightarrow> page_world \<Rightarrow> page_world option" where
  "add_free s d w =
     do { sec \<leftarrow> get_section s w;
          let w = w\<lparr>zone_free := (zone_free w)(sec_zone sec := zone_free w (sec_zone sec) + d)\<rparr>;
          Some (set_section s (sec\<lparr>sec_total_free := sec_total_free sec + d\<rparr>) w) }"

text \<open>What \<open>add_to_freelist_order\<close> and \<open>add_to_freelist_order_from_higher\<close> both do: mark the first and
  the last page of the block and put it at the front of its list.\<close>

definition push_block :: "nat \<Rightarrow> nat \<Rightarrow> nat \<Rightarrow> page_world \<Rightarrow> page_world option" where
  "push_block s order page w =
     do { let w = page_set_state page PAGE_STATE_FREE_LIST_HEAD w;
          let w = w\<lparr>fl_order := (fl_order w)(page := order)\<rparr>;
          assert_that (order < MAX_ORDER (arch_of w));
          w \<leftarrow> modify_links (\<lambda>l. list_add (freelist_link s order) (link0 page) (list_init (link0 page) l)) w;
          let back = page + 2 ^ order - 1;
          let w = (if order \<noteq> 0
                   then (page_set_state back PAGE_STATE_FREE_LIST_TAIL w)
                          \<lparr>fl_tail_head := (fl_tail_head w)(back := page)\<rparr>
                   else w);
          modify_section s (change_count order 1) w }"

definition add_to_freelist_order :: "nat \<Rightarrow> nat \<Rightarrow> nat \<Rightarrow> page_world \<Rightarrow> page_world option" where
  "add_to_freelist_order s order page w =
     do { w \<leftarrow> push_block s order page w; add_free s (2 ^ order) w }"

definition add_to_freelist_order_from_higher :: "nat \<Rightarrow> nat \<Rightarrow> nat \<Rightarrow> page_world \<Rightarrow> page_world option" where
  "add_to_freelist_order_from_higher s order page w = push_block s order page w"

text \<open>The searches for the lowest order from \<open>i\<close> on and for the highest order below \<open>i\<close> with a block.\<close>

fun lowest_used :: "(nat \<Rightarrow> u64) \<Rightarrow> nat \<Rightarrow> nat \<Rightarrow> nat" where
  "lowest_used count i 0 = i"
| "lowest_used count i (Suc n) = (if count i \<noteq> 0 then i else lowest_used count (Suc i) n)"

fun highest_used :: "(nat \<Rightarrow> u64) \<Rightarrow> nat \<Rightarrow> nat" where
  "highest_used count 0 = 0"
| "highest_used count (Suc i) = (if count i \<noteq> 0 then Suc i else highest_used count i)"

definition take_off_freelist_to_add_later :: "nat \<Rightarrow> nat \<Rightarrow> nat \<Rightarrow> page_world \<Rightarrow> page_world option" where
  "take_off_freelist_to_add_later s order page w =
     do { w \<leftarrow> modify_links (list_deinit (link0 page)) w;
          assert_that (order < MAX_ORDER (arch_of w));
          w \<leftarrow> modify_section s (change_count order (- 1)) w;
          sec \<leftarrow> get_section s w;
          if fl_count sec order \<noteq> 0 then Some w
          else do { let sec = (if min_order sec = order
                               then sec\<lparr>min_order := lowest_used (fl_count sec) order (MAX_ORDER (arch_of w) - order)\<rparr>
                               else sec);
                    let sec = (if max_order sec = order
                               then sec\<lparr>max_order := highest_used (fl_count sec) (MAX_ORDER (arch_of w))\<rparr>
                               else sec);
                    Some (set_section s sec w) } }"

definition take_off_freelist_order :: "nat \<Rightarrow> nat \<Rightarrow> nat \<Rightarrow> nat \<Rightarrow> page_world \<Rightarrow> page_world option" where
  "take_off_freelist_order s order page remove_page_order w =
     do { w \<leftarrow> add_free s (- (2 ^ remove_page_order)) w;
          sec \<leftarrow> get_section s w;
          if sec_total_free sec = 0 then
            do { let w = set_section s (sec\<lparr>min_order := 0, max_order := 0\<rparr>) w;
                 if pg_state w page = PAGE_STATE_FREE_LIST_HEAD then
                   do { assert_that (order < MAX_ORDER (arch_of w));
                        w \<leftarrow> modify_links (list_deinit (link0 page)) w;
                        modify_section s (change_count order (- 1)) w }
                 else Some w }
          else take_off_freelist_to_add_later s order page w }"

text \<open>\<open>list_head\<close> of the free list of an order, as a page.\<close>

definition freelist_first :: "nat \<Rightarrow> nat \<Rightarrow> page_world \<Rightarrow> nat option" where
  "freelist_first s order w = map_option page_of_link0 (list_head (freelist_link s order) (links w))"

definition get_from_freelist_order ::
    "nat \<Rightarrow> nat \<Rightarrow> nat \<Rightarrow> page_world \<Rightarrow> (nat option \<times> page_world) option" where
  "get_from_freelist_order s order page_remove_order w =
     do { sec \<leftarrow> get_section s w;
          assert_that (order < MAX_ORDER (arch_of w));
          if fl_count sec order = 0 then Some (None, w)
          else do { page \<leftarrow> freelist_first s order w;
                    w \<leftarrow> take_off_freelist_order s order page page_remove_order w;
                    Some (Some page, w) } }"

section \<open>Splitting and freeing\<close>

definition raise_max_order :: "nat \<Rightarrow> page_section \<Rightarrow> page_section" where
  "raise_max_order highest_order sec =
     (if max_order sec \<le> highest_order then sec\<lparr>max_order := highest_order + 1\<rparr> else sec)"

definition lower_min_order :: "nat \<Rightarrow> page_section \<Rightarrow> page_section" where
  "lower_min_order order sec = (if order < min_order sec then sec\<lparr>min_order := order\<rparr> else sec)"

text \<open>The order to start with in \<open>free_range_of_pages\<close>: the largest one below \<open>max_order\<close> whose blocks
  are not longer than the range.\<close>

fun first_order :: "nat \<Rightarrow> nat \<Rightarrow> nat \<Rightarrow> nat \<Rightarrow> int" where
  "first_order avail max_ord i 0 = int max_ord - 1"
| "first_order avail max_ord i (Suc n) =
     (if avail < 2 ^ i then int i - 1 else first_order avail max_ord (Suc i) n)"

text \<open>The inner loop, which lowers the order until a block fits; as there are pages left it stops at
  order 0 at the latest.\<close>

fun fitting_order :: "nat \<Rightarrow> nat \<Rightarrow> nat" where
  "fitting_order avail 0 = 0"
| "fitting_order avail (Suc order) = (if 2 ^ Suc order \<le> avail then Suc order else fitting_order avail order)"

function free_range_loop :: "nat \<Rightarrow> nat \<Rightarrow> nat \<Rightarrow> nat \<Rightarrow> page_world \<Rightarrow> page_world option" where
  "free_range_loop s order page avail w =
     do { assert_that (2 ^ order \<le> avail);
          w \<leftarrow> add_to_freelist_order s order page w;
          if avail = 2 ^ order then modify_section s (lower_min_order order) w
          else free_range_loop s (fitting_order (avail - 2 ^ order) order) (page + 2 ^ order)
                 (avail - 2 ^ order) w }"
  by pat_completeness auto

termination free_range_loop
  by (relation "measure (\<lambda>(s, order, page, avail, w). avail)") (auto split: if_splits)

definition free_range_of_pages :: "nat \<Rightarrow> nat \<Rightarrow> nat \<Rightarrow> nat \<Rightarrow> page_world \<Rightarrow> page_world option" where
  "free_range_of_pages page s amount max_ord w =
     do { let order = first_order amount max_ord 0 (Suc max_ord);
          assert_that (0 \<le> order);
          w \<leftarrow> modify_section s (raise_max_order (nat order)) w;
          free_range_loop s (nat order) page amount w }"

fun split_loop :: "nat \<Rightarrow> nat \<Rightarrow> nat \<Rightarrow> nat \<Rightarrow> page_world \<Rightarrow> page_world option" where
  "split_loop s page order 0 w = Some w"
| "split_loop s page order (Suc higher_order) w =
     (if order < Suc higher_order then
        do { w \<leftarrow> add_to_freelist_order_from_higher s higher_order (page + 2 ^ higher_order) w;
             split_loop s page order higher_order w }
      else Some w)"

definition free_extra_pages_if_from_higher_order ::
    "nat \<Rightarrow> nat \<Rightarrow> nat \<Rightarrow> nat \<Rightarrow> page_world \<Rightarrow> page_world option" where
  "free_extra_pages_if_from_higher_order page s higher_order order w =
     (if higher_order \<le> order then Some w
      else do { w \<leftarrow> modify_section s (raise_max_order (higher_order - 1)) w;
                w \<leftarrow> split_loop s page order higher_order w;
                modify_section s (lower_min_order order) w })"


definition get_from_freelist_order_at_align ::
    "nat \<Rightarrow> nat \<Rightarrow> nat \<Rightarrow> nat \<Rightarrow> page_world \<Rightarrow> (nat option \<times> page_world) option" where
  "get_from_freelist_order_at_align s order req_order align w =
     do { sec \<leftarrow> get_section s w;
          assert_that (order < MAX_ORDER (arch_of w));
          if fl_count sec order = 0 then Some (None, w)
          else do {
            page \<leftarrow> freelist_first s order w;
            phys \<leftarrow> page_to_phys (page_ptr page w) w;
            aligned \<leftarrow> has_align phys (2 ^ align);
            if aligned then
              do { w \<leftarrow> free_extra_pages_if_from_higher_order page s order req_order w;
                   w \<leftarrow> take_off_freelist_order s order page req_order w;
                   Some (Some page, w) }
            else do {
              up \<leftarrow> align_up_assert phys (2 ^ align);
              let index = unat (PAGE_COUNT (up - phys));
              if \<not> index < 2 ^ order \<or> 2 ^ order - index < 2 ^ req_order then Some (None, w)
              else do {
                w \<leftarrow> (if index \<noteq> 0 then
                       do { w \<leftarrow> take_off_freelist_to_add_later s order page w;
                            free_range_of_pages page s index order w }
                     else Some w);
                w \<leftarrow> (if index + 2 ^ req_order \<noteq> 2 ^ order then
                       free_range_of_pages (page + index + 2 ^ req_order) s
                         (2 ^ order - (index + 2 ^ req_order)) order w
                     else Some w);
                Some (Some (page + index), w) } } } }"

section \<open>Allocation\<close>

definition setup_pages_off_freelist :: "nat \<Rightarrow> nat \<Rightarrow> page_state \<Rightarrow> page_world \<Rightarrow> page_world option" where
  "setup_pages_off_freelist page order st w =
     (let tail_pages = [page + 1 ..< page + 2 ^ order] in
      case st of
        PAGE_STATE_KERNEL_STACK \<Rightarrow> Some (((page_set_state page st) ^^ (2 ^ order)) w)
      | PAGE_STATE_USER_STACK \<Rightarrow> Some (((page_set_state page st) ^^ (2 ^ order)) w)
      | PAGE_STATE_USED \<Rightarrow> Some (((page_set_state page st) ^^ (2 ^ order)) w)
      | PAGE_STATE_SLAB_HEAD \<Rightarrow>
          Some (fold (\<lambda>iter w. (page_set_state iter PAGE_STATE_SLAB_TAIL w)
                                 \<lparr>slab_tail_head := (slab_tail_head w)(iter := page)\<rparr>)
                 tail_pages (page_set_state page st w))
      | PAGE_STATE_TABLE \<Rightarrow> Some (page_set_state page st w)
      | PAGE_STATE_LARGE_HEAD \<Rightarrow>
          Some (fold (\<lambda>iter w. (page_set_state iter PAGE_STATE_LARGE_TAIL w)
                                 \<lparr>pg_refcount := (pg_refcount w)(iter := refcount_init (pg_refcount w iter)),
                                  large_tail_head := (large_tail_head w)(iter := page)\<rparr>)
                 tail_pages (page_set_state page st w))
      | _ \<Rightarrow> None)"

text \<open>The loop over the orders of a section: the block found and its order.\<close>

fun get_from_orders ::
    "(nat \<Rightarrow> page_world \<Rightarrow> (nat option \<times> page_world) option) \<Rightarrow> nat \<Rightarrow> nat \<Rightarrow> page_world
     \<Rightarrow> ((nat \<times> nat) option \<times> page_world) option" where
  "get_from_orders get i 0 w = Some (None, w)"
| "get_from_orders get i (Suc n) w =
     do { (p, w) \<leftarrow> get i w;
          case p of
            Some page \<Rightarrow> Some (Some (page, i), w)
          | None \<Rightarrow> get_from_orders get (Suc i) n w }"

text \<open>The loop over the sections of a zone.\<close>

fun try_sections ::
    "(nat \<Rightarrow> nat \<Rightarrow> page_world \<Rightarrow> (nat option \<times> page_world) option) \<Rightarrow> nat \<Rightarrow> nat list \<Rightarrow> page_world
     \<Rightarrow> ((nat \<times> nat \<times> nat) option \<times> page_world) option" where
  "try_sections get order [] w = Some (None, w)"
| "try_sections get order (s # ss) w =
     do { sec \<leftarrow> get_section s w;
          let i = max order (min_order sec);
          (r, w) \<leftarrow> get_from_orders (get s) i (max_order sec - i) w;
          case r of
            Some (page, i) \<Rightarrow> Some (Some (s, page, i), w)
          | None \<Rightarrow> try_sections get order ss w }"

definition try_alloc_pages_from_zone ::
    "nat \<Rightarrow> nat \<Rightarrow> page_state \<Rightarrow> page_world \<Rightarrow> (nat option \<times> page_world) option" where
  "try_alloc_pages_from_zone zone order st w =
     (if zone_free w zone < 2 ^ order then Some (None, w)
      else do { assert_that (zone_sections w zone \<noteq> []);
                (r, w) \<leftarrow> try_sections (\<lambda>s i. get_from_freelist_order s i order) order
                            (zone_sections w zone) w;
                case r of
                  None \<Rightarrow> Some (None, w)
                | Some (s, page, alloced_order) \<Rightarrow>
                    do { w \<leftarrow> free_extra_pages_if_from_higher_order page s alloced_order order w;
                         w \<leftarrow> setup_pages_off_freelist page order st w;
                         Some (Some page, w) } })"

definition try_alloc_pages_from_zone_at_align ::
    "nat \<Rightarrow> nat \<Rightarrow> nat \<Rightarrow> page_state \<Rightarrow> page_world \<Rightarrow> (nat option \<times> page_world) option" where
  "try_alloc_pages_from_zone_at_align zone order align st w =
     (if zone_free w zone < 2 ^ order then Some (None, w)
      else do { assert_that (zone_sections w zone \<noteq> []);
                (r, w) \<leftarrow> try_sections (\<lambda>s i. get_from_freelist_order_at_align s i order align) order
                            (zone_sections w zone) w;
                case r of
                  None \<Rightarrow> Some (None, w)
                | Some (s, page, order_i) \<Rightarrow>
                    do { w \<leftarrow> setup_pages_off_freelist page order st w; Some (Some page, w) } })"

definition ALLOC_ZERO :: u64 where
  "ALLOC_ZERO = 1"

definition zero_pages :: "nat \<Rightarrow> nat \<Rightarrow> page_world \<Rightarrow> page_world option" where
  "zero_pages page count w =
     do { virt \<leftarrow> page_to_virt (page_ptr page w) w;
          m \<leftarrow> zero_multiple_pages virt count (pmem w);
          Some (w\<lparr>pmem := m\<rparr>) }"

text \<open>\<open>setup_alloced_page\<close>; \<open>largeinfo\<close> is the level of the large page, or \<open>NULL\<close>.\<close>

definition setup_alloced_page ::
    "nat \<Rightarrow> page_state \<Rightarrow> u64 \<Rightarrow> nat \<Rightarrow> nat option \<Rightarrow> page_world \<Rightarrow> page_world option" where
  "setup_alloced_page page st alloc_flags order largeinfo w =
     (case st of
        PAGE_STATE_USED \<Rightarrow>
          (let w = ((\<lambda>w. w\<lparr>links := list_init (link8 page) (links w),
                             pg_refcount := (pg_refcount w)(page := refcount_init (pg_refcount w page))\<rparr>)
                     ^^ (2 ^ order)) w
           in if alloc_flags AND ALLOC_ZERO \<noteq> 0 then zero_pages page (2 ^ order) w else Some w)
      | PAGE_STATE_KERNEL_STACK \<Rightarrow>
          do { w \<leftarrow> zero_pages page (2 ^ order) w;
               Some (w\<lparr>links := list_init (link0 page) (links w)\<rparr>) }
      | PAGE_STATE_USER_STACK \<Rightarrow>
          do { w \<leftarrow> zero_pages page (2 ^ order) w;
               Some (w\<lparr>links := list_init (link8 page) (links w)\<rparr>) }
      | PAGE_STATE_SLAB_HEAD \<Rightarrow>
          do { w \<leftarrow> zero_pages page (2 ^ order) w;
               Some (w\<lparr>links := list_init (link8 page) (links w)\<rparr>) }
      | PAGE_STATE_TABLE \<Rightarrow>
          do { virt \<leftarrow> page_to_virt (page_ptr page w) w;
               Some (w\<lparr>pmem := zero_page virt (pmem w), links := list_init (link8 page) (links w),
                        pg_refcount := (pg_refcount w)(page := REFCOUNT_EMPTY)\<rparr>) }
      | PAGE_STATE_LARGE_HEAD \<Rightarrow>
          do { let w = w\<lparr>large_refcount := (large_refcount w)(page := refcount_init (large_refcount w page)),
                         pg_refcount := (pg_refcount w)(page := refcount_init (pg_refcount w page)),
                         links := list_init (link8 page) (links w)\<rparr>;
               level \<leftarrow> largeinfo;
               let w = w\<lparr>large_level := (large_level w)(page := level)\<rparr>;
               if alloc_flags AND ALLOC_ZERO \<noteq> 0 then zero_pages page (2 ^ order) w else Some w }
      | _ \<Rightarrow> None)"

text \<open>The loops over a zone and the zones it falls back to.\<close>

partial_function (option) alloc_from_zones ::
    "(nat \<Rightarrow> page_world \<Rightarrow> (nat option \<times> page_world) option) \<Rightarrow> nat option \<Rightarrow> page_world
     \<Rightarrow> (nat option \<times> page_world) option" where
  "alloc_from_zones try zone w =
     (case zone of
        None \<Rightarrow> Some (None, w)
      | Some z \<Rightarrow>
          do { (p, w) \<leftarrow> try z w;
               case p of
                 Some page \<Rightarrow> Some (Some page, w)
               | None \<Rightarrow> alloc_from_zones try (fallback_zone w z) w })"

definition finish_alloc ::
    "page_state \<Rightarrow> u64 \<Rightarrow> nat \<Rightarrow> nat option \<times> page_world \<Rightarrow> (nat option \<times> page_world) option" where
  "finish_alloc st alloc_flags order r =
     (case r of
        (None, w) \<Rightarrow> Some (None, w)
      | (Some page, w) \<Rightarrow>
          do { w \<leftarrow> setup_alloced_page page st alloc_flags order None w; Some (Some page, w) })"

definition alloc_pages ::
    "page_state \<Rightarrow> u64 \<Rightarrow> nat \<Rightarrow> page_world \<Rightarrow> (nat option \<times> page_world) option" where
  "alloc_pages st alloc_flags order w =
     (if MAX_ORDER (arch_of w) \<le> order then Some (None, w)
      else do { r \<leftarrow> alloc_from_zones (\<lambda>z. try_alloc_pages_from_zone z order st) (Some (zone_default w)) w;
                finish_alloc st alloc_flags order r })"

definition alloc_pages_from_zone ::
    "nat \<Rightarrow> page_state \<Rightarrow> u64 \<Rightarrow> nat \<Rightarrow> bool \<Rightarrow> page_world \<Rightarrow> (nat option \<times> page_world) option" where
  "alloc_pages_from_zone zone st alloc_flags order allow_fallback w =
     (if MAX_ORDER (arch_of w) \<le> order then Some (None, w)
      else do { (p, w) \<leftarrow> try_alloc_pages_from_zone zone order st w;
                r \<leftarrow> (case p of
                       Some page \<Rightarrow> Some (Some page, w)
                     | None \<Rightarrow>
                         if \<not> allow_fallback then Some (None, w)
                         else alloc_from_zones (\<lambda>z. try_alloc_pages_from_zone z order st)
                                (fallback_zone w zone) w);
                finish_alloc st alloc_flags order r })"

definition alloc_pages_at_align ::
    "page_state \<Rightarrow> u64 \<Rightarrow> nat \<Rightarrow> nat \<Rightarrow> page_world \<Rightarrow> (nat option \<times> page_world) option" where
  "alloc_pages_at_align st alloc_flags align order w =
     (if MAX_ORDER (arch_of w) \<le> order then Some (None, w)
      else do { r \<leftarrow> alloc_from_zones (\<lambda>z. try_alloc_pages_from_zone_at_align z order align st)
                       (Some (zone_default w)) w;
                finish_alloc st alloc_flags order r })"

definition alloc_pages_from_zone_at_align ::
    "nat \<Rightarrow> page_state \<Rightarrow> u64 \<Rightarrow> nat \<Rightarrow> nat \<Rightarrow> bool \<Rightarrow> page_world \<Rightarrow> (nat option \<times> page_world) option" where
  "alloc_pages_from_zone_at_align zone st alloc_flags order align allow_fallback w =
     (if MAX_ORDER (arch_of w) \<le> order then Some (None, w)
      else do { (p, w) \<leftarrow> try_alloc_pages_from_zone_at_align zone order align st w;
                r \<leftarrow> (case p of
                       Some page \<Rightarrow> Some (Some page, w)
                     | None \<Rightarrow>
                         if \<not> allow_fallback then Some (None, w)
                         else alloc_from_zones (\<lambda>z. try_alloc_pages_from_zone_at_align z order align st)
                                (fallback_zone w zone) w);
                finish_alloc st alloc_flags order r })"

definition alloc_table :: "page_world \<Rightarrow> (nat option \<times> page_world) option" where
  "alloc_table w = alloc_pages PAGE_STATE_TABLE ALLOC_ZERO 0 w"

text \<open>\<open>alloc_user_stack\<close> for the process \<open>proc\<close>, whose list of stack pages has the head
  \<open>stack_page_list\<close>.\<close>

definition alloc_user_stack ::
    "nat \<Rightarrow> nat \<Rightarrow> nat \<Rightarrow> page_world \<Rightarrow> (nat option \<times> page_world) option" where
  "alloc_user_stack proc stack_page_list order w =
     do { (p, w) \<leftarrow> alloc_pages PAGE_STATE_USER_STACK ALLOC_ZERO order w;
          case p of
            None \<Rightarrow> Some (None, w)
          | Some page \<Rightarrow>
              do { let w = w\<lparr>stack_process := (stack_process w)(page := proc)\<rparr>;
                   w \<leftarrow> modify_links (list_add stack_page_list (link8 page)) w;
                   Some (Some page, w) } }"


section \<open>Freeing\<close>

definition early_free_pages_from_section :: "nat \<Rightarrow> nat \<Rightarrow> nat \<Rightarrow> page_world \<Rightarrow> page_world option" where
  "early_free_pages_from_section page s order w =
     do { w \<leftarrow> push_block s order page w; add_free s (2 ^ order) w }"

text \<open>\<open>find_nearby_free_pages\<close> in its two halves, the pages before and the pages after.  They return
  whether a block was merged, the first page, its offset in the section and the number of pages.\<close>

definition merge_before :: "nat \<Rightarrow> nat \<Rightarrow> nat \<Rightarrow> nat \<Rightarrow> page_world
    \<Rightarrow> (bool \<times> nat \<times> nat \<times> nat \<times> page_world) option" where
  "merge_before s page page_pfn amount w =
     (let free_page = page in
      if page_pfn \<noteq> 0 then
        case pg_state w (free_page - 1) of
          PAGE_STATE_FREE_LIST_TAIL \<Rightarrow>
            (let free_head = fl_tail_head w (free_page - 1);
                 extra = page - free_page;
                 order = fl_order w free_head
             in if order < MAX_ORDER (arch_of w) - 1 \<and> 2 ^ (order + 1) \<le> 2 ^ order + extra then
                  do { w \<leftarrow> take_off_freelist_to_add_later s order free_head w;
                       Some (True, free_head, page_pfn - extra, amount + extra, w) }
                else Some (False, free_page, page_pfn, amount, w))
        | PAGE_STATE_FREE_LIST_HEAD \<Rightarrow>
            (let free_head = free_page - 1;
                 order = fl_order w free_head
             in if order = 0 then
                  do { w \<leftarrow> take_off_freelist_to_add_later s order free_head w;
                       Some (True, free_head, page_pfn - 1, amount + 1, w) }
                else Some (False, free_page, page_pfn, amount, w))
        | _ \<Rightarrow> Some (False, free_page, page_pfn, amount, w)
      else Some (False, free_page, page_pfn, amount, w))"

definition merge_after :: "nat \<Rightarrow> page_section \<Rightarrow> nat \<Rightarrow> nat \<Rightarrow> nat \<Rightarrow> page_world
    \<Rightarrow> (bool \<times> nat \<times> page_world) option" where
  "merge_after s sec free_page page_pfn amount w =
     (let end_pfn = page_pfn + amount;
          section_end_pfn = unat (sec_pfn sec) + unat (PAGE_COUNT (rsize (sec_range sec)));
          next_page = free_page + amount;
          order = fl_order w next_page
      in if end_pfn \<noteq> section_end_pfn \<and> pg_state w next_page = PAGE_STATE_FREE_LIST_HEAD
            \<and> 2 ^ (order + 1) \<le> 2 ^ order + amount then
           do { w \<leftarrow> take_off_freelist_to_add_later s order next_page w;
                Some (True, amount + 2 ^ order, w) }
         else Some (False, amount, w))"

definition find_nearby_free_pages ::
    "nat \<Rightarrow> nat \<Rightarrow> page_world \<Rightarrow> (bool \<times> nat \<times> nat \<times> page_world) option" where
  "find_nearby_free_pages page amount w =
     do { s \<leftarrow> page_to_section page w;
          sec \<leftarrow> get_section s w;
          page_pfn \<leftarrow> page_to_pfn (page_ptr page w) w;
          page_pfn \<leftarrow> check_sub_assert page_pfn (sec_pfn sec);
          (merged_before, free_page, page_pfn, amount, w) \<leftarrow> merge_before s page (unat page_pfn) amount w;
          sec \<leftarrow> get_section s w;
          (merged_after, amount, w) \<leftarrow> merge_after s sec free_page page_pfn amount w;
          Some (merged_before \<or> merged_after, free_page, amount, w) }"

definition free_amount_of_pages :: "nat \<Rightarrow> nat \<Rightarrow> page_world \<Rightarrow> page_world option" where
  "free_amount_of_pages page amount w =
     do { assert_that (amount \<noteq> 0);
          (merged, page, amount, w) \<leftarrow> find_nearby_free_pages page amount w;
          s \<leftarrow> page_to_section page w;
          free_range_of_pages page s amount (MAX_ORDER (arch_of w)) w }"

text \<open>\<open>ref_down\<close> on the reference count of a page of a large page, and the number of pages in a row
  from \<open>iter\<close> to \<open>end\<close> whose last reference was dropped.\<close>

definition page_ref_down :: "nat \<Rightarrow> page_world \<Rightarrow> (bool \<times> page_world) option" where
  "page_ref_down page w =
     do { (last, ref) \<leftarrow> ref_down (pg_refcount w page);
          Some (last, w\<lparr>pg_refcount := (pg_refcount w)(page := ref)\<rparr>) }"

fun drop_run :: "nat \<Rightarrow> nat \<Rightarrow> page_world \<Rightarrow> (nat \<times> page_world) option" where
  "drop_run iter 0 w = Some (iter, w)"
| "drop_run iter (Suc n) w =
     do { (last, w) \<leftarrow> page_ref_down iter w;
          if last then drop_run (Suc iter) n w else Some (iter, w) }"

fun free_large_loop :: "nat \<Rightarrow> nat \<Rightarrow> nat \<Rightarrow> page_world \<Rightarrow> page_world option" where
  "free_large_loop 0 page end_page w = Some w"
| "free_large_loop (Suc n) page end_page w =
     (if page < end_page then
        do { (last, w) \<leftarrow> page_ref_down page w;
             if \<not> last then free_large_loop n (page + 1) end_page w
             else do { (iter, w) \<leftarrow> drop_run (page + 1) (end_page - (page + 1)) w;
                       w \<leftarrow> free_amount_of_pages page (iter - page) w;
                       free_large_loop n (iter + 1) end_page w } }
      else Some w)"

definition free_large_page :: "nat \<Rightarrow> page_world \<Rightarrow> page_world option" where
  "free_large_page head w =
     do { assert_that (pg_state w head = PAGE_STATE_LARGE_HEAD);
          s \<leftarrow> page_to_section head w;
          let page_count = 2 ^ level_order w (large_level w head);
          free_large_loop page_count head (head + page_count) w }"

definition free_pages :: "nat \<Rightarrow> nat \<Rightarrow> page_world \<Rightarrow> page_world option" where
  "free_pages page order w =
     (if MAX_ORDER (arch_of w) \<le> order then Some w
      else if pg_state w page = PAGE_STATE_LARGE_HEAD then
        (if order \<noteq> 0 then Some w else free_large_page page w)
      else do { (merged, page, amount, w) \<leftarrow> find_nearby_free_pages page (2 ^ order) w;
                s \<leftarrow> page_to_section page w;
                if merged then free_range_of_pages page s amount (MAX_ORDER (arch_of w)) w
                else add_to_freelist_order s order page w })"

text \<open>\<open>deref_page\<close> with the list \<open>delayed_free\<close> of the operation; it returns the page or \<open>NULL\<close>.\<close>

definition deref_page :: "nat \<Rightarrow> nat \<Rightarrow> page_world \<Rightarrow> (nat option \<times> page_world) option" where
  "deref_page page delayed_free w =
     do { (last, w) \<leftarrow> page_ref_down page w;
          if last then do { w \<leftarrow> modify_links (list_add delayed_free (link8 page)) w; Some (None, w) }
          else Some (Some page, w) }"

fun deref_pages :: "nat \<Rightarrow> nat \<Rightarrow> nat \<Rightarrow> page_world \<Rightarrow> page_world option" where
  "deref_pages iter 0 delayed_free w = Some w"
| "deref_pages iter (Suc n) delayed_free w =
     do { (p, w) \<leftarrow> deref_page iter delayed_free w; deref_pages (Suc iter) n delayed_free w }"

definition deref_large_page :: "nat \<Rightarrow> nat \<Rightarrow> nat \<Rightarrow> page_world \<Rightarrow> (nat option \<times> page_world) option" where
  "deref_large_page page delayed_free level w =
     (if pg_state w page = PAGE_STATE_LARGE_HEAD then
        do { (last, ref) \<leftarrow> ref_down (large_refcount w page);
             let w = w\<lparr>large_refcount := (large_refcount w)(page := ref)\<rparr>;
             if last then do { w \<leftarrow> modify_links (list_add delayed_free (link8 page)) w; Some (None, w) }
             else Some (Some page, w) }
      else do { w \<leftarrow> deref_pages page (2 ^ level_order w level) delayed_free w; Some (None, w) })"

declare free_range_loop.simps [simp del] alloc_from_zones.simps [code]

end
