(* ===== verification/Free_Lists.thy ===== *)
theory Free_Lists
  imports Page_Alloc
begin

text \<open>
  The invariant of the buddy allocator's free lists and that its operations keep it: the free blocks,
  the blocks in use and the blocks in transit tile the pages of a section, the lists hold exactly the
  free blocks, and the descriptors of the pages tell the first pages of free blocks from the others.
\<close>

section \<open>Tilings\<close>

text \<open>A block is its first page and its number of pages.\<close>

definition ivl :: "nat \<times> nat \<Rightarrow> nat set" where
  "ivl b = {fst b ..< fst b + snd b}"

definition tiled :: "nat set \<Rightarrow> (nat \<times> nat) set \<Rightarrow> bool" where
  "tiled P B \<longleftrightarrow> (\<forall>b \<in> B. 0 < snd b \<and> ivl b \<subseteq> P)
     \<and> (\<forall>b \<in> B. \<forall>c \<in> B. b \<noteq> c \<longrightarrow> ivl b \<inter> ivl c = {}) \<and> P \<subseteq> \<Union> (ivl ` B)"

lemma ivl_iff [simp]: "q \<in> ivl (p, n) \<longleftrightarrow> p \<le> q \<and> q < p + n"
  by (simp add: ivl_def)

lemma tiledD:
  assumes "tiled P B"
  shows "(p, n) \<in> B \<Longrightarrow> 0 < n" and "(p, n) \<in> B \<Longrightarrow> ivl (p, n) \<subseteq> P"
    and "(p, n) \<in> B \<Longrightarrow> (q, m) \<in> B \<Longrightarrow> (p, n) \<noteq> (q, m) \<Longrightarrow> ivl (p, n) \<inter> ivl (q, m) = {}"
    and "x \<in> P \<Longrightarrow> \<exists>p n. (p, n) \<in> B \<and> x \<in> ivl (p, n)"
  using assms unfolding tiled_def by (force, blast, blast, force)

lemma tiled_same:
  assumes "tiled P B" and "(p, n) \<in> B" and "(q, m) \<in> B" and "x \<in> ivl (p, n)" and "x \<in> ivl (q, m)"
  shows "(p, n) = (q, m)"
  using tiledD(3) [OF assms(1-3)] assms(4,5) by blast

lemma tiled_replace:
  assumes "tiled P B" and "X \<subseteq> B" and "\<Union> (ivl ` Y) = \<Union> (ivl ` X)"
    and "\<And>y. y \<in> Y \<Longrightarrow> 0 < snd y" and "\<And>y z. y \<in> Y \<Longrightarrow> z \<in> Y \<Longrightarrow> y \<noteq> z \<Longrightarrow> ivl y \<inter> ivl z = {}"
  shows "tiled P (B - X \<union> Y)"
proof -
  have B: "\<And>b. b \<in> B \<Longrightarrow> 0 < snd b \<and> ivl b \<subseteq> P"
      "\<And>b c. b \<in> B \<Longrightarrow> c \<in> B \<Longrightarrow> b \<noteq> c \<Longrightarrow> ivl b \<inter> ivl c = {}" "P \<subseteq> \<Union> (ivl ` B)"
    using assms(1) by (simp_all add: tiled_def)
  have Y: "ivl y \<subseteq> P" if "y \<in> Y" for y
  proof -
    have "ivl y \<subseteq> \<Union> (ivl ` X)"
      using that unfolding assms(3) [symmetric] by (rule UN_upper)
    also have "\<dots> \<subseteq> P"
      using B(1) subsetD [OF assms(2)] by (intro UN_least) metis
    finally show ?thesis .
  qed
  have cross: "ivl b \<inter> ivl y = {}" if "b \<in> B" "b \<notin> X" "y \<in> Y" for b y
  proof -
    have "ivl b \<inter> ivl x = {}" if "x \<in> X" for x
      using B(2) [OF \<open>b \<in> B\<close> subsetD [OF assms(2) that]] that \<open>b \<notin> X\<close> by metis
    then have "ivl b \<inter> \<Union> (ivl ` X) = {}"
      by (simp add: Int_UN_distrib)
    moreover have "ivl y \<subseteq> \<Union> (ivl ` X)"
      using \<open>y \<in> Y\<close> unfolding assms(3) [symmetric] by (rule UN_upper)
    ultimately show ?thesis
      by blast
  qed
  have "ivl b \<inter> ivl c = {}" if bc: "b \<in> B - X \<union> Y" "c \<in> B - X \<union> Y" "b \<noteq> c" for b c
  proof (cases "b \<in> Y")
    case True
    show ?thesis
    proof (cases "c \<in> Y")
      case True
      show ?thesis
        by (rule assms(5) [OF \<open>b \<in> Y\<close> True bc(3)])
    next
      case False
      then show ?thesis
        using cross [of c b] bc(2) \<open>b \<in> Y\<close> by auto
    qed
  next
    case False
    then show ?thesis
      using cross [of b c] B(2) [of b c] bc by auto
  qed
  moreover have "P \<subseteq> \<Union> (ivl ` (B - X \<union> Y))"
  proof -
    have "\<Union> (ivl ` B) = \<Union> (ivl ` (B - X)) \<union> \<Union> (ivl ` X)"
      using assms(2) by auto
    then show ?thesis
      using B(3) by (simp add: assms(3) UN_Un)
  qed
  moreover have "0 < snd b \<and> ivl b \<subseteq> P" if "b \<in> B - X \<union> Y" for b
    using that B(1) [of b] Y [of b] assms(4) [of b] by auto
  ultimately show ?thesis
    unfolding tiled_def by blast
qed

lemma ivl_split: "k \<le> n \<Longrightarrow> ivl (p, n) = ivl (p, k) \<union> ivl (p + k, n - k)"
  by (auto simp: ivl_def)

text \<open>Cutting a block in two and gluing two adjacent ones.\<close>

lemma tiled_cut:
  assumes "tiled P (insert (p, n) B)" and "(p, n) \<notin> B" and "0 < k" and "k < n"
  shows "tiled P (insert (p, k) (insert (p + k, n - k) B))"
proof -
  have "tiled P (insert (p, n) B - {(p, n)} \<union> {(p, k), (p + k, n - k)})"
    using assms ivl_split [of k n p] by (intro tiled_replace) (auto simp: ivl_def)
  then show ?thesis
    using assms(2) by (simp add: insert_commute)
qed

lemma tiled_glue:
  assumes "tiled P (insert (p, n) (insert (p + n, m) B))" and "(p, n) \<notin> B" and "(p + n, m) \<notin> B"
  shows "tiled P (insert (p, n + m) B)"
proof -
  have "0 < n"
    using tiledD(1) [OF assms(1), of p n] by simp
  moreover have "\<Union> (ivl ` {(p, n + m)}) = \<Union> (ivl ` {(p, n), (p + n, m)})"
    using ivl_split [of n "n + m" p] by simp
  ultimately have "tiled P (insert (p, n) (insert (p + n, m) B) - {(p, n), (p + n, m)} \<union> {(p, n + m)})"
    using assms(1) by (intro tiled_replace) auto
  then show ?thesis
    using assms(2,3) by (simp add: insert_Diff_if)
qed

text \<open>A block that starts where another one ends.\<close>

lemma tiled_next:
  assumes "tiled P B" and "(p, n) \<in> B" and "p + n \<in> P"
  obtains m where "(p + n, m) \<in> B"
proof -
  obtain q m where q: "(q, m) \<in> B" "q \<le> p + n" "p + n < q + m"
    using tiledD(4) [OF assms(1,3)] by auto
  have "q = p + n"
  proof (rule ccontr)
    assume "q \<noteq> p + n"
    moreover have "0 < n"
      using tiledD(1) [OF assms(1,2)] .
    ultimately have "p + n - 1 \<in> ivl (q, m)" "p + n - 1 \<in> ivl (p, n)"
      using q by auto
    then have "(p, n) = (q, m)"
      using tiled_same [OF assms(1,2) q(1)] by blast
    then show False
      using q by simp
  qed
  then show thesis
    using that q(1) by blast
qed

lemma tiled_prev:
  assumes "tiled P B" and "(p, n) \<in> B" and "0 < p" and "p - 1 \<in> P"
  obtains q m where "(q, m) \<in> B" and "q + m = p"
proof -
  obtain q m where q: "(q, m) \<in> B" "q \<le> p - 1" "p - 1 < q + m"
    using tiledD(4) [OF assms(1,4)] by auto
  have "\<not> p < q + m"
  proof
    assume "p < q + m"
    then have "p \<in> ivl (q, m)" "p \<in> ivl (p, n)"
      using q tiledD(1) [OF assms(1,2)] by auto
    then have "(p, n) = (q, m)"
      using tiled_same [OF assms(1,2) q(1)] by blast
    then show False
      using q(2) assms(3) by simp
  qed
  then show thesis
    using that [OF q(1)] q(3) assms(3) by simp
qed


section \<open>The invariant of a section\<close>

type_synonym free_lists = "nat \<Rightarrow> nat list"
type_synonym blocks = "(nat \<times> nat) set"

definition frees :: "free_lists \<Rightarrow> blocks" where
  "frees F = {(p, 2 ^ k) | p k. p \<in> set (F k)}"

text \<open>\<open>F\<close>: the free blocks by order; \<open>U\<close>: the blocks in use; \<open>X\<close>: the blocks in transit between the
  two.  A page marked as a free block of one page is one, unless it is among the exceptions \<open>E\<close>.\<close>

definition sec_ok :: "page_world \<Rightarrow> nat \<Rightarrow> free_lists \<Rightarrow> blocks \<Rightarrow> blocks \<Rightarrow> nat set \<Rightarrow> bool" where
  "sec_ok w s F U X E \<longleftrightarrow>
     s < length (sections w)
     \<and> (\<forall>k < MAX_ORDER (arch_of w). list_at (links w) (freelist_link s k) (map link0 (F k)))
     \<and> (\<forall>k < MAX_ORDER (arch_of w). fl_count (sections w ! s) k = of_nat (length (F k)))
     \<and> (\<forall>k. \<not> k < MAX_ORDER (arch_of w) \<longrightarrow> F k = [])
     \<and> max_order (sections w ! s) \<le> MAX_ORDER (arch_of w)
     \<and> tiled (sec_pages (sections w ! s)) (frees F \<union> U \<union> X)
     \<and> frees F \<inter> U = {} \<and> (frees F \<union> U) \<inter> X = {}
     \<and> (\<forall>p k. p \<in> set (F k) \<longrightarrow> pg_state w p = PAGE_STATE_FREE_LIST_HEAD \<and> fl_order w p = k)
     \<and> (\<forall>q \<in> sec_pages (sections w ! s). pg_state w q = PAGE_STATE_FREE_LIST_HEAD \<longrightarrow> fl_order w q = 0
          \<longrightarrow> q \<in> set (F 0) \<union> E)
     \<and> (\<forall>q n. (q, n) \<in> U \<longrightarrow> pg_state w q \<noteq> PAGE_STATE_FREE_LIST_HEAD)"

lemma sec_okD:
  assumes "sec_ok w s F U X E"
  shows "s < length (sections w)"
    and "k < MAX_ORDER (arch_of w) \<Longrightarrow> list_at (links w) (freelist_link s k) (map link0 (F k))"
    and "k < MAX_ORDER (arch_of w) \<Longrightarrow> fl_count (sections w ! s) k = of_nat (length (F k))"
    and "\<not> k < MAX_ORDER (arch_of w) \<Longrightarrow> F k = []"
    and "max_order (sections w ! s) \<le> MAX_ORDER (arch_of w)"
    and "tiled (sec_pages (sections w ! s)) (frees F \<union> U \<union> X)"
    and "frees F \<inter> U = {}" and "(frees F \<union> U) \<inter> X = {}"
    and "p \<in> set (F k) \<Longrightarrow> pg_state w p = PAGE_STATE_FREE_LIST_HEAD"
    and "p \<in> set (F k) \<Longrightarrow> fl_order w p = k"
    and "q \<in> sec_pages (sections w ! s) \<Longrightarrow> pg_state w q = PAGE_STATE_FREE_LIST_HEAD \<Longrightarrow> fl_order w q = 0
          \<Longrightarrow> q \<in> set (F 0) \<union> E"
    and "(q, n) \<in> U \<Longrightarrow> pg_state w q \<noteq> PAGE_STATE_FREE_LIST_HEAD"
  using assms unfolding sec_ok_def by (elim conjE, (assumption | erule allE | blast)+)+

lemma sec_okI:
  assumes "s < length (sections w)"
    and "\<And>k. k < MAX_ORDER (arch_of w) \<Longrightarrow> list_at (links w) (freelist_link s k) (map link0 (F k))"
    and "\<And>k. k < MAX_ORDER (arch_of w) \<Longrightarrow> fl_count (sections w ! s) k = of_nat (length (F k))"
    and "\<And>k. \<not> k < MAX_ORDER (arch_of w) \<Longrightarrow> F k = []"
    and "max_order (sections w ! s) \<le> MAX_ORDER (arch_of w)"
    and "tiled (sec_pages (sections w ! s)) (frees F \<union> U \<union> X)"
    and "frees F \<inter> U = {}" and "(frees F \<union> U) \<inter> X = {}"
    and "\<And>p k. p \<in> set (F k) \<Longrightarrow> pg_state w p = PAGE_STATE_FREE_LIST_HEAD"
    and "\<And>p k. p \<in> set (F k) \<Longrightarrow> fl_order w p = k"
    and "\<And>q. q \<in> sec_pages (sections w ! s) \<Longrightarrow> pg_state w q = PAGE_STATE_FREE_LIST_HEAD \<Longrightarrow> fl_order w q = 0
          \<Longrightarrow> q \<in> set (F 0) \<union> E"
    and "\<And>q n. (q, n) \<in> U \<Longrightarrow> pg_state w q \<noteq> PAGE_STATE_FREE_LIST_HEAD"
  shows "sec_ok w s F U X E"
  unfolding sec_ok_def using assms by simp

lemma quad_mod:
  fixes a i :: nat
  assumes "i < 4"
  shows "(4 * a + i) mod 4 = i"
  using assms by simp

lemma link_mod:
  "link0 p mod 4 = 0" "link8 p mod 4 = 1" "freelist_link s k mod 4 = 2" "other_link i mod 4 = 3"
  unfolding link8_def freelist_link_def other_link_def
  by (simp_all only: quad_mod) (simp add: link0_def)

lemma neq_by_mod: "x mod 4 \<noteq> y mod 4 \<Longrightarrow> x \<noteq> (y :: nat)"
  by blast

lemma link_neq [simp]:
  "link0 p \<noteq> link8 q" "link8 q \<noteq> link0 p"
  "link0 p \<noteq> freelist_link s k" "freelist_link s k \<noteq> link0 p"
  "link8 p \<noteq> freelist_link s k" "freelist_link s k \<noteq> link8 p"
  "link0 p \<noteq> other_link i" "other_link i \<noteq> link0 p" "link8 p \<noteq> other_link i" "other_link i \<noteq> link8 p"
  "freelist_link s k \<noteq> other_link i" "other_link i \<noteq> freelist_link s k"
  by (rule neq_by_mod, simp add: link_mod)+

lemma link_simps [simp]:
  "link0 p = link0 q \<longleftrightarrow> p = q" "link8 p = link8 q \<longleftrightarrow> p = q" "page_of_link0 (link0 p) = p"
  by (simp_all add: link0_def link8_def page_of_link0_def)

lemma inj_link0: "inj_on link0 A"
  by (simp add: inj_on_def)

lemma freelist_link_eq:
  assumes "k < 32" and "j < 32"
  shows "freelist_link s k = freelist_link t j \<longleftrightarrow> s = t \<and> k = j"
proof
  assume "freelist_link s k = freelist_link t j"
  then have e: "32 * s + k = 32 * t + j"
    by (simp add: freelist_link_def)
  then have "(32 * s + k) div 32 = (32 * t + j) div 32" "(32 * s + k) mod 32 = (32 * t + j) mod 32"
    by simp_all
  then show "s = t \<and> k = j"
    using assms by simp
qed simp

lemma max_order_lt: "k < MAX_ORDER a \<Longrightarrow> k < 32"
  by (simp add: MAX_ORDER_def split: if_splits)

text \<open>The blocks of different orders have no pages in common.\<close>

lemma frees_mem: "p \<in> set (F k) \<Longrightarrow> (p, 2 ^ k) \<in> frees F"
  by (auto simp: frees_def)

lemma frees_update: "frees (F(k := p # F k)) = insert (p, 2 ^ k) (frees F)"
  by (auto simp: frees_def split: if_splits)

lemma free_same_order:
  assumes "sec_ok w s F U X E" and "p \<in> set (F k)" and "p \<in> set (F j)"
  shows "k = j"
  using sec_okD(10) [OF assms(1,2)] sec_okD(10) [OF assms(1,3)] by simp

lemma transit_not_free:
  assumes "sec_ok w s F U X E" and "(p, n) \<in> X"
  shows "q \<in> set (F k) \<Longrightarrow> \<not> (p \<le> q \<and> q < p + n)" and "(q, m) \<in> U \<Longrightarrow> \<not> (p \<le> q \<and> q < p + n)"
    and "0 < n"
proof -
  note t = sec_okD(6) [OF assms(1)]
  have x: "(p, n) \<in> frees F \<union> U \<union> X"
    using assms(2) by blast
  show "0 < n"
    by (rule tiledD(1) [OF t x])
  show "\<not> (p \<le> q \<and> q < p + n)" if "q \<in> set (F k)"
  proof
    assume q: "p \<le> q \<and> q < p + n"
    have f: "(q, 2 ^ k) \<in> frees F"
      by (rule frees_mem [of q F k, OF that])
    then have "(q, 2 ^ k) = (p, n)"
      using tiled_same [OF t _ x, of q "2 ^ k" q] q by simp
    then show False
      using f assms(2) sec_okD(8) [OF assms(1)] by blast
  qed
  show "\<not> (p \<le> q \<and> q < p + n)" if "(q, m) \<in> U"
  proof
    assume q: "p \<le> q \<and> q < p + n"
    have "(q, m) \<in> frees F \<union> U \<union> X"
      using that by blast
    moreover from this have "0 < m"
      by (rule tiledD(1) [OF t])
    ultimately have "(q, m) = (p, n)"
      using tiled_same [OF t _ x, of q m q] q by simp
    then show False
      using that assms(2) sec_okD(8) [OF assms(1)] by blast
  qed
qed


section \<open>Frames\<close>

text \<open>What the operations on the free lists of section \<open>s\<close> may change: the links of its lists, the
  marks of the pages \<open>P\<close>, and the statistics of the section and of its zone.\<close>

definition same_place :: "page_section \<Rightarrow> page_section \<Rightarrow> bool" where
  "same_place a b \<longleftrightarrow> sec_pfn a = sec_pfn b \<and> sec_range a = sec_range b \<and> sec_zone a = sec_zone b"

definition sec_links :: "nat \<Rightarrow> page_world \<Rightarrow> nat set" where
  "sec_links s w = link0 ` sec_pages (sections w ! s) \<union> freelist_link s ` {..<32}"

definition frame :: "nat \<Rightarrow> nat set \<Rightarrow> page_world \<Rightarrow> page_world \<Rightarrow> bool" where
  "frame s P w w' \<longleftrightarrow>
     (\<exists>l st ord th secs zf.
        w' = w\<lparr>links := l, pg_state := st, fl_order := ord, fl_tail_head := th, sections := secs, zone_free := zf\<rparr>
        \<and> agree_outside (sec_links s w) (links w) l
        \<and> (\<forall>q. q \<notin> P \<longrightarrow> st q = pg_state w q \<and> ord q = fl_order w q \<and> th q = fl_tail_head w q)
        \<and> length secs = length (sections w)
        \<and> (\<forall>i. i \<noteq> s \<longrightarrow> secs ! i = sections w ! i)
        \<and> same_place (secs ! s) (sections w ! s)
        \<and> (\<forall>z. z \<noteq> sec_zone (sections w ! s) \<longrightarrow> zf z = zone_free w z))"

lemma same_place_pages: "same_place a b \<Longrightarrow> sec_pages a = sec_pages b"
  by (simp add: same_place_def sec_pages_def)

lemma frame_keeps:
  assumes "frame s P w w'"
  shows "arch_of w' = arch_of w" "pg_section w' = pg_section w" "slab_tail_head w' = slab_tail_head w"
    "pg_refcount w' = pg_refcount w" "zone_sections w' = zone_sections w" "fallback_zone w' = fallback_zone w"
    "zone_default w' = zone_default w" "HHDM_OFFSET w' = HHDM_OFFSET w" "pmem w' = pmem w"
    "length (sections w') = length (sections w)" "level_order w' = level_order w" "PAGE_END w' = PAGE_END w"
  using assms by (auto simp: frame_def)

lemma frame_marks:
  assumes "frame s P w w'" and "q \<notin> P"
  shows "pg_state w' q = pg_state w q" "fl_order w' q = fl_order w q" "fl_tail_head w' q = fl_tail_head w q"
  using assms by (auto simp: frame_def)

lemma frame_places:
  assumes "frame s P w w'"
  shows "same_place (sections w' ! i) (sections w ! i)" and "i \<noteq> s \<Longrightarrow> sections w' ! i = sections w ! i"
    and "agree_outside (sec_links s w) (links w) (links w')"
    and "z \<noteq> sec_zone (sections w ! s) \<Longrightarrow> zone_free w' z = zone_free w z"
  using assms by (auto simp: frame_def same_place_def)

lemma frame_refl: "frame s P w w"
  unfolding frame_def
  by (rule exI [of _ "links w"], rule exI [of _ "pg_state w"], rule exI [of _ "fl_order w"],
      rule exI [of _ "fl_tail_head w"], rule exI [of _ "sections w"], rule exI [of _ "zone_free w"])
    (simp add: agree_outside_refl same_place_def)

lemma frame_mono: "frame s P w w' \<Longrightarrow> P \<subseteq> Q \<Longrightarrow> frame s Q w w'"
  unfolding frame_def by blast

lemma sec_links_frame: "frame s P w w' \<Longrightarrow> sec_links t w' = sec_links t w"
  using same_place_pages [OF frame_places(1)] by (simp add: sec_links_def)

lemma frame_trans:
  assumes "frame s P w w'" and "frame s P w' w''"
  shows "frame s P w w''"
proof -
  obtain l st ord th secs zf where w': "w' = w\<lparr>links := l, pg_state := st, fl_order := ord,
      fl_tail_head := th, sections := secs, zone_free := zf\<rparr>"
    using assms(1) unfolding frame_def by blast
  obtain l' st' ord' th' secs' zf' where w'': "w'' = w'\<lparr>links := l', pg_state := st', fl_order := ord',
      fl_tail_head := th', sections := secs', zone_free := zf'\<rparr>"
    using assms(2) unfolding frame_def by blast
  have "agree_outside (sec_links s w) (links w) (links w'')"
    using agree_outside_trans [OF frame_places(3) [OF assms(1)] frame_places(3) [OF assms(2)]]
    by (simp add: sec_links_frame [OF assms(1)])
  moreover have "same_place (sections w'' ! s) (sections w ! s)"
    using frame_places(1) [OF assms(1), of s] frame_places(1) [OF assms(2), of s]
    by (simp add: same_place_def)
  moreover have "w'' = w\<lparr>links := l', pg_state := st', fl_order := ord',
      fl_tail_head := th', sections := secs', zone_free := zf'\<rparr>"
    by (simp add: w'' w')
  moreover have "length (sections w'') = length (sections w)"
    using frame_keeps(10) [OF assms(1)] frame_keeps(10) [OF assms(2)] by simp
  moreover have "sections w'' ! i = sections w ! i" if "i \<noteq> s" for i
    using frame_places(2) [OF assms(1) that] frame_places(2) [OF assms(2) that] by simp
  moreover have "pg_state w'' q = pg_state w q \<and> fl_order w'' q = fl_order w q
      \<and> fl_tail_head w'' q = fl_tail_head w q" if "q \<notin> P" for q
    using frame_marks [OF assms(1) that] frame_marks [OF assms(2) that] by simp
  moreover have "zone_free w'' z = zone_free w z" if "z \<noteq> sec_zone (sections w ! s)" for z
    using frame_places(4) [OF assms(1) that] frame_places(4) [OF assms(2), of z] frame_places(1) [OF assms(1), of s]
      that by (simp add: same_place_def)
  ultimately show ?thesis
    unfolding frame_def
    by (intro exI [of _ l'] exI [of _ st'] exI [of _ ord'] exI [of _ th'] exI [of _ secs'] exI [of _ zf']) simp
qed

lemma wf_sections_frame:
  assumes "wf_sections w" and "frame s P w w'"
  shows "wf_sections w'"
proof -
  have place: "sec_pfn (sections w' ! i) = sec_pfn (sections w ! i)"
      "sec_range (sections w' ! i) = sec_range (sections w ! i)" for i
    using frame_places(1) [OF assms(2), of i] by (simp_all add: same_place_def)
  show ?thesis
    using assms(1)
    unfolding wf_sections_def Let_def sec_virt_def sec_pages_def place frame_keeps(1,2,8,10,12) [OF assms(2)] .
qed

text \<open>Sections have no pages in common, so a section stays as it is when another one changes.\<close>

lemma sections_disjoint:
  assumes "wf_sections w" and "s < length (sections w)" and "t < length (sections w)" and "s \<noteq> t"
  shows "sec_pages (sections w ! s) \<inter> sec_pages (sections w ! t) = {}"
  using wf_sectionsD(3) [OF assms(1,2) refl] wf_sectionsD(3) [OF assms(1,3) refl] assms(4)
  by (metis disjoint_iff nat.inject)

lemma block_in_pages:
  assumes "sec_ok w s F U X E"
  shows "p \<in> set (F k) \<Longrightarrow> ivl (p, 2 ^ k) \<subseteq> sec_pages (sections w ! s)"
    and "b \<in> U \<Longrightarrow> ivl b \<subseteq> sec_pages (sections w ! s)" and "b \<in> X \<Longrightarrow> ivl b \<subseteq> sec_pages (sections w ! s)"
  using sec_okD(6) [OF assms] frees_mem [of p F k] unfolding tiled_def by blast+

lemma head_in_pages:
  assumes "sec_ok w s F U X E"
  shows "p \<in> set (F k) \<Longrightarrow> p \<in> sec_pages (sections w ! s)"
    and "(p, n) \<in> U \<Longrightarrow> p \<in> sec_pages (sections w ! s)"
proof -
  show "p \<in> sec_pages (sections w ! s)" if "p \<in> set (F k)"
    using block_in_pages(1) [OF assms that] subsetD [of "ivl (p, 2 ^ k)" _ p] by simp
  show "p \<in> sec_pages (sections w ! s)" if "(p, n) \<in> U"
  proof -
    have "0 < n"
      using tiledD(1) [OF sec_okD(6) [OF assms], of p n] that by blast
    then show ?thesis
      using block_in_pages(2) [OF assms that] subsetD [of "ivl (p, n)" _ p] by simp
  qed
qed

lemma sec_ok_frame:
  assumes "sec_ok w t F U X E" and "wf_sections w" and "frame s P w w'" and "s \<noteq> t"
    and "s < length (sections w)" and "P \<subseteq> sec_pages (sections w ! s)"
  shows "sec_ok w' t F U X E"
proof -
  note d = sec_okD [OF assms(1)] and keep = frame_keeps [OF assms(3)]
  have disj: "sec_pages (sections w ! s) \<inter> sec_pages (sections w ! t) = {}"
    by (rule sections_disjoint [OF assms(2,5) d(1) assms(4)])
  have t: "sections w' ! t = sections w ! t"
    using frame_places(2) [OF assms(3), of t] assms(4) by simp
  have marks: "pg_state w' q = pg_state w q" "fl_order w' q = fl_order w q" if "q \<in> sec_pages (sections w ! t)" for q
  proof -
    have "q \<notin> P"
      using that assms(6) disj by blast
    then show "pg_state w' q = pg_state w q" "fl_order w' q = fl_order w q"
      by (simp_all add: frame_marks [OF assms(3)])
  qed
  have links: "list_at (links w') (freelist_link t k) (map link0 (F k))" if "k < MAX_ORDER (arch_of w)" for k
  proof (rule list_at_frame [OF d(2) [OF that] frame_places(3) [OF assms(3)]])
    have "freelist_link t k \<notin> sec_links s w"
      using assms(4) freelist_link_eq [OF max_order_lt [OF that]] by (auto simp: sec_links_def)
    moreover have "link0 p \<notin> sec_links s w" if "p \<in> set (F k)" for p
      using head_in_pages(1) [OF assms(1) that] disj by (auto simp: sec_links_def)
    ultimately show "set (freelist_link t k # map link0 (F k)) \<inter> sec_links s w = {}"
      by auto
  qed
  show ?thesis
  proof (rule sec_okI, unfold keep(1,10) t)
    show "pg_state w' p = PAGE_STATE_FREE_LIST_HEAD" "fl_order w' p = k" if "p \<in> set (F k)" for p k
      using marks [OF head_in_pages(1) [OF assms(1) that]] d(9,10) [OF that] by simp_all
    show "pg_state w' q \<noteq> PAGE_STATE_FREE_LIST_HEAD" if "(q, n) \<in> U" for q n
      using marks [OF head_in_pages(2) [OF assms(1) that]] d(12) [OF that] by simp
    show "q \<in> set (F 0) \<union> E" if "q \<in> sec_pages (sections w ! t)"
        "pg_state w' q = PAGE_STATE_FREE_LIST_HEAD" "fl_order w' q = 0" for q
      using d(11) [OF that(1)] that(2,3) marks [OF that(1)] by simp
  qed (fact d(1) d(5) d(6) d(7) d(8) | rule links d(3) d(4), assumption)+
qed

end
