(* ===== verification/Free_Lists_Ops.thy ===== *)
theory Free_Lists_Ops
  imports Free_Lists
begin

text \<open>
  The operations on the free lists of a section keep its invariant: putting a block into a list, taking
  one off, splitting a block and returning a range of pages.
\<close>

section \<open>Putting a block into its list\<close>

lemma link0_image [simp]: "link0 p \<in> link0 ` A \<longleftrightarrow> p \<in> A"
  by auto

lemma set_section_simps [simp]:
  "arch_of (set_section s sec w) = arch_of w" "links (set_section s sec w) = links w"
  "pg_state (set_section s sec w) = pg_state w" "fl_order (set_section s sec w) = fl_order w"
  "fl_tail_head (set_section s sec w) = fl_tail_head w"
  "sections (set_section s sec w) = (sections w)[s := sec]"
  by (simp_all add: set_section_def)

lemma page_set_state_simps [simp]:
  "arch_of (page_set_state p st w) = arch_of w" "links (page_set_state p st w) = links w"
  "pg_state (page_set_state p st w) = (pg_state w)(p := st)" "fl_order (page_set_state p st w) = fl_order w"
  "fl_tail_head (page_set_state p st w) = fl_tail_head w" "sections (page_set_state p st w) = sections w"
  by (simp_all add: page_set_state_def)

lemma change_count_simps [simp]:
  "fl_count (change_count k d sec) = (fl_count sec)(k := fl_count sec k + d)"
  "max_order (change_count k d sec) = max_order sec" "min_order (change_count k d sec) = min_order sec"
  "same_place (change_count k d sec) sec" "sec_pages (change_count k d sec) = sec_pages sec"
  by (simp_all add: change_count_def same_place_def sec_pages_def)

lemma frameI:
  assumes "w' = w\<lparr>links := links w', pg_state := pg_state w', fl_order := fl_order w',
      fl_tail_head := fl_tail_head w', sections := sections w', zone_free := zone_free w'\<rparr>"
    and "agree_outside (sec_links s w) (links w) (links w')"
    and "\<And>q. q \<notin> P \<Longrightarrow> pg_state w' q = pg_state w q"
    and "\<And>q. q \<notin> P \<Longrightarrow> fl_order w' q = fl_order w q"
    and "\<And>q. q \<notin> P \<Longrightarrow> fl_tail_head w' q = fl_tail_head w q"
    and "length (sections w') = length (sections w)"
    and "\<And>i. i \<noteq> s \<Longrightarrow> sections w' ! i = sections w ! i"
    and "same_place (sections w' ! s) (sections w ! s)"
    and "\<And>z. z \<noteq> sec_zone (sections w ! s) \<Longrightarrow> zone_free w' z = zone_free w z"
  shows "frame s P w w'"
  unfolding frame_def
  by (rule exI [of _ "links w'"], rule exI [of _ "pg_state w'"], rule exI [of _ "fl_order w'"],
      rule exI [of _ "fl_tail_head w'"], rule exI [of _ "sections w'"], rule exI [of _ "zone_free w'"])
    (use assms in blast)

text \<open>The world after \<open>push_block\<close>, given the links.\<close>

definition pushed :: "nat \<Rightarrow> nat \<Rightarrow> nat \<Rightarrow> list_heap \<Rightarrow> page_world \<Rightarrow> page_world" where
  "pushed s k p l w =
     w\<lparr>links := l,
       pg_state := (if k = 0 then (pg_state w)(p := PAGE_STATE_FREE_LIST_HEAD)
                    else (pg_state w)(p := PAGE_STATE_FREE_LIST_HEAD, p + 2 ^ k - 1 := PAGE_STATE_FREE_LIST_TAIL)),
       fl_order := (fl_order w)(p := k),
       fl_tail_head := (if k = 0 then fl_tail_head w else (fl_tail_head w)(p + 2 ^ k - 1 := p)),
       sections := (sections w)[s := change_count k 1 (sections w ! s)]\<rparr>"

lemma push_block_pushed:
  assumes "s < length (sections w)" and "k < MAX_ORDER (arch_of w)"
    and "list_add (freelist_link s k) (link0 p) (list_init (link0 p) (links w)) = Some l"
  shows "push_block s k p w = Some (pushed s k p l w)"
  using assms
  by (simp add: push_block_def pushed_def modify_links_def modify_section_def get_section_def set_section_def
      page_set_state_def Let_def)

lemma push_links:
  assumes "sec_ok w s F U X E" and "(p, 2 ^ k) \<in> X" and "k < MAX_ORDER (arch_of w)"
  obtains l where "list_add (freelist_link s k) (link0 p) (list_init (link0 p) (links w)) = Some l"
    and "list_at l (freelist_link s k) (map link0 (p # F k))"
    and "\<forall>j < MAX_ORDER (arch_of w). j \<noteq> k \<longrightarrow> list_at l (freelist_link s j) (map link0 (F j))"
    and "agree_outside (sec_links s w) (links w) l"
proof -
  let ?h = "freelist_link s k" and ?l = "list_init (link0 p) (links w)"
  note d = sec_okD [OF assms(1)]
  have new: "p \<notin> set (F j)" for j
    using transit_not_free(1,3) [OF assms(1,2)] by fastforce
  have at: "list_at ?l (freelist_link s j) (map link0 (F j))" if "j < MAX_ORDER (arch_of w)" for j
    by (rule list_at_frame [OF d(2) [OF that] list_init_agree]) (use new in auto)
  obtain l where l: "list_add ?h (link0 p) ?l = Some l" "list_at l ?h (map link0 (p # F k))"
    using list_add_at [of ?l ?h "[]" "map link0 (F k)" "link0 p"] at [OF assms(3)] new by auto
  note agree = list_add_agree [OF at [OF assms(3)] l(1)]
  have other: "list_at l (freelist_link s j) (map link0 (F j))"
    if "j < MAX_ORDER (arch_of w)" "j \<noteq> k" for j
  proof (rule list_at_frame [OF at [OF that(1)] agree])
    have "set (F j) \<inter> set (F k) = {}"
      using free_same_order [OF assms(1)] that(2) by blast
    then show "set (freelist_link s j # map link0 (F j)) \<inter> insert (link0 p) (set (?h # map link0 (F k))) = {}"
      using that(2) new freelist_link_eq [OF max_order_lt [OF that(1)] max_order_lt [OF assms(3)], of s s] by auto
  qed
  have "p \<in> sec_pages (sections w ! s)"
    using block_in_pages(3) [OF assms(1,2)] subsetD [of "ivl (p, 2 ^ k)" _ p] by simp
  then have "{link0 p} \<union> insert (link0 p) (set (?h # map link0 (F k))) \<subseteq> sec_links s w"
    using head_in_pages(1) [OF assms(1)] max_order_lt [OF assms(3)] by (auto simp: sec_links_def)
  then show thesis
    using that [OF l] other agree_outside_mono [OF agree_outside_trans [OF list_init_agree agree]] by blast
qed


lemma push_block_ok:
  assumes "sec_ok w s F U (insert (p, 2 ^ k) X) E" and "(p, 2 ^ k) \<notin> X" and "k < MAX_ORDER (arch_of w)"
  obtains w' where "push_block s k p w = Some w'"
    and "sec_ok w' s (F(k := p # F k)) U X (E - {p, p + 2 ^ k - 1})" and "frame s (ivl (p, 2 ^ k)) w w'"
proof -
  let ?F = "F(k := p # F k)" and ?tail = "p + 2 ^ k - 1"
  note d = sec_okD [OF assms(1)] and x = transit_not_free [OF assms(1) insertI1]
  obtain l where l: "list_add (freelist_link s k) (link0 p) (list_init (link0 p) (links w)) = Some l"
      "list_at l (freelist_link s k) (map link0 (p # F k))"
      "\<forall>j < MAX_ORDER (arch_of w). j \<noteq> k \<longrightarrow> list_at l (freelist_link s j) (map link0 (F j))"
      "agree_outside (sec_links s w) (links w) l"
    by (rule push_links [OF assms(1) insertI1 assms(3)])
  let ?w = "pushed s k p l w"
  have sec: "sections ?w ! s = change_count k 1 (sections w ! s)"
    using d(1) by (simp add: pushed_def)
  have "(1 :: nat) \<le> 2 ^ k"
    by simp
  then have bk: "p \<le> ?tail" "?tail < p + 2 ^ k"
    by linarith+
  have other: "pg_state ?w q = pg_state w q" "fl_order ?w q = fl_order w q" if "\<not> (p \<le> q \<and> q < p + 2 ^ k)" for q
  proof -
    have "q \<noteq> p" "q \<noteq> ?tail"
      using that bk by auto
    then show "pg_state ?w q = pg_state w q" "fl_order ?w q = fl_order w q"
      by (simp_all add: pushed_def)
  qed
  have p: "pg_state ?w p = PAGE_STATE_FREE_LIST_HEAD" "fl_order ?w p = k"
  proof -
    have "p \<noteq> ?tail" if "k \<noteq> 0"
    proof -
      have "(1 :: nat) < 2 ^ k"
        using that by (intro one_less_power) simp_all
      then show ?thesis
        by linarith
    qed
    then show "pg_state ?w p = PAGE_STATE_FREE_LIST_HEAD" "fl_order ?w p = k"
      by (cases "k = 0"; simp add: pushed_def)+
  qed
  have f: "frees ?F = insert (p, 2 ^ k) (frees F)"
    by (rule frees_update)
  have "sec_ok ?w s ?F U X (E - {p, ?tail})"
  proof (rule sec_okI, unfold sec)
    show "pg_state ?w q = PAGE_STATE_FREE_LIST_HEAD" "fl_order ?w q = j" if "q \<in> set (?F j)" for q j
      using that p other [OF x(1), of q j] d(9,10) [of q j] by (auto split: if_splits)
    show "pg_state ?w q \<noteq> PAGE_STATE_FREE_LIST_HEAD" if "(q, n) \<in> U" for q n
      using other(1) [OF x(2) [OF that]] d(12) [OF that] by simp
    show "q \<in> set (?F 0) \<union> (E - {p, ?tail})" if "q \<in> sec_pages (change_count k 1 (sections w ! s))"
        "pg_state ?w q = PAGE_STATE_FREE_LIST_HEAD" "fl_order ?w q = 0" for q
    proof (cases "q = p \<or> q = ?tail")
      case True
      then show ?thesis
        using that(2,3) p by (cases "k = 0") (auto simp: pushed_def split: if_splits)
    next
      case False
      then have "pg_state w q = PAGE_STATE_FREE_LIST_HEAD" "fl_order w q = 0"
        using that(2,3) by (simp_all add: pushed_def split: if_splits)
      then show ?thesis
        using d(11) [of q] that(1) False by auto
    qed
    show "tiled (sec_pages (change_count k 1 (sections w ! s))) (frees ?F \<union> U \<union> X)"
      using d(6) by (simp add: f)
    show "frees ?F \<inter> U = {}" "(frees ?F \<union> U) \<inter> X = {}"
      using d(7,8) assms(2) by (auto simp: f)
  qed (use d(1,3-5) l(2,3) assms(3) in \<open>auto simp: pushed_def\<close>)
  moreover have "frame s (ivl (p, 2 ^ k)) w ?w"
    by (rule frameI) (use l(4) d(1) bk in \<open>auto simp: pushed_def\<close>)
  ultimately show thesis
    using that push_block_pushed [OF d(1) assms(3) l(1)] by blast
qed


section \<open>Taking a block off its list\<close>

lemma take_links:
  assumes "sec_ok w s F U X E" and "F k = as @ p # bs"
  obtains l where "list_deinit (link0 p) (links w) = Some l"
    and "list_at l (freelist_link s k) (map link0 (as @ bs))"
    and "\<forall>j < MAX_ORDER (arch_of w). j \<noteq> k \<longrightarrow> list_at l (freelist_link s j) (map link0 (F j))"
    and "agree_outside (sec_links s w) (links w) l"
proof -
  let ?h = "freelist_link s k"
  note d = sec_okD [OF assms(1)]
  have k: "k < MAX_ORDER (arch_of w)"
    using d(4) [of k] assms(2) by auto
  have at: "list_at (links w) ?h (map link0 as @ link0 p # map link0 bs)"
    using d(2) [OF k] by (simp add: assms(2))
  obtain l where l: "list_deinit (link0 p) (links w) = Some l" "list_at l ?h (map link0 as @ map link0 bs)"
    using list_deinit_at [OF at] by blast
  note agree = list_deinit_agree [OF at l(1)]
  have N: "set (?h # map link0 as @ link0 p # map link0 bs) = insert ?h (link0 ` set (F k))"
    by (auto simp: assms(2))
  have other: "list_at l (freelist_link s j) (map link0 (F j))"
    if "j < MAX_ORDER (arch_of w)" "j \<noteq> k" for j
  proof (rule list_at_frame [OF d(2) [OF that(1)] agree], unfold N)
    have "set (F j) \<inter> set (F k) = {}"
      using free_same_order [OF assms(1)] that(2) by blast
    then show "set (freelist_link s j # map link0 (F j)) \<inter> insert ?h (link0 ` set (F k)) = {}"
      using that(2) freelist_link_eq [OF max_order_lt [OF that(1)] max_order_lt [OF k], of s s] by auto
  qed
  have "insert ?h (link0 ` set (F k)) \<subseteq> sec_links s w"
    using head_in_pages(1) [OF assms(1)] max_order_lt [OF k] by (auto simp: sec_links_def)
  then have "agree_outside (sec_links s w) (links w) l"
    by (rule agree_outside_mono [OF agree, unfolded N])
  then show thesis
    using that [OF l(1)] l(2) other by simp
qed

lemma frees_iff: "(q, n) \<in> frees F \<longleftrightarrow> (\<exists>j. n = 2 ^ j \<and> q \<in> set (F j))"
  unfolding frees_def by blast

lemma frees_remove:
  assumes "F k = as @ p # bs"
  shows "frees F = insert (p, 2 ^ k) (frees (F(k := as @ bs)))"
proof -
  have mem: "q \<in> set (F j) \<longleftrightarrow> q = p \<and> j = k \<or> q \<in> set ((F(k := as @ bs)) j)" for q j
    by (auto simp: assms)
  have "(q, n) \<in> frees F \<longleftrightarrow> (q, n) \<in> insert (p, 2 ^ k) (frees (F(k := as @ bs)))" for q n
    unfolding frees_iff mem insert_iff prod.inject by metis
  then show ?thesis
    by (intro set_eqI) (simp only: split_paired_all)
qed

text \<open>The world after a block has been taken off, given the links and the new statistics.\<close>

definition taken_off :: "nat \<Rightarrow> list_heap \<Rightarrow> page_section \<Rightarrow> page_world \<Rightarrow> page_world" where
  "taken_off s l sec w = w\<lparr>links := l, sections := (sections w)[s := sec]\<rparr>"

lemma taken_off_ok:
  assumes "sec_ok w s F U X E" and "F k = as @ p # bs"
    and "list_at l (freelist_link s k) (map link0 (as @ bs))"
    and "\<forall>j < MAX_ORDER (arch_of w). j \<noteq> k \<longrightarrow> list_at l (freelist_link s j) (map link0 (F j))"
    and "agree_outside (sec_links s w) (links w) l"
    and "fl_count sec = (fl_count (sections w ! s))(k := fl_count (sections w ! s) k - 1)"
    and "same_place sec (sections w ! s)" and "max_order sec \<le> MAX_ORDER (arch_of w)"
  shows "sec_ok (taken_off s l sec w) s (F(k := as @ bs)) U (insert (p, 2 ^ k) X)
      (if k = 0 then insert p E else E)" (is "sec_ok ?w s ?F U ?X ?E")
    and "frame s {} w (taken_off s l sec w)"
proof -
  note d = sec_okD [OF assms(1)]
  have k: "k < MAX_ORDER (arch_of w)"
    using d(4) [of k] assms(2) by auto
  have "distinct (F k)"
    using d(2) [OF k] by (simp add: list_at_def distinct_map)
  then have p: "p \<notin> set (as @ bs)"
    by (simp add: assms(2))
  have sec: "sections ?w ! s = sec" "sec_pages sec = sec_pages (sections w ! s)"
    using d(1) same_place_pages [OF assms(7)] by (simp_all add: taken_off_def)
  have f: "frees F = insert (p, 2 ^ k) (frees ?F)"
    by (rule frees_remove) (fact assms(2))
  have new: "(p, 2 ^ k) \<notin> frees ?F"
    using p unfolding frees_iff by simp
  have pU: "(p, 2 ^ k) \<notin> U" and pX: "(p, 2 ^ k) \<notin> X"
    using d(7,8) unfolding f by blast+
  have sub: "q \<in> set (F j)" if "q \<in> set (?F j)" for q j
    using that by (auto simp: assms(2) split: if_splits)
  show "sec_ok ?w s ?F U ?X ?E"
  proof (rule sec_okI, unfold sec)
    show "pg_state ?w q = PAGE_STATE_FREE_LIST_HEAD" "fl_order ?w q = j" if "q \<in> set (?F j)" for q j
      using d(9,10) [OF sub [OF that]] by (simp_all add: taken_off_def)
    show "pg_state ?w q \<noteq> PAGE_STATE_FREE_LIST_HEAD" if "(q, n) \<in> U" for q n
      using d(12) [OF that] by (simp add: taken_off_def)
    show "q \<in> set (?F 0) \<union> ?E" if "q \<in> sec_pages (sections w ! s)"
        "pg_state ?w q = PAGE_STATE_FREE_LIST_HEAD" "fl_order ?w q = 0" for q
    proof -
      have "q \<in> set (F 0) \<union> E"
        using d(11) [OF that(1)] that(2,3) by (simp add: taken_off_def)
      then show ?thesis
        using assms(2) by auto
    qed
    show "tiled (sec_pages (sections w ! s)) (frees ?F \<union> U \<union> ?X)"
      using d(6) unfolding f by (simp only: Un_insert_left Un_insert_right)
    show "frees ?F \<inter> U = {}"
      using d(7) unfolding f by blast
    show "(frees ?F \<union> U) \<inter> ?X = {}"
      using d(8) new pU unfolding f by blast
    show "fl_count sec j = of_nat (length (?F j))" if "j < MAX_ORDER (arch_of ?w)" for j
      using d(3) [of j] that by (auto simp: assms(2,6) taken_off_def)
  qed (use d(1,4) assms(3,4,8) k in \<open>auto simp: taken_off_def\<close>)
  show "frame s {} w ?w"
    by (rule frameI) (use d(1) assms(5,7) in \<open>auto simp: taken_off_def\<close>)
qed

end
