(* ===== verification/Page_Alloc_Correct.thy ===== *)
theory Page_Alloc_Correct
  imports Free_Lists_Ops
begin

text \<open>
  Allocation and freeing of pages keep the invariant of the sections: an allocation hands out a block
  that was free and marks it, and freeing a block returns its pages to the free lists.
\<close>

section \<open>Statistics\<close>

text \<open>Changes of the bounds of the orders and of the number of free pages do not affect the lists.\<close>

lemma sec_ok_stats:
  assumes "sec_ok w s F U X E" and "same_place sec (sections w ! s)" and "fl_count sec = fl_count (sections w ! s)"
    and "max_order sec \<le> MAX_ORDER (arch_of w)"
    and "\<And>z. z \<noteq> sec_zone (sections w ! s) \<Longrightarrow> zf z = zone_free w z"
  shows "sec_ok (w\<lparr>sections := (sections w)[s := sec], zone_free := zf\<rparr>) s F U X E" (is "sec_ok ?w s F U X E")
    and "frame s P w (w\<lparr>sections := (sections w)[s := sec], zone_free := zf\<rparr>)"
proof -
  note d = sec_okD [OF assms(1)]
  have sec: "sections ?w ! s = sec" "sec_pages sec = sec_pages (sections w ! s)"
    using d(1) same_place_pages [OF assms(2)] by simp_all
  show "sec_ok ?w s F U X E"
  proof (rule sec_okI, unfold sec)
    show "pg_state ?w q = PAGE_STATE_FREE_LIST_HEAD" "fl_order ?w q = j" if "q \<in> set (F j)" for q j
      using d(9,10) [OF that] by simp_all
    show "pg_state ?w q \<noteq> PAGE_STATE_FREE_LIST_HEAD" if "(q, n) \<in> U" for q n
      using d(12) [OF that] by simp
    show "q \<in> set (F 0) \<union> E" if "q \<in> sec_pages (sections w ! s)"
        "pg_state ?w q = PAGE_STATE_FREE_LIST_HEAD" "fl_order ?w q = 0" for q
      using d(11) [OF that(1)] that(2,3) by simp
    show "list_at (links ?w) (freelist_link s k) (map link0 (F k))" if "k < MAX_ORDER (arch_of ?w)" for k
      using d(2) that by simp
    show "F k = []" if "\<not> k < MAX_ORDER (arch_of ?w)" for k
      using d(4) that by simp
    show "fl_count sec k = of_nat (length (F k))" if "k < MAX_ORDER (arch_of ?w)" for k
      using d(3) that assms(3) by simp
  qed (use d(1) assms(4) in simp, use d(1) assms(4) in simp, fact d(6), fact d(7), fact d(8))
  show "frame s P w ?w"
    by (rule frameI) (use d(1) assms(2,5) in \<open>simp_all add: agree_outside_refl\<close>)
qed

lemma modify_section_ok:
  assumes "sec_ok w s F U X E" and "same_place (f (sections w ! s)) (sections w ! s)"
    and "fl_count (f (sections w ! s)) = fl_count (sections w ! s)"
    and "max_order (f (sections w ! s)) \<le> MAX_ORDER (arch_of w)"
  obtains w' where "modify_section s f w = Some w'" and "sec_ok w' s F U X E" and "frame s P w w'"
proof -
  let ?w = "w\<lparr>sections := (sections w)[s := f (sections w ! s)], zone_free := zone_free w\<rparr>"
  have "modify_section s f w = Some ?w"
    using sec_okD(1) [OF assms(1)] by (simp add: modify_section_def get_section_def set_section_def)
  then show thesis
    using that sec_ok_stats [OF assms, of "zone_free w"] by blast
qed

lemma raise_max_order_ok:
  assumes "sec_ok w s F U X E" and "k < MAX_ORDER (arch_of w)"
  obtains w' where "modify_section s (raise_max_order k) w = Some w'" and "sec_ok w' s F U X E"
    and "frame s P w w'"
  by (rule modify_section_ok [OF assms(1), of "raise_max_order k" P])
    (use sec_okD(5) [OF assms(1)] assms(2) that in \<open>auto simp: raise_max_order_def same_place_def\<close>)

lemma lower_min_order_ok:
  assumes "sec_ok w s F U X E"
  obtains w' where "modify_section s (lower_min_order k) w = Some w'" and "sec_ok w' s F U X E"
    and "frame s P w w'"
  by (rule modify_section_ok [OF assms(1), of "lower_min_order k" P])
    (use sec_okD(5) [OF assms(1)] that in \<open>auto simp: lower_min_order_def same_place_def\<close>)

lemma add_free_ok:
  assumes "sec_ok w s F U X E"
  obtains w' where "add_free s d w = Some w'" and "sec_ok w' s F U X E" and "frame s P w w'"
proof -
  let ?sec = "sections w ! s"
  let ?w = "w\<lparr>sections := (sections w)[s := ?sec\<lparr>sec_total_free := sec_total_free ?sec + d\<rparr>],
      zone_free := (zone_free w)(sec_zone ?sec := zone_free w (sec_zone ?sec) + d)\<rparr>"
  have "add_free s d w = Some ?w"
    using sec_okD(1) [OF assms] by (simp add: add_free_def get_section_def set_section_def Let_def)
  then show thesis
    using that sec_ok_stats [OF assms, of "?sec\<lparr>sec_total_free := sec_total_free ?sec + d\<rparr>"]
      sec_okD(5) [OF assms] by (simp add: same_place_def)
qed


lemma add_to_freelist_order_ok:
  assumes "sec_ok w s F U (insert (p, 2 ^ k) X) E" and "(p, 2 ^ k) \<notin> X" and "k < MAX_ORDER (arch_of w)"
  obtains w' where "add_to_freelist_order s k p w = Some w'"
    and "sec_ok w' s (F(k := p # F k)) U X (E - {p, p + 2 ^ k - 1})" and "frame s (ivl (p, 2 ^ k)) w w'"
proof -
  obtain w1 where w1: "push_block s k p w = Some w1"
      "sec_ok w1 s (F(k := p # F k)) U X (E - {p, p + 2 ^ k - 1})" "frame s (ivl (p, 2 ^ k)) w w1"
    by (rule push_block_ok [OF assms])
  obtain w2 where w2: "add_free s (2 ^ k) w1 = Some w2"
      "sec_ok w2 s (F(k := p # F k)) U X (E - {p, p + 2 ^ k - 1})" "frame s (ivl (p, 2 ^ k)) w1 w2"
    by (rule add_free_ok [OF w1(2)])
  show thesis
    using that w1(1) w2(1,2) frame_trans [OF w1(3) w2(3)] by (simp add: add_to_freelist_order_def)
qed

section \<open>Taking blocks\<close>

lemma highest_used_le: "highest_used count n \<le> n"
  by (induction n) simp_all

lemma take_off_to_add_later_ok:
  assumes "sec_ok w s F U X E" and "F k = as @ p # bs"
  obtains w' where "take_off_freelist_to_add_later s k p w = Some w'"
    and "sec_ok w' s (F(k := as @ bs)) U (insert (p, 2 ^ k) X) (if k = 0 then insert p E else E)"
    and "frame s {} w w'"
proof -
  let ?m = "MAX_ORDER (arch_of w)"
  note d = sec_okD [OF assms(1)]
  have k: "k < ?m"
    using d(4) [of k] assms(2) by auto
  obtain l where l: "list_deinit (link0 p) (links w) = Some l"
      "list_at l (freelist_link s k) (map link0 (as @ bs))"
      "\<forall>j < ?m. j \<noteq> k \<longrightarrow> list_at l (freelist_link s j) (map link0 (F j))"
      "agree_outside (sec_links s w) (links w) l"
    by (rule take_links [OF assms])
  define c where "c = change_count k (- 1) (sections w ! s)"
  define c1 where "c1 = (if min_order c = k then c\<lparr>min_order := lowest_used (fl_count c) k (?m - k)\<rparr> else c)"
  define c2 where "c2 = (if max_order c1 = k then c1\<lparr>max_order := highest_used (fl_count c1) ?m\<rparr> else c1)"
  define sec where "sec = (if fl_count c k \<noteq> 0 then c else c2)"
  have ck: "fl_count c k = 0 \<longleftrightarrow> fl_count (sections w ! s) k = 1"
    by (simp add: c_def)
  have "take_off_freelist_to_add_later s k p w = Some (taken_off s l sec w)"
    using l(1) k d(1)
    by (simp add: take_off_freelist_to_add_later_def modify_links_def modify_section_def get_section_def
        set_section_def taken_off_def Let_def sec_def c2_def c1_def ck flip: c_def)
  moreover have "fl_count sec = (fl_count (sections w ! s))(k := fl_count (sections w ! s) k - 1)"
      "same_place sec (sections w ! s)" "max_order sec \<le> ?m"
    using highest_used_le [of "fl_count c1" ?m] d(5)
    by (simp_all add: sec_def c2_def c1_def c_def change_count_def same_place_def)
  ultimately show thesis
    using that taken_off_ok [OF assms l(2-4)] by blast
qed

lemma take_off_freelist_order_ok:
  assumes "sec_ok w s F U X E" and "F k = as @ p # bs"
  obtains w' where "take_off_freelist_order s k p j w = Some w'"
    and "sec_ok w' s (F(k := as @ bs)) U (insert (p, 2 ^ k) X) (if k = 0 then insert p E else E)"
    and "frame s {} w w'"
proof -
  obtain w1 where w1: "add_free s (- (2 ^ j)) w = Some w1" "sec_ok w1 s F U X E" "frame s {} w w1"
    by (rule add_free_ok [OF assms(1)])
  note d = sec_okD [OF w1(2)]
  have k: "k < MAX_ORDER (arch_of w1)"
    using d(4) [of k] assms(2) by auto
  show thesis
  proof (cases "sec_total_free (sections w1 ! s) = 0")
    case False
    obtain w2 where w2: "take_off_freelist_to_add_later s k p w1 = Some w2"
        "sec_ok w2 s (F(k := as @ bs)) U (insert (p, 2 ^ k) X) (if k = 0 then insert p E else E)"
        "frame s {} w1 w2"
      by (rule take_off_to_add_later_ok [OF w1(2) assms(2)])
    have "take_off_freelist_order s k p j w = Some w2"
      using w1(1) w2(1) False d(1) by (simp add: take_off_freelist_order_def get_section_def)
    then show thesis
      using that w2(2) frame_trans [OF w1(3) w2(3)] by blast
  next
    case True
    obtain l where l: "list_deinit (link0 p) (links w1) = Some l"
        "list_at l (freelist_link s k) (map link0 (as @ bs))"
        "\<forall>j < MAX_ORDER (arch_of w1). j \<noteq> k \<longrightarrow> list_at l (freelist_link s j) (map link0 (F j))"
        "agree_outside (sec_links s w1) (links w1) l"
      by (rule take_links [OF w1(2) assms(2)])
    define sec where "sec = change_count k (- 1) ((sections w1 ! s)\<lparr>min_order := 0, max_order := 0\<rparr>)"
    have "pg_state w1 p = PAGE_STATE_FREE_LIST_HEAD"
      using d(9) [of p k] assms(2) by simp
    then have "take_off_freelist_order s k p j w = Some (taken_off s l sec w1)"
      using w1(1) l(1) k d(1) True
      by (simp add: take_off_freelist_order_def modify_links_def modify_section_def get_section_def
          set_section_def taken_off_def Let_def sec_def)
    moreover have "fl_count sec = (fl_count (sections w1 ! s))(k := fl_count (sections w1 ! s) k - 1)"
        "same_place sec (sections w1 ! s)" "max_order sec \<le> MAX_ORDER (arch_of w1)"
      by (simp_all add: sec_def change_count_def same_place_def)
    ultimately show thesis
      using that taken_off_ok [OF w1(2) assms(2) l(2-4)] frame_trans [OF w1(3)] by blast
  qed
qed


lemma freelist_count_zero:
  assumes "sec_ok w s F U X E" and "k < MAX_ORDER (arch_of w)"
  shows "fl_count (sections w ! s) k = 0 \<longleftrightarrow> F k = []"
proof -
  let ?P = "sec_pages (sections w ! s)"
  note d = sec_okD [OF assms(1)]
  have "distinct (F k)"
    using d(2) [OF assms(2)] by (simp add: list_at_def distinct_map)
  then have "length (F k) = card (set (F k))"
    by (simp add: distinct_card)
  also have "\<dots> \<le> card ?P"
    by (rule card_mono) (simp add: sec_pages_def, rule subsetI, rule head_in_pages(1) [OF assms(1)])
  also have "card ?P \<le> unat (rsize (sec_range (sections w ! s)))"
    by (simp add: sec_pages_def)
  also have "\<dots> < 2 ^ LENGTH(64)"
    by (rule unsigned_less)
  finally have "unat (of_nat (length (F k)) :: u64) = length (F k)"
    by (rule unat_of_nat_no_wrap)
  then have "(of_nat (length (F k)) :: u64) = 0 \<longleftrightarrow> length (F k) = 0"
    by (simp only: unat_eq_0 [symmetric])
  then show ?thesis
    using d(3) [OF assms(2)] by simp
qed

lemma get_from_freelist_order_ok:
  assumes "sec_ok w s F U X E" and "k < MAX_ORDER (arch_of w)"
  obtains (none) "F k = []" "get_from_freelist_order s k j w = Some (None, w)"
  | (some) p ps w' where "F k = p # ps" "get_from_freelist_order s k j w = Some (Some p, w')"
      "sec_ok w' s (F(k := ps)) U (insert (p, 2 ^ k) X) (if k = 0 then insert p E else E)" "frame s {} w w'"
proof (cases "F k")
  case Nil
  then show thesis
    using none freelist_count_zero [OF assms] sec_okD(1) [OF assms(1)] assms(2)
    by (simp add: get_from_freelist_order_def get_section_def)
next
  case (Cons p ps)
  obtain w' where w': "take_off_freelist_order s k p j w = Some w'"
      "sec_ok w' s (F(k := [] @ ps)) U (insert (p, 2 ^ k) X) (if k = 0 then insert p E else E)"
      "frame s {} w w'"
    by (rule take_off_freelist_order_ok [OF assms(1), of k "[]" p ps j]) (simp add: Cons)
  have "list_head (freelist_link s k) (links w) = Some (link0 p)"
    using list_ends(1) [OF sec_okD(2) [OF assms]] by (simp add: Cons)
  then have "freelist_first s k w = Some p"
    by (simp add: freelist_first_def)
  then have "get_from_freelist_order s k j w = Some (Some p, w')"
    using w'(1) freelist_count_zero [OF assms] sec_okD(1) [OF assms(1)] assms(2)
    by (simp add: get_from_freelist_order_def get_section_def Cons)
  then show thesis
    using some Cons w'(2,3) by simp
qed

section \<open>Splitting blocks\<close>

lemma sec_ok_retile:
  assumes "sec_ok w s F U X E" and "tiled (sec_pages (sections w ! s)) (frees F \<union> U \<union> Y)"
    and "(frees F \<union> U) \<inter> Y = {}" and "E \<subseteq> E'"
  shows "sec_ok w s F U Y E'"
proof -
  note d = sec_okD [OF assms(1)]
  show ?thesis
  proof (rule sec_okI)
    show "q \<in> set (F 0) \<union> E'" if "q \<in> sec_pages (sections w ! s)"
        "pg_state w q = PAGE_STATE_FREE_LIST_HEAD" "fl_order w q = 0" for q
      using d(11) [OF that] assms(4) by blast
  qed (rule d(1) assms(2,3) d(5,7) | rule d(2-4) d(9,10,12), assumption)+
qed

lemma sec_ok_mono: "sec_ok w s F U X E \<Longrightarrow> E \<subseteq> E' \<Longrightarrow> sec_ok w s F U X E'"
  by (rule sec_ok_retile) (simp_all add: sec_okD)

text \<open>A block that overlaps one in transit is neither free nor in use.\<close>

lemma transit_new:
  assumes "sec_ok w s F U X E" and "(p, n) \<in> X" and "x \<in> ivl (p, n)" and "x \<in> ivl (q, m)"
  shows "(q, m) \<notin> frees F \<union> U"
proof
  assume "(q, m) \<in> frees F \<union> U"
  moreover from this have "(p, n) = (q, m)"
    using tiled_same [OF sec_okD(6) [OF assms(1)] _ _ assms(3,4)] assms(2) by blast
  ultimately show False
    using sec_okD(8) [OF assms(1)] assms(2) by blast
qed

lemma sec_ok_cut:
  assumes "sec_ok w s F U {(p, n)} E" and "0 < k" and "k < n"
  shows "sec_ok w s F U {(p + k, n - k), (p, k)} E"
proof (rule sec_ok_retile [OF assms(1)])
  have t: "tiled (sec_pages (sections w ! s)) (insert (p, n) (frees F \<union> U))"
    using sec_okD(6) [OF assms(1)] by simp
  have n: "(p, n) \<notin> frees F \<union> U"
    using sec_okD(8) [OF assms(1)] by blast
  show "tiled (sec_pages (sections w ! s)) (frees F \<union> U \<union> {(p + k, n - k), (p, k)})"
    using tiled_cut [OF t n assms(2,3)] by (simp add: insert_commute)
  have "(p, k) \<notin> frees F \<union> U" "(p + k, n - k) \<notin> frees F \<union> U"
    using transit_new [OF assms(1), of p n p p k] transit_new [OF assms(1), of p n "p + k" "p + k" "n - k"]
      assms(2,3) by simp_all
  then show "(frees F \<union> U) \<inter> {(p + k, n - k), (p, k)} = {}"
    by blast
qed simp

lemma split_loop_ok:
  assumes "sec_ok w s F U {(p, 2 ^ h)} E" and "k \<le> h" and "h \<le> MAX_ORDER (arch_of w)"
  shows "\<exists>w' F'. split_loop s p k h w = Some w' \<and> sec_ok w' s F' U {(p, 2 ^ k)} E \<and> frame s (ivl (p, 2 ^ h)) w w'"
  using assms
proof (induction h arbitrary: w F)
  case 0
  then show ?case
    using frame_refl by auto
next
  case (Suc h)
  show ?case
  proof (cases "k = Suc h")
    case True
    then show ?thesis
      using Suc.prems(1) frame_refl by auto
  next
    case False
    let ?q = "p + 2 ^ h"
    have "sec_ok w s F U {(p + 2 ^ h, 2 ^ Suc h - 2 ^ h), (p, 2 ^ h)} E"
      by (rule sec_ok_cut [OF Suc.prems(1)]) simp_all
    then have cut: "sec_ok w s F U (insert (?q, 2 ^ h) {(p, 2 ^ h)}) E"
      by simp
    obtain w1 where w1: "push_block s h ?q w = Some w1"
        "sec_ok w1 s (F(h := ?q # F h)) U {(p, 2 ^ h)} (E - {?q, ?q + 2 ^ h - 1})" "frame s (ivl (?q, 2 ^ h)) w w1"
      by (rule push_block_ok [OF cut]) (use Suc.prems(3) in auto)
    have ok: "sec_ok w1 s (F(h := ?q # F h)) U {(p, 2 ^ h)} E"
      by (rule sec_ok_mono [OF w1(2)]) blast
    obtain w' F' where w': "split_loop s p k h w1 = Some w'" "sec_ok w' s F' U {(p, 2 ^ k)} E"
        "frame s (ivl (p, 2 ^ h)) w1 w'"
      using Suc.IH [OF ok] Suc.prems(2,3) False frame_keeps(1) [OF w1(3)] by auto
    have "ivl (?q, 2 ^ h) \<subseteq> ivl (p, 2 ^ Suc h)" "ivl (p, 2 ^ h) \<subseteq> ivl (p, 2 ^ Suc h)"
      by (auto simp: ivl_def)
    then have "frame s (ivl (p, 2 ^ Suc h)) w w'"
      using frame_trans [OF frame_mono [OF w1(3)] frame_mono [OF w'(3)]] by blast
    then show ?thesis
      using w1(1) w'(1,2) Suc.prems(2) False
      by (auto simp: add_to_freelist_order_from_higher_def)
  qed
qed

lemma free_extra_ok:
  assumes "sec_ok w s F U {(p, 2 ^ h)} E" and "k \<le> h" and "h < MAX_ORDER (arch_of w)"
  obtains w' F' where "free_extra_pages_if_from_higher_order p s h k w = Some w'"
    and "sec_ok w' s F' U {(p, 2 ^ k)} E" and "frame s (ivl (p, 2 ^ h)) w w'"
proof (cases "h = k")
  case True
  then show thesis
    using that assms(1) frame_refl by (simp add: free_extra_pages_if_from_higher_order_def)
next
  case False
  let ?P = "ivl (p, 2 ^ h)"
  obtain w1 where w1: "modify_section s (raise_max_order (h - 1)) w = Some w1" "sec_ok w1 s F U {(p, 2 ^ h)} E"
      "frame s ?P w w1"
    by (rule raise_max_order_ok [OF assms(1), of "h - 1"]) (use assms(3) in simp_all)
  obtain w2 F' where w2: "split_loop s p k h w1 = Some w2" "sec_ok w2 s F' U {(p, 2 ^ k)} E" "frame s ?P w1 w2"
    using split_loop_ok [OF w1(2) assms(2)] assms(3) frame_keeps(1) [OF w1(3)] by auto
  obtain w3 where w3: "modify_section s (lower_min_order k) w2 = Some w3" "sec_ok w3 s F' U {(p, 2 ^ k)} E"
      "frame s ?P w2 w3"
    by (rule lower_min_order_ok [OF w2(2)])
  show thesis
    using that [OF _ w3(2)] w1(1) w2(1) w3(1) False assms(2)
      frame_trans [OF frame_trans [OF w1(3) w2(3)] w3(3)]
    by (simp add: free_extra_pages_if_from_higher_order_def)
qed

end
