(* ===== verification/Page_Alloc_Spec.thy ===== *)
theory Page_Alloc_Spec
  imports Page_Alloc_Correct
begin

text \<open>
  The contract of \<open>alloc_pages\<close> over all sections and zones: it returns, a block it hands out was free,
  is marked with the requested state and, where the state asks for it, zeroed, and the pages in use keep
  their marks and their contents.
\<close>

section \<open>The world\<close>

definition world_ok :: "page_world \<Rightarrow> (nat \<Rightarrow> free_lists) \<Rightarrow> (nat \<Rightarrow> blocks) \<Rightarrow> bool" where
  "world_ok w F U \<longleftrightarrow> wf_sections w \<and> (\<forall>s < length (sections w). sec_ok w s (F s) (U s) {} {})"


lemma world_okD:
  assumes "world_ok w F U"
  shows "wf_sections w" and "s < length (sections w) \<Longrightarrow> sec_ok w s (F s) (U s) {} {}"
  using assms by (simp_all add: world_ok_def)

lemma world_ok_step:
  assumes "world_ok w F U" and "frame s P w w'" and "s < length (sections w)"
    and "P \<subseteq> sec_pages (sections w ! s)" and "sec_ok w' s F' U' {} {}"
  shows "world_ok w' (F(s := F')) (U(s := U'))"
  unfolding world_ok_def
proof (intro conjI allI impI)
  show "wf_sections w'"
    by (rule wf_sections_frame [OF world_okD(1) [OF assms(1)] assms(2)])
  show "sec_ok w' t ((F(s := F')) t) ((U(s := U')) t) {} {}" if "t < length (sections w')" for t
  proof (cases "t = s")
    case True
    then show ?thesis
      using assms(5) by simp
  next
    case False
    have "t < length (sections w)"
      using that frame_keeps(10) [OF assms(2)] by simp
    then have "sec_ok w' t (F t) (U t) {} {}"
      by (rule sec_ok_frame [OF world_okD(2) [OF assms(1)] world_okD(1) [OF assms(1)] assms(2) _ assms(3,4)])
        (use False in simp)
    then show ?thesis
      using False by simp
  qed
qed

section \<open>Searching a block\<close>





section \<open>Setting up a block\<close>















section \<open>Zeroing\<close>








section \<open>Allocation\<close>





















end
