(* ===== verification/Page_Free_Spec.thy ===== *)
theory Page_Free_Spec
  imports Page_Alloc_Spec
begin

text \<open>
  The contract of \<open>free_pages\<close>: a block in use goes back to the free lists, merged with the free blocks next
  to it where the code does so, and the invariant of the free lists holds again.
\<close>

section \<open>Returning a range of pages\<close>





section \<open>Merging\<close>







section \<open>Freeing\<close>




end
