(* ===== verification/Avltree_Heights.thy ===== *)
theory Avltree_Heights
  imports Avltree_Set
begin

text \<open>
  The heights that \<open>avltree_fixup\<close> of \<open>lib/adt/avltree.c\<close> stores in the nodes.  One turn of its
  loop rotates a node whose subtrees differ by 2 in height and then sets the height of the node
  that went down, but not that of the node that came up, nor that of the node that went down in
  the first rotation of a double one.  The theory relates the stored heights to the heights of
  the tree.
\<close>



















end
