(* ===== verification/Spec2Isabelle.thy ===== *)
theory Spec2Isabelle
  imports Arith Timespecs Calendar Stdlib_Compare Ranges Bits Refcounts Avltree_Set Lists Addrspace_Find Spinlock
    Ctype Units Page_Free_Spec Avltree_Heights
begin

text \<open>
  A verification of the portable core of Aphrodite, an operating-system kernel written in C for x86_64,
  aarch64, riscv64 and loongarch64.  The program consists of a library (\<open>src/lib\<close>) of arithmetic,
  containers, strings and time, and of a kernel (\<open>src/kernel/src\<close>) that builds memory management,
  scheduling, drivers and file systems on it.  The development covers the parts that are algorithms
  rather than access to hardware.

  \<^bold>\<open>Conventions.\<close>  The C integers are words of their width.  A failed \<open>assert\<close>, \<open>verify_not_reached\<close>, a
  dereference of \<open>NULL\<close>, undefined behaviour and a loop that never ends are \<^const>\<open>None\<close>; a function
  \<open>bool f(..., T *out)\<close> returns \<open>Fail\<close> or \<open>Ok\<close> of what it stores.  Objects linked by pointers live in
  heaps, records of functions from object numbers, and memory is a function from addresses to bytes.
  Loops are structural recursion, \<^theory_text>\<open>function\<close> with a measure, or \<^theory_text>\<open>partial_function (option)\<close>; for the
  last kind the theorems state that the loop returns.  No fuel is used, except that the loop of
  \<open>free_large_page\<close> counts the pages of a large page, which it leaves behind at least one in every turn.

  \<^bold>\<open>Theories\<close>, and what they model under \<open>src\<close>:

  \<^item> \<open>Prelude\<close>: the vocabulary above, and lemmas on words, options and lists.
  \<^item> \<open>Arith\<close>: \<open>lib/overflow.h\<close>, \<open>lib/macros.h\<close>, \<open>lib/align.*\<close>, \<open>lib/math.c\<close>, \<open>lib/util.c\<close>.  Alignment
    rounds to the least multiple or reports that it does not fit; \<open>math_pow\<close> computes one factor too many.
  \<^item> \<open>Ranges\<close>: \<open>lib/adt/range.*\<close>.  The predicates decide intersection and inclusion of sets of
    locations; exactly when aligning a range shrinks or covers it.
  \<^item> \<open>Bits\<close>: \<open>lib/bits.*\<close>.  The searches return the first bit of their kind; runs of bits are found only
    in the lowest byte.
  \<^item> \<open>Refcounts\<close>: \<open>lib/refcount.*\<close>.  A fair history of takes and drops never panics and reports the
    last drop once.
  \<^item> \<open>Timespecs\<close> and \<open>Calendar\<close>: \<open>lib/time.*\<close>.  Conversions of units scale exactly, dates are those of
    the Gregorian calendar, and broken-down times denote their timestamp, with the exceptions named.
  \<^item> \<open>Lists\<close>: \<open>lib/list.h\<close>.  The operations on circular lists are operations on sequences, and leave
    the lists next to them alone.
  \<^item> \<open>Avltree\<close> (the code), \<open>Avltree_Shape\<close>, \<open>Avltree_Correct\<close>, \<open>Avltree_Delete\<close>, \<open>Avltree_Set\<close>,
    \<open>Avltree_Heights\<close>: \<open>lib/adt/avltree.*\<close>.  Insertion and deletion terminate and implement a finite set of
    keys, with all pointers consistent; the heights that a turn of the rebalancing leaves behind are
    determined, and are not always those of the tree.  The locale \<open>avl_update\<close> is
    the interface of the callback that maintains data in the nodes, interpreted for no callback and for
    the callback of the address spaces.
  \<^item> \<open>Addrspace\<close> and \<open>Addrspace_Find\<close>: \<open>lib/adt/addrspace.*\<close>, on the tree and the list.  Adding and
    removing a node keeps tree and list in step; the search for free space terminates and finds gaps, and
    adding the node there keeps the tree exactly if its predecessor has no right child.
  \<^item> \<open>Stdlib\<close>, \<open>Stdlib_Compare\<close>: \<open>kernel/src/sys/stdlib.c\<close>.  The memory functions copy, move and fill
    exactly their regions on every architecture; \<open>memcmp\<close> and the string functions return what they
    should, with the exceptions named.
  \<^item> \<open>Ctype\<close>: \<open>lib/ctype.c\<close>; \<open>Units\<close>: \<open>lib/size.*\<close> and \<open>lib/freq.*\<close>, whose two loops are interpretations
    of the locale \<open>unit_loop\<close>.
  \<^item> \<open>Spinlock\<close>: \<open>kernel/src/cpu/spinlock.*\<close>.  The ticket lock as a state machine that interleaves the
    atomic operations of any number of threads: mutual exclusion, hand-over in the order of the tickets
    and freedom from starvation, for fewer than 2^32 threads and with counters that wrap around, as long
    as no \<open>spin_try_acquire\<close> in progress is overtaken by a full turn of the counters; otherwise two threads
    can hold the lock.
  \<^item> \<open>Pages\<close>: \<open>kernel/src/mm/page.*\<close>, \<open>section.*\<close>, \<open>zone.c\<close>, \<open>hhdm.c\<close> and the conversions of
    \<open>mm_types.h\<close>, with pointers to descriptors as 64-bit addresses.  Pointers to descriptors, page numbers
    and addresses in the direct map convert back and forth, and every check on the way passes.
  \<^item> \<open>Page_Alloc\<close>: \<open>kernel/src/mm/page_alloc.c\<close>, on the lists, the reference counts and memory.
    \<open>Free_Lists\<close> and \<open>Free_Lists_Ops\<close> hold its invariant, that free, used and moving blocks tile the pages
    of a section and the free lists hold the free blocks, and what the operations on a free list do to it;
    \<open>Page_Alloc_Correct\<close> treats the splitting of blocks and ranges.  \<open>Page_Alloc_Spec\<close> and \<open>Page_Free_Spec\<close>
    give the contracts: \<open>alloc_pages\<close> hands out a free block, disjoint from all blocks in use, and
    \<open>free_pages\<close> takes a block back, both keeping the invariant.  Inside the allocator a page is the number
    of its descriptor.

  \<^bold>\<open>Not modelled.\<close>  Large-page allocation, page tables, the slab allocator, hash maps, bitmaps, growable
  buffers and strings, number formatting and parsing, the scheduler, drivers, file systems, ACPI, device
  trees, boot code and everything in \<open>kernel/src/arch\<close> except constants.  Printing functions only write
  to a console.  Interleavings are modelled for the spinlock only; the other components are sequential,
  as their callers hold a lock.  Pages are 4 KiB; the 16 KiB configuration of aarch64 is left out.  The
  union in \<open>struct page\<close> is modelled without overlap of its members, as the state of a page says which of
  them is in use.
\<close>

end
